(* ===== verification/Goc_Prelude.thy ===== *)
theory Goc_Prelude
  imports Main "HOL-Library.Word" "HOL-Library.Multiset"
begin

unbundle bit_operations_syntax

text \<open>
  The prelude of the libgoc development: C's \<open>size_t\<close> arithmetic with its wrap-around written
  out, faults as values (\<open>ABORT\<close>, an access outside an allocated block), their sequencing, the
  named collections of simplification rules the component theories share, and the generic facts
  on lists that more than one of them uses.
\<close>

section \<open>Faults and fallible computations\<close>

text \<open>
  \<open>Abort\<close> is a call of the \<open>ABORT\<close> macro (the process stops with a message); \<open>OutOfBounds\<close> is
  a read or write outside the block a pointer belongs to, which C leaves undefined.
\<close>

datatype fault = Abort string | OutOfBounds

type_synonym 'a res = "fault + 'a"

definition rbind :: "'a res \<Rightarrow> ('a \<Rightarrow> 'b res) \<Rightarrow> 'b res" where
  "rbind m f = (case m of Inl e \<Rightarrow> Inl e | Inr x \<Rightarrow> f x)"

lemma rbind_simps [simp]:
  "rbind (Inl e) f = Inl e"
  "rbind (Inr x) f = f x"
  by (simp_all add: rbind_def)

lemma rbind_Inr_iff:
  "rbind m f = Inr y \<longleftrightarrow> (\<exists>x. m = Inr x \<and> f x = Inr y)"
  by (cases m) auto

lemma rbind_InrE [elim!]:
  assumes "rbind m f = Inr y"
  obtains x where "m = Inr x" and "f x = Inr y"
  using assms by (auto simp: rbind_Inr_iff)

lemma rbind_cong [fundef_cong]:
  "\<lbrakk>m = m'; \<And>x. m' = Inr x \<Longrightarrow> f x = g x\<rbrakk> \<Longrightarrow> rbind m f = rbind m' g"
  by (cases m') auto

text \<open>
  Code with a loop that may not end gives \<open>None\<close> when it does not; \<open>obind\<close> sequences such code.
\<close>

type_synonym 'a out = "'a res option"

definition obind :: "'a out \<Rightarrow> ('a \<Rightarrow> 'b out) \<Rightarrow> 'b out" where
  "obind m f = (case m of None \<Rightarrow> None | Some (Inl e) \<Rightarrow> Some (Inl e) | Some (Inr x) \<Rightarrow> f x)"

lemma obind_simps [simp]:
  "obind None f = None"
  "obind (Some (Inl e)) f = Some (Inl e)"
  "obind (Some (Inr x)) f = f x"
  by (simp_all add: obind_def)

lemma obind_cong [fundef_cong]:
  "\<lbrakk>m = m'; \<And>x. m' = Some (Inr x) \<Longrightarrow> f x = g x\<rbrakk> \<Longrightarrow> obind m f = obind m' g"
  by (cases m'; cases "the m'") (auto simp: obind_def split: sum.splits)

section \<open>Pointers and \<open>size_t\<close>\<close>

text \<open>
  A \<open>void*\<close> is its address, \<open>0\<close> being \<open>NULL\<close>. A \<open>size_t\<close> is a natural number below \<open>2 ^ 64\<close>;
  the three operations wrap as the hardware does.
\<close>

type_synonym ptr = nat

abbreviation (input) NULL :: ptr where
  "NULL \<equiv> 0"

definition SIZE_MAX :: nat where
  "SIZE_MAX = 2 ^ 64 - 1"

definition size_add :: "nat \<Rightarrow> nat \<Rightarrow> nat" where
  "size_add a b = (a + b) mod 2 ^ 64"

definition size_sub :: "nat \<Rightarrow> nat \<Rightarrow> nat" where
  "size_sub a b = (a + (2 ^ 64 - b)) mod 2 ^ 64"

definition size_mul :: "nat \<Rightarrow> nat \<Rightarrow> nat" where
  "size_mul a b = (a * b) mod 2 ^ 64"

named_theorems size_arith "size_t arithmetic that does not wrap"

lemma size_add_eq [size_arith]: "a + b < 2 ^ 64 \<Longrightarrow> size_add a b = a + b"
  by (simp add: size_add_def)

lemma size_sub_eq [size_arith]: "\<lbrakk>b \<le> a; a < 2 ^ 64\<rbrakk> \<Longrightarrow> size_sub a b = a - b"
proof -
  assume "b \<le> a" "a < 2 ^ 64"
  then have eq: "a + (2 ^ 64 - b) = (a - b) + 2 ^ 64" by simp
  show ?thesis unfolding size_sub_def eq using \<open>a < 2 ^ 64\<close> by simp
qed

lemma size_mul_eq [size_arith]: "a * b < 2 ^ 64 \<Longrightarrow> size_mul a b = a * b"
  by (simp add: size_mul_def)

lemma size_sub_wrap: "size_sub 0 1 = SIZE_MAX"
  by (simp add: size_sub_def SIZE_MAX_def)

lemma size_op_bound:
  "size_add a b < 2 ^ 64" "size_sub a b < 2 ^ 64" "size_mul a b < 2 ^ 64"
  by (simp_all add: size_add_def size_sub_def size_mul_def)

text \<open>The number of pointer-sized slots that \<open>n * sizeof(void*)\<close> bytes hold.\<close>

definition slots :: "nat \<Rightarrow> nat" where
  "slots n = size_mul n 8 div 8"

lemma slots_eq [size_arith]: "n < 2 ^ 61 \<Longrightarrow> slots n = n"
  by (simp add: slots_def size_mul_def)

text \<open>Masking with a power of two less one.\<close>

lemma and_mask_mod: "(x :: nat) AND (2 ^ k - 1) = x mod 2 ^ k"
  unfolding mask_eq_exp_minus_1 [symmetric] take_bit_eq_mask [symmetric] by (rule take_bit_eq_mod)

section \<open>Lists\<close>

text \<open>A read and a write of a C array of known length.\<close>

definition lread :: "'a list \<Rightarrow> nat \<Rightarrow> 'a res" where
  "lread xs i = (if i < length xs then Inr (xs ! i) else Inl OutOfBounds)"

definition lwrite :: "'a list \<Rightarrow> nat \<Rightarrow> 'a \<Rightarrow> 'a list res" where
  "lwrite xs i v = (if i < length xs then Inr (xs[i := v]) else Inl OutOfBounds)"

lemma lwrite_eq [simp]: "i < length xs \<Longrightarrow> lwrite xs i v = Inr (xs[i := v])"
  by (simp add: lwrite_def)

lemma lread_eq [simp]: "i < length xs \<Longrightarrow> lread xs i = Inr (xs ! i)"
  by (simp add: lread_def)

text \<open>Overwriting the segment of a block that starts at \<open>off\<close>: what \<open>memcpy\<close> does to it.\<close>

definition splice :: "'a list \<Rightarrow> nat \<Rightarrow> 'a list \<Rightarrow> 'a list" where
  "splice xs off ys = take off xs @ ys @ drop (off + length ys) xs"

lemma length_splice [simp]:
  "off + length ys \<le> length xs \<Longrightarrow> length (splice xs off ys) = length xs"
  by (simp add: splice_def)

lemma segment_splice_same [simp]:
  "off + length ys \<le> length xs \<Longrightarrow> take (length ys) (drop off (splice xs off ys)) = ys"
  by (simp add: splice_def)

lemma splice_Nil [simp]: "splice xs off [] = xs"
  by (simp add: splice_def)

lemma take_Suc_drop_update:
  "\<lbrakk>i + n < length xs\<rbrakk> \<Longrightarrow> take (Suc n) (drop i (xs[i + n := v])) = take n (drop i xs) @ [v]"
  by (simp add: drop_update_swap take_Suc_conv_app_nth)

lemma take_Suc_drop_update_head:
  "\<lbrakk>Suc i + n \<le> length xs\<rbrakk> \<Longrightarrow> take (Suc n) (drop i (xs[i := v])) = v # take n (drop (Suc i) xs)"
  by (simp add: drop_update_swap Cons_nth_drop_Suc [symmetric])

lemma segment_update:
  "\<lbrakk>j < n\<rbrakk> \<Longrightarrow> take n (drop i (xs[i + j := v])) = (take n (drop i xs))[j := v]"
  by (cases "i \<le> length xs") (simp_all add: drop_update_swap take_update_swap list_update_beyond)

lemma segment_nth: "\<lbrakk>j < n; i + n \<le> length xs\<rbrakk> \<Longrightarrow> take n (drop i xs) ! j = xs ! (i + j)"
  by simp

lemma count_update:
  "i < length xs \<Longrightarrow> length (filter P (xs[i := y])) + (if P (xs ! i) then 1 else 0)
     = length (filter P xs) + (if P y then 1 else 0)"
proof (induction xs arbitrary: i)
  case (Cons x xs)
  show ?case
  proof (cases i)
    case (Suc j)
    with Cons.IH [of j] Cons.prems show ?thesis by simp
  qed simp
qed simp

lemma count_less: "length (filter P xs) < length xs \<longleftrightarrow> (\<exists>i < length xs. \<not> P (xs ! i))"
  by (metis in_set_conv_nth length_filter_less filter_True nat_neq_iff)

end
