(* ===== verification/Goc_Heap.thy ===== *)
theory Goc_Heap
  imports Goc_Prelude
begin

text \<open>
  The collected heap as libgoc's containers see it (\<open>src/gc.c\<close>: \<open>goc_malloc\<close>,
  \<open>_goc_box_impl\<close>, \<open>_goc_unbox_check\<close>, and the allocation macros of \<open>include/goc.h\<close>):
  blocks of pointer-sized slots, boxed scalars, and bounds-checked access to them. Whether the
  Boehm collector's \<open>GC_malloc\<close> can serve a request is a parameter of the heap.
\<close>

section \<open>State\<close>

datatype goc_boxed_type =
  GOC_BOXED_TYPE_UNKNOWN | GOC_BOXED_TYPE_BOOL | GOC_BOXED_TYPE_INT | GOC_BOXED_TYPE_UINT
| GOC_BOXED_TYPE_BYTE | GOC_BOXED_TYPE_UBYTE | GOC_BOXED_TYPE_REAL | GOC_BOXED_TYPE_COMPLEX
| GOC_BOXED_TYPE_MAX

text \<open>A boxed value: the header's type tag and size, and the payload bytes after the header.\<close>

record goc_boxed =
  btype :: goc_boxed_type
  bsize :: nat
  bpayload :: string

text \<open>
  \<open>bufs\<close> maps a block to its slots, \<open>boxes\<close> a payload pointer to the boxed value and \<open>entries\<close> a
  pointer to the key and value of a \<open>goc_dict_entry_t\<close>; \<open>next_buf\<close>
  and \<open>next_box\<close> are the next unused names and \<open>allocs\<close> counts the requests. \<open>gc_null k n\<close> says
  that \<open>GC_malloc\<close> answers the \<open>k\<close>-th request, for \<open>n\<close> bytes, with \<open>NULL\<close>. Pointers 0 (\<open>NULL\<close>)
  and 1 (the dictionary's tombstone) are never handed out.
\<close>

record goc_heap =
  bufs :: "nat \<rightharpoonup> ptr list"
  next_buf :: nat
  boxes :: "ptr \<rightharpoonup> goc_boxed"
  next_box :: ptr
  entries :: "ptr \<rightharpoonup> ptr \<times> ptr"
  allocs :: nat
  gc_null :: "nat \<Rightarrow> nat \<Rightarrow> bool"

definition empty_heap :: goc_heap where
  "empty_heap = \<lparr>bufs = Map.empty, next_buf = 0, boxes = Map.empty, next_box = 2,
                 entries = Map.empty, allocs = 0, gc_null = (\<lambda>_ _. False)\<rparr>"

definition heap_ok :: "goc_heap \<Rightarrow> bool" where
  "heap_ok h \<longleftrightarrow> (\<forall>b. next_buf h \<le> b \<longrightarrow> bufs h b = None)
     \<and> (\<forall>p. next_box h \<le> p \<longrightarrow> boxes h p = None \<and> entries h p = None) \<and> 2 \<le> next_box h"

definition gc_serves :: "goc_heap \<Rightarrow> bool" where
  "gc_serves h \<longleftrightarrow> (\<forall>k n. \<not> gc_null h k n)"

section \<open>Operations\<close>

definition goc_malloc :: "nat \<Rightarrow> goc_heap \<Rightarrow> goc_heap res" where
  "goc_malloc n h =
     (if gc_null h (allocs h) n then Inl (Abort ''goc_malloc: allocation failed'')
      else Inr (h\<lparr>allocs := Suc (allocs h)\<rparr>))"

text \<open>
  \<open>goc_new_n(void*, n)\<close>: \<open>goc_malloc\<close> of \<open>n * sizeof(void*)\<close> bytes, which \<open>GC_malloc\<close> clears.
  The product is taken in \<open>size_t\<close>, so a wrapped product allocates fewer slots than \<open>n\<close>.
\<close>

definition goc_new_n :: "nat \<Rightarrow> goc_heap \<Rightarrow> (nat \<times> goc_heap) res" where
  "goc_new_n n h =
     rbind (goc_malloc (size_mul n 8) h) (\<lambda>h1.
     Inr (next_buf h1, h1\<lparr>bufs := (bufs h1)(next_buf h1 \<mapsto> replicate (slots n) NULL),
                          next_buf := Suc (next_buf h1)\<rparr>))"

definition goc_box_impl :: "string \<Rightarrow> nat \<Rightarrow> goc_boxed_type \<Rightarrow> goc_heap \<Rightarrow> (ptr \<times> goc_heap) res" where
  "goc_box_impl val sz ty h =
     (let total = size_add 16 sz in
      rbind (goc_malloc total h) (\<lambda>h1.
      Inr (next_box h1, h1\<lparr>boxes := (boxes h1)(next_box h1 \<mapsto>
                              \<lparr>btype = ty, bsize = sz, bpayload = take sz val\<rparr>),
                           next_box := Suc (next_box h1)\<rparr>)))"

definition goc_unbox_check :: "ptr \<Rightarrow> ptr res" where
  "goc_unbox_check x =
     (if x = NULL then Inl (Abort ''libgoc: goc_unbox: null pointer'') else Inr x)"

text \<open>\<open>goc_unbox(char, p)\<close>: the check, then the first payload byte.\<close>

definition goc_unbox_char :: "ptr \<Rightarrow> goc_heap \<Rightarrow> char res" where
  "goc_unbox_char p h =
     rbind (goc_unbox_check p) (\<lambda>p.
      case boxes h p of
        None \<Rightarrow> Inl OutOfBounds
      | Some b \<Rightarrow> (case bpayload b of [] \<Rightarrow> Inl OutOfBounds | c # _ \<Rightarrow> Inr c))"

definition buf_read :: "nat \<Rightarrow> nat \<Rightarrow> goc_heap \<Rightarrow> ptr res" where
  "buf_read b i h = (case bufs h b of
      None \<Rightarrow> Inl OutOfBounds
    | Some xs \<Rightarrow> if i < length xs then Inr (xs ! i) else Inl OutOfBounds)"

definition buf_write :: "nat \<Rightarrow> nat \<Rightarrow> ptr \<Rightarrow> goc_heap \<Rightarrow> goc_heap res" where
  "buf_write b i v h = (case bufs h b of
      None \<Rightarrow> Inl OutOfBounds
    | Some xs \<Rightarrow> if i < length xs then Inr (h\<lparr>bufs := (bufs h)(b \<mapsto> xs[i := v])\<rparr>)
                 else Inl OutOfBounds)"

text \<open>
  \<open>memcpy(dst + doff, src + soff, n * sizeof(void*))\<close>: faults unless both ranges lie inside
  their blocks.
\<close>

definition buf_copy :: "nat \<Rightarrow> nat \<Rightarrow> nat \<Rightarrow> nat \<Rightarrow> nat \<Rightarrow> goc_heap \<Rightarrow> goc_heap res" where
  "buf_copy dst doff src soff n h =
     (case (bufs h dst, bufs h src) of
        (Some ds, Some ss) \<Rightarrow>
          let m = slots n in
          if doff + m \<le> length ds \<and> soff + m \<le> length ss
          then Inr (h\<lparr>bufs := (bufs h)(dst \<mapsto> splice ds doff (take m (drop soff ss)))\<rparr>)
          else Inl OutOfBounds
      | _ \<Rightarrow> Inl OutOfBounds)"

section \<open>Lemmas\<close>

lemma heap_ok_empty [simp]: "heap_ok empty_heap"
  by (simp add: heap_ok_def empty_heap_def)

lemma gc_serves_empty [simp]: "gc_serves empty_heap"
  by (simp add: gc_serves_def empty_heap_def)

lemma gc_serves_upd [simp]:
  "gc_serves (h\<lparr>bufs := B\<rparr>) = gc_serves h"
  "gc_serves (h\<lparr>next_buf := k\<rparr>) = gc_serves h"
  "gc_serves (h\<lparr>boxes := X\<rparr>) = gc_serves h"
  "gc_serves (h\<lparr>next_box := p\<rparr>) = gc_serves h"
  "gc_serves (h\<lparr>allocs := n\<rparr>) = gc_serves h"
  "gc_serves (h\<lparr>entries := E\<rparr>) = gc_serves h"
  by (simp_all add: gc_serves_def)

lemma heap_ok_alloc_less: "\<lbrakk>heap_ok h; bufs h b = Some xs\<rbrakk> \<Longrightarrow> b < next_buf h"
  by (auto simp: heap_ok_def not_less [symmetric])

lemma heap_ok_fresh: "heap_ok h \<Longrightarrow> bufs h (next_buf h) = None"
  by (simp add: heap_ok_def)

text \<open>What an allocation does to the heap when the collector serves it.\<close>

definition heap_new :: "goc_heap \<Rightarrow> nat \<Rightarrow> goc_heap" where
  "heap_new h n = h\<lparr>bufs := (bufs h)(next_buf h \<mapsto> replicate n NULL),
                   next_buf := Suc (next_buf h), allocs := Suc (allocs h)\<rparr>"

lemma heap_new_simps [simp]:
  "bufs (heap_new h n) = (bufs h)(next_buf h \<mapsto> replicate n NULL)"
  "next_buf (heap_new h n) = Suc (next_buf h)"
  "boxes (heap_new h n) = boxes h"
  "next_box (heap_new h n) = next_box h"
  "entries (heap_new h n) = entries h"
  "gc_serves (heap_new h n) = gc_serves h"
  by (simp_all add: heap_new_def)

lemma heap_ok_heap_new [simp]: "heap_ok h \<Longrightarrow> heap_ok (heap_new h n)"
  by (auto simp: heap_ok_def heap_new_def)

lemma goc_malloc_serves: "gc_serves h \<Longrightarrow> goc_malloc n h = Inr (h\<lparr>allocs := Suc (allocs h)\<rparr>)"
  by (simp add: goc_malloc_def gc_serves_def)

lemma goc_new_n_serves: "gc_serves h \<Longrightarrow> goc_new_n n h = Inr (next_buf h, heap_new h (slots n))"
  by (simp add: goc_new_n_def goc_malloc_serves heap_new_def)

lemma heap_ok_upd [simp]:
  "\<lbrakk>heap_ok h; bufs h b = Some xs\<rbrakk> \<Longrightarrow> heap_ok (h\<lparr>bufs := (bufs h)(b \<mapsto> ys)\<rparr>)"
  by (auto simp: heap_ok_def)

lemma heap_ok_allocs [simp]: "heap_ok (h\<lparr>allocs := n\<rparr>) = heap_ok h"
  by (simp add: heap_ok_def)

lemma heap_ok_box:
  "heap_ok h \<Longrightarrow> heap_ok (h\<lparr>boxes := (boxes h)(next_box h \<mapsto> x), next_box := Suc (next_box h)\<rparr>)"
  by (auto simp: heap_ok_def)

lemma buf_read_eq:
  "\<lbrakk>bufs h b = Some xs; i < length xs\<rbrakk> \<Longrightarrow> buf_read b i h = Inr (xs ! i)"
  by (simp add: buf_read_def)

lemma buf_write_eq:
  "\<lbrakk>bufs h b = Some xs; i < length xs\<rbrakk>
   \<Longrightarrow> buf_write b i v h = Inr (h\<lparr>bufs := (bufs h)(b \<mapsto> xs[i := v])\<rparr>)"
  by (simp add: buf_write_def)

lemma buf_copy_eq:
  "\<lbrakk>bufs h dst = Some ds; bufs h src = Some ss; n < 2 ^ 61;
    doff + n \<le> length ds; soff + n \<le> length ss\<rbrakk>
   \<Longrightarrow> buf_copy dst doff src soff n h
       = Inr (h\<lparr>bufs := (bufs h)(dst \<mapsto> splice ds doff (take n (drop soff ss)))\<rparr>)"
  by (simp add: buf_copy_def slots_eq)

end
