(* ===== verification/Goc_Hash.thy ===== *)
theory Goc_Hash
  imports Goc_Heap
begin

text \<open>
  The open-addressing table inside \<open>src/goc_dict.c\<close>: capacity rounding, the FNV-1a hash, linear
  probing with tombstones, and the search for a free slot during a rehash. The contents of the
  C strings that keys point to are a function \<open>mem\<close> of the pointer. Loops are partial functions;
  that they end on a well-formed table is proved here, with the slot they end in.
\<close>

section \<open>Operations\<close>

definition GOC_DICT_TOMBSTONE :: ptr where
  "GOC_DICT_TOMBSTONE = 1"

definition GOC_DICT_MIN_CAP :: nat where
  "GOC_DICT_MIN_CAP = 8"

partial_function (option) round_cap_loop :: "nat \<Rightarrow> nat \<Rightarrow> nat option" where
  "round_cap_loop cap requested_cap =
     (if cap < requested_cap then round_cap_loop (size_mul cap 2) requested_cap else Some cap)"

definition goc_dict_round_cap :: "nat \<Rightarrow> nat option" where
  "goc_dict_round_cap requested_cap = round_cap_loop GOC_DICT_MIN_CAP requested_cap"

text \<open>One step of FNV-1a: exclusive or with the byte, times the prime, in 64 bits.\<close>

definition fnv_step :: "char \<Rightarrow> 64 word \<Rightarrow> 64 word" where
  "fnv_step c hash = (hash XOR of_nat (of_char c)) * 1099511628211"

definition goc_dict_hash :: "string \<Rightarrow> nat \<Rightarrow> nat" where
  "goc_dict_hash key cap =
     unat (fold fnv_step key 1469598103934665603 AND (of_nat cap - 1))"

definition next_slot :: "nat \<Rightarrow> nat \<Rightarrow> nat" where
  "next_slot cap idx = size_add idx 1 AND size_sub cap 1"

partial_function (option) probe_loop ::
  "(ptr \<Rightarrow> string) \<Rightarrow> ptr list \<Rightarrow> nat \<Rightarrow> string \<Rightarrow> nat \<Rightarrow> nat \<Rightarrow> nat out" where
  "probe_loop mem table_keys cap key idx first_tombstone =
     (if \<not> idx < length table_keys then Some (Inl OutOfBounds)
      else let current = table_keys ! idx in
        if current = NULL
        then Some (Inr (if first_tombstone = SIZE_MAX then idx else first_tombstone))
        else if current = GOC_DICT_TOMBSTONE
        then probe_loop mem table_keys cap key (next_slot cap idx)
               (if first_tombstone = SIZE_MAX then idx else first_tombstone)
        else if mem current = key then Some (Inr idx)
        else probe_loop mem table_keys cap key (next_slot cap idx) first_tombstone)"

definition probe_table :: "(ptr \<Rightarrow> string) \<Rightarrow> ptr list \<Rightarrow> nat \<Rightarrow> string \<Rightarrow> nat out" where
  "probe_table mem table_keys cap key =
     probe_loop mem table_keys cap key (goc_dict_hash key cap) SIZE_MAX"

text \<open>The inner loop of the rehash: the first empty slot from \<open>dst\<close> on.\<close>

partial_function (option) free_loop :: "ptr list \<Rightarrow> nat \<Rightarrow> nat \<Rightarrow> nat out" where
  "free_loop new_table_keys new_cap dst =
     (if \<not> dst < length new_table_keys then Some (Inl OutOfBounds)
      else if new_table_keys ! dst \<noteq> NULL
      then free_loop new_table_keys new_cap (next_slot new_cap dst)
      else Some (Inr dst))"

fun rehash_loop ::
  "(ptr \<Rightarrow> string) \<Rightarrow> ptr list \<Rightarrow> ptr list \<Rightarrow> nat \<Rightarrow> nat list \<Rightarrow> ptr list \<Rightarrow> ptr list
   \<Rightarrow> (ptr list \<times> ptr list) out" where
  "rehash_loop mem tk tv new_cap [] nk nt = Some (Inr (nk, nt))"
| "rehash_loop mem tk tv new_cap (i # is) nk nt =
     obind (Some (lread tk i)) (\<lambda>key.
     if key = NULL \<or> key = GOC_DICT_TOMBSTONE then rehash_loop mem tk tv new_cap is nk nt
     else obind (free_loop nk new_cap (goc_dict_hash (mem key) new_cap)) (\<lambda>dst.
          obind (Some (lwrite nk dst key)) (\<lambda>nk'.
          obind (Some (lread tv i)) (\<lambda>val.
          obind (Some (lwrite nt dst val)) (\<lambda>nt'.
          rehash_loop mem tk tv new_cap is nk' nt')))))"

section \<open>Capacity rounding\<close>

lemma round_cap_loop_pow:
  assumes "r \<le> 2 ^ 63" "k \<le> 63"
  shows "\<exists>j. k \<le> j \<and> j \<le> 63 \<and> round_cap_loop (2 ^ k) r = Some (2 ^ j) \<and> r \<le> 2 ^ j
           \<and> (j = k \<or> 2 ^ j < 2 * r)"
  using assms(2)
proof (induction "63 - k" arbitrary: k)
  case 0
  then have "k = 63" by simp
  moreover have "round_cap_loop (2 ^ 63) r = Some (2 ^ 63)"
    using assms(1) by (subst round_cap_loop.simps) simp
  ultimately show ?case using assms(1) by (intro exI [of _ 63]) simp
next
  case (Suc n)
  show ?case
  proof (cases "2 ^ k < r")
    case True
    have k: "Suc k \<le> 63" "n = 63 - Suc k" using Suc.hyps(2) by simp_all
    have "(2::nat) ^ Suc k \<le> 2 ^ 63" using k(1) by (rule power_increasing) simp
    then have mul: "size_mul (2 ^ k) 2 = 2 ^ Suc k" by (subst size_mul_eq) auto
    obtain j where j: "Suc k \<le> j" "j \<le> 63" "round_cap_loop (2 ^ Suc k) r = Some (2 ^ j)"
      "r \<le> 2 ^ j" "j = Suc k \<or> 2 ^ j < 2 * r"
      using Suc.hyps(1) [OF k(2) k(1)] by blast
    have "round_cap_loop (2 ^ k) r = Some (2 ^ j)"
      using True j(3) mul by (subst round_cap_loop.simps) simp
    moreover have "2 ^ j < 2 * r" using j(5) True by auto
    ultimately show ?thesis using j by (intro exI [of _ j]) auto
  next
    case False
    then have "round_cap_loop (2 ^ k) r = Some (2 ^ k)" by (subst round_cap_loop.simps) simp
    with False Suc.prems show ?thesis by (intro exI [of _ k]) auto
  qed
qed

text \<open>Below \<open>2 ^ 63\<close> the rounding ends with the least power of two that is large enough.\<close>

lemma round_cap_ok:
  assumes "r \<le> 2 ^ 63"
  obtains k where "3 \<le> k" "k \<le> 63" "goc_dict_round_cap r = Some (2 ^ k)" "r \<le> 2 ^ k"
    "k = 3 \<or> 2 ^ k < 2 * r"
proof -
  have "GOC_DICT_MIN_CAP = 2 ^ 3" by (simp add: GOC_DICT_MIN_CAP_def)
  with round_cap_loop_pow [OF assms, of 3] that show ?thesis
    by (auto simp: goc_dict_round_cap_def)
qed

lemma round_cap_pow: "\<lbrakk>3 \<le> k; k \<le> 63\<rbrakk> \<Longrightarrow> goc_dict_round_cap (2 ^ k) = Some (2 ^ k)"
proof -
  assume k: "3 \<le> k" "k \<le> 63"
  have "(2::nat) ^ k \<le> 2 ^ 63" using k(2) by (rule power_increasing) simp
  then obtain j where j: "3 \<le> j" "goc_dict_round_cap (2 ^ k) = Some (2 ^ j)" "(2::nat) ^ k \<le> 2 ^ j"
    "j = 3 \<or> (2::nat) ^ j < 2 * 2 ^ k"
    by (rule round_cap_ok) blast
  have "k \<le> j" using j(3) by (simp add: power_increasing_iff)
  moreover have "j \<le> k"
  proof (cases "j = 3")
    case False
    then have "(2::nat) ^ j < 2 ^ Suc k" using j(4) by simp
    then have "j < Suc k" by (simp only: power_strict_increasing_iff)
    then show ?thesis by simp
  qed (use k in simp)
  ultimately show ?thesis using j(2) by simp
qed

text \<open>A doubled capacity of zero is never reached from below, so the loop has no exit.\<close>

lemma round_cap_loop_zero: "0 < r \<Longrightarrow> round_cap_loop 0 r = None"
proof -
  assume r: "0 < r"
  have "\<not> (c = 0 \<and> 0 < q)" if "round_cap_loop c q = Some y" for c q y
  proof (rule round_cap_loop.raw_induct [where P = "\<lambda>c q y. \<not> (c = 0 \<and> 0 < q)", OF _ that])
    fix f :: "nat \<Rightarrow> nat \<Rightarrow> nat option" and c q y
    assume IH: "\<And>c q y. f c q = Some y \<Longrightarrow> \<not> (c = 0 \<and> 0 < q)"
      and body: "(if c < q then f (size_mul c 2) q else Some c) = Some y"
    show "\<not> (c = 0 \<and> 0 < q)"
    proof
      assume c: "c = 0 \<and> 0 < q"
      then have "f 0 q = Some y" using body by (simp add: size_mul_def)
      from IH [OF this] c show False by simp
    qed
  qed
  with r show ?thesis by (cases "round_cap_loop 0 r") auto
qed

lemma round_cap_loop_diverges:
  assumes "2 ^ 63 < r" "k \<le> 63"
  shows "round_cap_loop (2 ^ k) r = None"
  using assms(2)
proof (induction "63 - k" arbitrary: k)
  case 0
  then have "k = 63" by simp
  moreover have "size_mul (2 ^ 63) 2 = 0" by (simp add: size_mul_def)
  ultimately show ?case
    using assms(1) round_cap_loop_zero [of r] by (subst round_cap_loop.simps) simp
next
  case (Suc n)
  have k: "Suc k \<le> 63" "n = 63 - Suc k" using Suc.hyps(2) by simp_all
  have le: "(2::nat) ^ Suc k \<le> 2 ^ 63" using k(1) by (rule power_increasing) simp
  then have mul: "size_mul (2 ^ k) 2 = 2 ^ Suc k" by (subst size_mul_eq) auto
  have "2 ^ k < r" using le assms(1) by simp
  then show ?case using Suc.hyps(1) [OF k(2) k(1)] mul by (subst round_cap_loop.simps) simp
qed

lemma round_cap_diverges: "2 ^ 63 < r \<Longrightarrow> goc_dict_round_cap r = None"
  using round_cap_loop_diverges [of r 3]
  by (simp add: goc_dict_round_cap_def GOC_DICT_MIN_CAP_def)

section \<open>Well-formed tables\<close>

definition live :: "ptr \<Rightarrow> bool" where
  "live p \<longleftrightarrow> p \<noteq> NULL \<and> p \<noteq> GOC_DICT_TOMBSTONE"

text \<open>Slot \<open>i\<close> is found from the start \<open>s\<close> before any empty slot.\<close>

definition reach :: "ptr list \<Rightarrow> nat \<Rightarrow> nat \<Rightarrow> nat \<Rightarrow> bool" where
  "reach tk cap s i \<longleftrightarrow> (\<exists>d < cap. i = (s + d) mod cap \<and> (\<forall>j < d. tk ! ((s + j) mod cap) \<noteq> NULL))"

definition table_ok :: "(ptr \<Rightarrow> string) \<Rightarrow> nat \<Rightarrow> ptr list \<Rightarrow> bool" where
  "table_ok mem cap tk \<longleftrightarrow>
     (\<exists>k. 3 \<le> k \<and> k \<le> 60 \<and> cap = 2 ^ k) \<and> length tk = cap
     \<and> (\<forall>i < cap. live (tk ! i) \<longrightarrow> reach tk cap (goc_dict_hash (mem (tk ! i)) cap) i)
     \<and> (\<forall>i < cap. \<forall>j < cap. live (tk ! i) \<longrightarrow> live (tk ! j) \<longrightarrow> mem (tk ! i) = mem (tk ! j) \<longrightarrow> i = j)"

definition has_null :: "ptr list \<Rightarrow> bool" where
  "has_null tk \<longleftrightarrow> (\<exists>i < length tk. tk ! i = NULL)"

lemma hash_less:
  assumes "cap = 2 ^ k" "k \<le> 60"
  shows "goc_dict_hash key cap < cap"
proof -
  define w where "w = fold fnv_step key 1469598103934665603"
  have m: "(of_nat cap :: 64 word) - 1 = mask k"
    using assms(1) by (simp add: mask_eq_exp_minus_1)
  have "w AND mask k = take_bit k w" by (simp add: take_bit_eq_mask)
  moreover have "unat (take_bit k w) < 2 ^ k"
    by (simp add: unsigned_take_bit_eq)
  ultimately show ?thesis unfolding goc_dict_hash_def w_def [symmetric] m using assms(1) by simp
qed

lemma next_slot_mod:
  assumes "cap = 2 ^ k" "k \<le> 60" "idx < cap"
  shows "next_slot cap idx = (idx + 1) mod cap"
proof -
  have "(2::nat) ^ k \<le> 2 ^ 60" using assms(2) by (rule power_increasing) simp
  then have "size_add idx 1 = idx + 1" "size_sub cap 1 = 2 ^ k - 1"
    using assms by (simp_all add: size_arith)
  then show ?thesis using assms(1) by (simp only: next_slot_def and_mask_mod)
qed

lemma mod_step: "((s + j) mod cap + 1) mod cap = (s + Suc j) mod (cap :: nat)"
  by (simp add: mod_simps)

lemma offset_ex:
  assumes "s < cap" "i < (cap :: nat)"
  obtains d where "d < cap" "i = (s + d) mod cap"
proof (cases "s \<le> i")
  case True
  then show ?thesis using assms that [of "i - s"] by simp
next
  case False
  have "(s + (cap - s + i)) mod cap = i" using assms by simp
  then show ?thesis using assms False that [of "cap - s + i"] by simp
qed

lemma first_null:
  assumes "has_null tk" "length tk = cap" "s < cap"
  obtains N where "N < cap" "tk ! ((s + N) mod cap) = NULL" "\<forall>j < N. tk ! ((s + j) mod cap) \<noteq> NULL"
proof -
  obtain i where "i < cap" "tk ! i = NULL" using assms by (auto simp: has_null_def)
  then obtain d where d: "d < cap" "tk ! ((s + d) mod cap) = NULL"
    using offset_ex [OF assms(3)] by metis
  define N where "N = (LEAST d. tk ! ((s + d) mod cap) = NULL)"
  have "tk ! ((s + N) mod cap) = NULL" unfolding N_def by (rule LeastI) (rule d(2))
  moreover have "N \<le> d" unfolding N_def by (rule Least_le) (rule d(2))
  moreover have "\<forall>j < N. tk ! ((s + j) mod cap) \<noteq> NULL" unfolding N_def using not_less_Least by blast
  ultimately show ?thesis using d(1) that [of N] by simp
qed

abbreviation matches :: "(ptr \<Rightarrow> string) \<Rightarrow> string \<Rightarrow> ptr \<Rightarrow> bool" where
  "matches mem key p \<equiv> live p \<and> mem p = key"

text \<open>The probe loop from offset \<open>j\<close>, when the first empty slot is at offset \<open>N\<close>.\<close>

lemma probe_loop_ends:
  assumes cap: "cap = 2 ^ k" "k \<le> 60" "length tk = cap"
    and N: "tk ! ((s + N) mod cap) = NULL" "\<forall>j < N. tk ! ((s + j) mod cap) \<noteq> NULL"
    and j: "j \<le> N" "\<forall>j' < j. \<not> matches mem key (tk ! ((s + j') mod cap))"
    and ft: "ft = SIZE_MAX \<or> (\<exists>j' < j. ft = (s + j') mod cap \<and> tk ! ft = GOC_DICT_TOMBSTONE)"
  shows "\<exists>slot < cap. probe_loop mem tk cap key ((s + j) mod cap) ft = Some (Inr slot)
     \<and> (matches mem key (tk ! slot)
        \<or> (\<forall>j < N. \<not> matches mem key (tk ! ((s + j) mod cap))) \<and> \<not> live (tk ! slot)
          \<and> (\<exists>d \<le> N. slot = (s + d) mod cap))"
  using j ft
proof (induction "N - j" arbitrary: j ft)
  case 0
  then have "j = N" by simp
  have lt: "(s + N) mod cap < cap" using cap by simp
  show ?case
  proof (cases "ft = SIZE_MAX")
    case True
    have "probe_loop mem tk cap key ((s + j) mod cap) ft = Some (Inr ((s + N) mod cap))"
      using \<open>j = N\<close> N(1) True lt cap(3) by (subst probe_loop.simps) simp
    with lt N(1) 0 \<open>j = N\<close> show ?thesis
      by (intro exI [of _ "(s + N) mod cap"]) (auto simp: live_def)
  next
    case False
    then obtain j' where j': "j' < j" "ft = (s + j') mod cap" "tk ! ft = GOC_DICT_TOMBSTONE"
      using 0 by auto
    have "probe_loop mem tk cap key ((s + j) mod cap) ft = Some (Inr ft)"
      using \<open>j = N\<close> N(1) False lt cap(3) by (subst probe_loop.simps) simp
    moreover have "ft < cap" "\<not> live (tk ! ft)" "\<exists>d \<le> N. ft = (s + d) mod cap"
      using j' \<open>j = N\<close> cap(1) by (auto simp: live_def intro: less_imp_le)
    ultimately show ?thesis using 0(3) \<open>j = N\<close> by blast
  qed
next
  case (Suc n)
  let ?i = "(s + j) mod cap"
  have lt: "?i < cap" using cap by simp
  have jN: "j < N" using Suc.hyps(2) by simp
  have nn: "tk ! ?i \<noteq> NULL" using N(2) jN by blast
  have nx: "next_slot cap ?i = (s + Suc j) mod cap"
    using next_slot_mod [OF cap(1,2) lt] mod_step [of s j cap] by simp
  show ?case
  proof (cases "matches mem key (tk ! ?i)")
    case True
    then have "probe_loop mem tk cap key ?i ft = Some (Inr ?i)"
      using lt cap(3) by (subst probe_loop.simps) (simp add: live_def Let_def)
    with True lt show ?thesis by blast
  next
    case False
    define ft' where "ft' = (if tk ! ?i = GOC_DICT_TOMBSTONE \<and> ft = SIZE_MAX then ?i else ft)"
    have "probe_loop mem tk cap key ?i ft = probe_loop mem tk cap key ((s + Suc j) mod cap) ft'"
      using lt cap(3) nn False nx
      by (subst probe_loop.simps) (auto simp: live_def Let_def ft'_def)
    moreover have "\<forall>j' < Suc j. \<not> matches mem key (tk ! ((s + j') mod cap))"
      using Suc.prems(2) False by (auto simp: less_Suc_eq)
    moreover have "ft' = SIZE_MAX \<or> (\<exists>j' < Suc j. ft' = (s + j') mod cap \<and> tk ! ft' = GOC_DICT_TOMBSTONE)"
      using Suc.prems(3) by (auto simp: ft'_def less_Suc_eq)
    ultimately show ?thesis using Suc.hyps(1) [of "Suc j" ft'] Suc.hyps(2) jN by simp
  qed
qed

text \<open>
  Probing a well-formed table with an empty slot ends. It ends at the slot of the key when the
  key is there, and otherwise at a slot that can take the key.
\<close>

lemma probe_ok:
  assumes ok: "table_ok mem cap tk" "has_null tk"
  obtains slot where "slot < cap" "probe_table mem tk cap key = Some (Inr slot)"
    "\<And>i. \<lbrakk>i < cap; matches mem key (tk ! i)\<rbrakk> \<Longrightarrow> slot = i"
    "\<not> (\<exists>i < cap. matches mem key (tk ! i)) \<Longrightarrow>
       \<not> live (tk ! slot) \<and> reach tk cap (goc_dict_hash key cap) slot"
proof -
  obtain k where cap: "cap = 2 ^ k" "k \<le> 60" "length tk = cap"
    using ok(1) by (auto simp: table_ok_def)
  define s where "s = goc_dict_hash key cap"
  have s: "s < cap" using hash_less cap by (simp add: s_def)
  obtain N where N: "N < cap" "tk ! ((s + N) mod cap) = NULL" "\<forall>j < N. tk ! ((s + j) mod cap) \<noteq> NULL"
    by (rule first_null [OF ok(2) cap(3) s])
  obtain slot where slot: "slot < cap" "probe_loop mem tk cap key ((s + 0) mod cap) SIZE_MAX = Some (Inr slot)"
    and or: "matches mem key (tk ! slot)
        \<or> (\<forall>j < N. \<not> matches mem key (tk ! ((s + j) mod cap))) \<and> \<not> live (tk ! slot)
          \<and> (\<exists>d \<le> N. slot = (s + d) mod cap)"
    using probe_loop_ends [OF cap N(2,3), of 0 mem key SIZE_MAX] by auto
  have pr: "probe_table mem tk cap key = Some (Inr slot)"
    using slot(2) s by (simp add: probe_table_def s_def)
  have uniq: "slot = i" if i: "i < cap" "matches mem key (tk ! i)" for i
  proof -
    have "reach tk cap s i" using ok(1) i by (auto simp: table_ok_def s_def)
    then obtain d where d: "d < cap" "i = (s + d) mod cap" "\<forall>j < d. tk ! ((s + j) mod cap) \<noteq> NULL"
      by (auto simp: reach_def)
    have "d < N"
    proof (rule ccontr)
      assume "\<not> d < N"
      then have "d = N" using d(3) N(2) by (metis linorder_neqE_nat)
      with d(2) N(2) i(2) show False by (simp add: live_def)
    qed
    with or d(2) i(2) have "matches mem key (tk ! slot)" by blast
    with ok(1) i slot(1) show ?thesis by (auto simp: table_ok_def)
  qed
  have free: "\<not> live (tk ! slot) \<and> reach tk cap s slot"
    if "\<not> (\<exists>i < cap. matches mem key (tk ! i))"
  proof -
    have "\<not> matches mem key (tk ! slot)" using that slot(1) by blast
    with or obtain d where "d \<le> N" "slot = (s + d) mod cap" "\<not> live (tk ! slot)" by metis
    moreover then have "d < cap" "\<forall>j < d. tk ! ((s + j) mod cap) \<noteq> NULL" using N(1,3) by simp_all
    ultimately show ?thesis unfolding reach_def by blast
  qed
  show ?thesis by (rule that [OF slot(1) pr uniq free [unfolded s_def]])
qed

section \<open>Changing a table\<close>

text \<open>\<open>occ\<close> counts the slots that are not empty, as the field \<open>occupied\<close> does.\<close>

definition occ :: "ptr list \<Rightarrow> nat" where
  "occ tk = length (filter (\<lambda>p. p \<noteq> NULL) tk)"

definition pairs :: "ptr list \<Rightarrow> ptr list \<Rightarrow> (ptr \<times> ptr) set" where
  "pairs tk tv = {(tk ! i, tv ! i) | i. i < length tk \<and> live (tk ! i)}"

lemma has_null_occ: "has_null tk \<longleftrightarrow> occ tk < length tk"
  by (simp add: has_null_def occ_def count_less)

lemma occ_fill: "\<lbrakk>i < length tk; tk ! i = NULL; p \<noteq> NULL\<rbrakk> \<Longrightarrow> occ (tk[i := p]) = Suc (occ tk)"
  using count_update [of i tk "\<lambda>p. p \<noteq> NULL" p] by (simp add: occ_def)

lemma occ_replace: "\<lbrakk>i < length tk; tk ! i \<noteq> NULL; p \<noteq> NULL\<rbrakk> \<Longrightarrow> occ (tk[i := p]) = occ tk"
  using count_update [of i tk "\<lambda>p. p \<noteq> NULL" p] by (simp add: occ_def)

lemma reach_mono:
  assumes "reach tk cap s i" "\<And>j. tk ! j \<noteq> NULL \<Longrightarrow> tk' ! j \<noteq> NULL"
  shows "reach tk' cap s i"
  using assms unfolding reach_def by blast

lemma update_nonnull: "\<lbrakk>p \<noteq> NULL; tk ! j \<noteq> NULL\<rbrakk> \<Longrightarrow> tk[i := p] ! j \<noteq> NULL"
  by (metis linorder_not_less list_update_beyond nth_list_update_eq nth_list_update_neq)

lemma table_insert:
  assumes ok: "table_ok mem cap tk" and slot: "slot < cap"
    and r: "reach tk cap (goc_dict_hash (mem p) cap) slot" and p: "live p"
    and new: "\<not> (\<exists>i < cap. matches mem (mem p) (tk ! i))"
  shows "table_ok mem cap (tk[slot := p])"
proof -
  have len: "length tk = cap" using ok by (simp add: table_ok_def)
  have pn: "p \<noteq> NULL" using p by (simp add: live_def)
  have "reach (tk[slot := p]) cap (goc_dict_hash (mem (tk[slot := p] ! i)) cap) i"
    if i: "i < cap" "live (tk[slot := p] ! i)" for i
  proof (cases "i = slot")
    case True
    then show ?thesis using reach_mono [OF r update_nonnull [OF pn]] len slot by simp
  next
    case False
    then have "reach tk cap (goc_dict_hash (mem (tk ! i)) cap) i"
      using ok i by (simp add: table_ok_def)
    from reach_mono [OF this update_nonnull [OF pn]] False show ?thesis by simp
  qed
  moreover have "i = j" if "i < cap" "j < cap" "live (tk[slot := p] ! i)" "live (tk[slot := p] ! j)"
    "mem (tk[slot := p] ! i) = mem (tk[slot := p] ! j)" for i j
    using that ok new len slot by (auto simp: table_ok_def nth_list_update split: if_splits)
  ultimately show ?thesis using ok len by (simp add: table_ok_def)
qed

lemma table_remove:
  assumes ok: "table_ok mem cap tk"
  shows "table_ok mem cap (tk[slot := GOC_DICT_TOMBSTONE])"
proof -
  have len: "length tk = cap" using ok by (simp add: table_ok_def)
  have tn: "GOC_DICT_TOMBSTONE \<noteq> NULL" by (simp add: GOC_DICT_TOMBSTONE_def)
  have dead: "\<not> live GOC_DICT_TOMBSTONE" by (simp add: live_def)
  have old: "i \<noteq> slot \<and> live (tk ! i)"
    if "i < cap" "live (tk[slot := GOC_DICT_TOMBSTONE] ! i)" for i
    using that len dead by (cases "i = slot") simp_all
  have "reach (tk[slot := GOC_DICT_TOMBSTONE]) cap
          (goc_dict_hash (mem (tk[slot := GOC_DICT_TOMBSTONE] ! i)) cap) i"
    if i: "i < cap" "live (tk[slot := GOC_DICT_TOMBSTONE] ! i)" for i
  proof -
    have "reach tk cap (goc_dict_hash (mem (tk ! i)) cap) i"
      using old [OF i] ok i(1) by (simp add: table_ok_def)
    from reach_mono [OF this update_nonnull [OF tn]] old [OF i] show ?thesis by simp
  qed
  moreover have "i = j" if "i < cap" "j < cap" "live (tk[slot := GOC_DICT_TOMBSTONE] ! i)"
    "live (tk[slot := GOC_DICT_TOMBSTONE] ! j)"
    "mem (tk[slot := GOC_DICT_TOMBSTONE] ! i) = mem (tk[slot := GOC_DICT_TOMBSTONE] ! j)" for i j
    using old [OF that(1,3)] old [OF that(2,4)] that ok by (auto simp: table_ok_def)
  ultimately show ?thesis using ok len by (simp add: table_ok_def)
qed

lemma pairs_insert:
  "\<lbrakk>slot < length tk; \<not> live (tk ! slot); live p; length tv = length tk\<rbrakk>
   \<Longrightarrow> pairs (tk[slot := p]) (tv[slot := v]) = insert (p, v) (pairs tk tv)"
  unfolding pairs_def by (auto simp: nth_list_update)

lemma pairs_remove:
  "\<lbrakk>slot < length tk; table_ok mem cap tk; live (tk ! slot); length tv = length tk\<rbrakk>
   \<Longrightarrow> pairs (tk[slot := GOC_DICT_TOMBSTONE]) (tv[slot := v]) = pairs tk tv - {(tk ! slot, tv ! slot)}"
  unfolding pairs_def table_ok_def
  by (auto simp: nth_list_update live_def split: if_splits)

lemma pairs_overwrite:
  "\<lbrakk>slot < length tk; table_ok mem cap tk; live (tk ! slot); length tv = length tk\<rbrakk>
   \<Longrightarrow> pairs tk (tv[slot := v]) = insert (tk ! slot, v) (pairs tk tv - {(tk ! slot, tv ! slot)})"
  unfolding pairs_def table_ok_def
  by (auto simp: nth_list_update split: if_splits)

lemma free_loop_ends:
  assumes cap: "cap = 2 ^ k" "k \<le> 60" "length nk = cap"
    and N: "nk ! ((s + N) mod cap) = NULL" "\<forall>j < N. nk ! ((s + j) mod cap) \<noteq> NULL" and j: "j \<le> N"
  shows "free_loop nk cap ((s + j) mod cap) = Some (Inr ((s + N) mod cap))"
  using j
proof (induction "N - j" arbitrary: j)
  case 0
  then have "j = N" by simp
  then show ?case using N(1) cap by (subst free_loop.simps) simp
next
  case (Suc n)
  have jN: "j < N" using Suc.hyps(2) by simp
  have lt: "(s + j) mod cap < cap" using cap by simp
  have "next_slot cap ((s + j) mod cap) = (s + Suc j) mod cap"
    using next_slot_mod [OF cap(1,2) lt] mod_step [of s j cap] by simp
  moreover have "nk ! ((s + j) mod cap) \<noteq> NULL" using N(2) jN by blast
  ultimately show ?case
    using Suc.hyps(1) [of "Suc j"] Suc.hyps(2) jN lt cap(3) by (subst free_loop.simps) simp
qed

lemma free_loop_ok:
  assumes "table_ok mem cap nk" "has_null nk" "s < cap"
  obtains dst where "dst < cap" "free_loop nk cap s = Some (Inr dst)" "nk ! dst = NULL"
    "reach nk cap s dst"
proof -
  obtain k where cap: "cap = 2 ^ k" "k \<le> 60" "length nk = cap"
    using assms(1) by (auto simp: table_ok_def)
  obtain N where N: "N < cap" "nk ! ((s + N) mod cap) = NULL" "\<forall>j < N. nk ! ((s + j) mod cap) \<noteq> NULL"
    by (rule first_null [OF assms(2) cap(3) assms(3)])
  have "free_loop nk cap s = Some (Inr ((s + N) mod cap))"
    using free_loop_ends [OF cap N(2,3), of 0] assms(3) by simp
  moreover have "reach nk cap s ((s + N) mod cap)" unfolding reach_def using N by blast
  ultimately show ?thesis using that [of "(s + N) mod cap"] N(2) cap by simp
qed

section \<open>Rehashing\<close>

definition lives :: "ptr list \<Rightarrow> nat" where
  "lives tk = length (filter live tk)"

lemma rehash_loop_ok:
  assumes old: "table_ok mem cap tk" "length tv = cap"
    and new: "table_ok mem ncap nk" "length nt = ncap"
    and "is": "distinct is" "set is \<subseteq> {..<cap}"
      "\<forall>i \<in> set is. live (tk ! i) \<longrightarrow> \<not> (\<exists>j < ncap. matches mem (mem (tk ! i)) (nk ! j))"
    and room: "occ nk + length (filter (\<lambda>i. live (tk ! i)) is) < ncap"
  shows "\<exists>nk' nt'. rehash_loop mem tk tv ncap is nk nt = Some (Inr (nk', nt'))
     \<and> table_ok mem ncap nk' \<and> length nt' = ncap
     \<and> occ nk' = occ nk + length (filter (\<lambda>i. live (tk ! i)) is)
     \<and> pairs nk' nt' = pairs nk nt \<union> {(tk ! i, tv ! i) | i. i \<in> set is \<and> live (tk ! i)}"
  using new "is" room
proof (induction "is" arbitrary: nk nt)
  case Nil
  then show ?case by auto
next
  case (Cons i "is")
  have len: "length tk = cap" "length nk = ncap" using old(1) Cons.prems(1) by (simp_all add: table_ok_def)
  have i: "i < cap" using Cons.prems(4) by simp
  show ?case
  proof (cases "live (tk ! i)")
    case False
    then have "tk ! i = NULL \<or> tk ! i = GOC_DICT_TOMBSTONE" by (auto simp: live_def)
    then have "rehash_loop mem tk tv ncap (i # is) nk nt = rehash_loop mem tk tv ncap is nk nt"
      using i len by auto
    moreover have "{(tk ! j, tv ! j) | j. j \<in> set (i # is) \<and> live (tk ! j)}
        = {(tk ! j, tv ! j) | j. j \<in> set is \<and> live (tk ! j)}" using False by auto
    ultimately show ?thesis using Cons.IH [of nk nt] Cons.prems False by simp
  next
    case True
    define p where "p = tk ! i"
    have "has_null nk" using Cons.prems(6) True len(2) by (simp add: has_null_occ)
    obtain k where "ncap = 2 ^ k" "k \<le> 60" using Cons.prems(1) by (auto simp: table_ok_def)
    then have "goc_dict_hash (mem p) ncap < ncap" by (rule hash_less)
    then obtain dst where d: "dst < ncap" "free_loop nk ncap (goc_dict_hash (mem p) ncap) = Some (Inr dst)"
      "nk ! dst = NULL" "reach nk ncap (goc_dict_hash (mem p) ncap) dst"
      by (rule free_loop_ok [OF Cons.prems(1) \<open>has_null nk\<close>])
    have pl: "live p" "p \<noteq> NULL" "p \<noteq> GOC_DICT_TOMBSTONE" using True by (auto simp: p_def live_def)
    have step: "rehash_loop mem tk tv ncap (i # is) nk nt
        = rehash_loop mem tk tv ncap is (nk[dst := p]) (nt[dst := tv ! i])"
      using i len old(2) d(1,2) pl Cons.prems(2) by (simp add: p_def [symmetric])
    have ok': "table_ok mem ncap (nk[dst := p])"
      by (rule table_insert [OF Cons.prems(1) d(1,4) pl(1)]) (use Cons.prems(5) True in \<open>simp add: p_def\<close>)
    have occ': "occ (nk[dst := p]) = Suc (occ nk)" using d(1,3) len(2) pl(2) by (simp add: occ_fill)
    have apart: "\<not> (\<exists>j < ncap. matches mem (mem (tk ! q)) (nk[dst := p] ! j))"
      if q: "q \<in> set is" "live (tk ! q)" for q
    proof
      assume "\<exists>j < ncap. matches mem (mem (tk ! q)) (nk[dst := p] ! j)"
      then obtain j where j: "j < ncap" "matches mem (mem (tk ! q)) (nk[dst := p] ! j)" by blast
      show False
      proof (cases "j = dst")
        case True
        then have "mem (tk ! i) = mem (tk ! q)" using j d(1) len(2) by (simp add: p_def)
        then have "i = q" using old(1) i q Cons.prems(4) \<open>live (tk ! i)\<close> by (auto simp: table_ok_def)
        with q(1) Cons.prems(3) show False by simp
      next
        case False
        then have "matches mem (mem (tk ! q)) (nk ! j)" using j(2) by simp
        with Cons.prems(5) q j(1) show False by auto
      qed
    qed
    obtain nk' nt' where r: "rehash_loop mem tk tv ncap is (nk[dst := p]) (nt[dst := tv ! i]) = Some (Inr (nk', nt'))"
      "table_ok mem ncap nk'" "length nt' = ncap"
      "occ nk' = occ (nk[dst := p]) + length (filter (\<lambda>i. live (tk ! i)) is)"
      "pairs nk' nt' = pairs (nk[dst := p]) (nt[dst := tv ! i]) \<union> {(tk ! i, tv ! i) | i. i \<in> set is \<and> live (tk ! i)}"
      using Cons.IH [OF ok', of "nt[dst := tv ! i]"] Cons.prems occ' apart True by auto
    have "pairs (nk[dst := p]) (nt[dst := tv ! i]) = insert (p, tv ! i) (pairs nk nt)"
      using d len(2) pl Cons.prems(2) by (intro pairs_insert) (auto simp: live_def)
    then have "pairs nk' nt' = pairs nk nt \<union> {(tk ! j, tv ! j) | j. j \<in> set (i # is) \<and> live (tk ! j)}"
      using r(5) True by (auto simp: p_def)
    with r occ' step True show ?thesis by simp
  qed
qed

lemma lives_upt: "length (filter (\<lambda>i. live (tk ! i)) [0..<length tk]) = lives tk"
proof -
  have "map ((!) tk) [0..<length tk] = tk" by (rule map_nth)
  then have "filter live tk = map ((!) tk) (filter (live \<circ> (!) tk) [0..<length tk])"
    by (metis filter_map)
  then show ?thesis by (simp add: lives_def comp_def)
qed

lemma table_ok_empty:
  "\<lbrakk>3 \<le> k; k \<le> 60\<rbrakk> \<Longrightarrow> table_ok mem (2 ^ k) (replicate (2 ^ k) NULL)"
  by (auto simp: table_ok_def live_def)

lemma occ_empty [simp]: "occ (replicate n NULL) = 0"
  by (simp add: occ_def)

lemma pairs_empty [simp]: "pairs (replicate n NULL) tv = {}"
  by (auto simp: pairs_def live_def)

text \<open>Rehashing into a larger empty table keeps every live key with its value.\<close>

lemma rehash_all_ok:
  assumes old: "table_ok mem cap tk" "length tv = cap"
    and k: "3 \<le> k" "k \<le> 60" "lives tk < 2 ^ k"
  obtains nk nt where
    "rehash_loop mem tk tv (2 ^ k) [0..<cap] (replicate (2 ^ k) NULL) (replicate (2 ^ k) NULL)
       = Some (Inr (nk, nt))"
    "table_ok mem (2 ^ k) nk" "length nt = 2 ^ k" "occ nk = lives tk" "pairs nk nt = pairs tk tv"
proof -
  let ?e = "replicate (2 ^ k) NULL :: ptr list"
  have len: "length tk = cap" using old(1) by (simp add: table_ok_def)
  have cnt: "length (filter (\<lambda>i. live (tk ! i)) [0..<cap]) = lives tk" using lives_upt [of tk] len by simp
  have free: "\<forall>i \<in> set [0..<cap]. live (tk ! i) \<longrightarrow> \<not> (\<exists>j < 2 ^ k. matches mem (mem (tk ! i)) (?e ! j))"
    by (auto simp: live_def)
  obtain nk nt where r: "rehash_loop mem tk tv (2 ^ k) [0..<cap] ?e ?e = Some (Inr (nk, nt))"
    "table_ok mem (2 ^ k) nk" "length nt = 2 ^ k" "occ nk = occ ?e + lives tk"
    "pairs nk nt = pairs ?e ?e \<union> {(tk ! i, tv ! i) | i. i \<in> set [0..<cap] \<and> live (tk ! i)}"
    using rehash_loop_ok [OF old table_ok_empty [OF k(1,2)] length_replicate [of _ NULL] distinct_upt _ free]
      cnt k(3) by (auto simp: atLeast0LessThan)
  have "pairs nk nt = {(tk ! i, tv ! i) | i. i < cap \<and> live (tk ! i)}" using r(5) by simp
  then have "pairs nk nt = pairs tk tv" using len by (simp add: pairs_def)
  with r that show ?thesis by simp
qed

end
