(* ===== verification/Goc_Refine.thy ===== *)
theory Goc_Refine
  imports Goc_Prelude
begin

text \<open>
  What it means that a component implements its specification: the contract between one
  operation of the implementation and one operation on the abstract value, and what follows for
  every sequence of operations. The containers and the timer heap are instances.
\<close>

text \<open>A sequence of operations; the first one without a result stops the run.\<close>

fun spec_run :: "('c \<Rightarrow> 'a \<Rightarrow> ('o \<times> 'a) option) \<Rightarrow> 'c list \<Rightarrow> 'a \<Rightarrow> ('o list \<times> 'a) option" where
  "spec_run spec [] x = Some ([], x)"
| "spec_run spec (c # cs) x =
     (case spec c x of
        None \<Rightarrow> None
      | Some (v, y) \<Rightarrow> map_option (\<lambda>(vs, z). (v # vs, z)) (spec_run spec cs y))"

fun impl_run :: "('c \<Rightarrow> 's \<Rightarrow> ('o \<times> 's) out) \<Rightarrow> 'c list \<Rightarrow> 's \<Rightarrow> ('o list \<times> 's) out" where
  "impl_run exec [] s = Some (Inr ([], s))"
| "impl_run exec (c # cs) s =
     obind (exec c s) (\<lambda>(v, s1). obind (impl_run exec cs s1) (\<lambda>(vs, s2). Some (Inr (v # vs, s2))))"

text \<open>
  \<open>able n s x\<close>: state \<open>s\<close> represents \<open>x\<close> and has room for \<open>n\<close> more operations (sizes stay in
  the range where \<open>size_t\<close> does not wrap); \<open>valid c\<close>: the caller may ask for \<open>c\<close>. An operation that the specification allows returns its
  result and keeps the representation; one that it does not allow aborts the process.
\<close>

lemma list_all_True [simp]: "list_all (\<lambda>_. True) xs"
  by (induction xs) simp_all

locale op_simulation =
  fixes able :: "nat \<Rightarrow> 's \<Rightarrow> 'a \<Rightarrow> bool"
    and exec :: "'c \<Rightarrow> 's \<Rightarrow> ('o \<times> 's) out"
    and spec :: "'c \<Rightarrow> 'a \<Rightarrow> ('o \<times> 'a) option"
    and valid :: "'c \<Rightarrow> bool"
  assumes exec_ok: "\<lbrakk>valid c; able (Suc n) s x; spec c x = Some (v, y)\<rbrakk>
                    \<Longrightarrow> \<exists>s'. exec c s = Some (Inr (v, s')) \<and> able n s' y"
    and exec_abort: "\<lbrakk>valid c; able n s x; spec c x = None\<rbrakk>
                    \<Longrightarrow> \<exists>msg. exec c s = Some (Inl (Abort msg))"
begin

lemma run_ok:
  "\<lbrakk>list_all valid cs; able (length cs + n) s x; spec_run spec cs x = Some (vs, y)\<rbrakk>
   \<Longrightarrow> \<exists>s'. impl_run exec cs s = Some (Inr (vs, s')) \<and> able n s' y"
proof (induction cs arbitrary: s x vs)
  case (Cons c cs)
  from Cons.prems(3) obtain v z ws where 1: "spec c x = Some (v, z)"
    "spec_run spec cs z = Some (ws, y)" "vs = v # ws"
    by (auto split: option.splits)
  obtain s1 where 2: "exec c s = Some (Inr (v, s1))" "able (length cs + n) s1 z"
    using exec_ok [OF _ _ 1(1), of "length cs + n"] Cons.prems(1,2) by auto
  obtain s2 where "impl_run exec cs s1 = Some (Inr (ws, s2))" "able n s2 y"
    using Cons.IH [OF _ 2(2) 1(2)] Cons.prems(1) by auto
  with 1 2 show ?case by simp
qed simp

lemma run_abort:
  "\<lbrakk>list_all valid cs; able (length cs) s x; spec_run spec cs x = None\<rbrakk> \<Longrightarrow> \<exists>msg. impl_run exec cs s = Some (Inl (Abort msg))"
proof (induction cs arbitrary: s x)
  case (Cons c cs)
  show ?case
  proof (cases "spec c x")
    case None
    with exec_abort [OF _ Cons.prems(2) None] Cons.prems(1) show ?thesis by auto
  next
    case (Some r)
    obtain v z where r: "r = (v, z)" by (cases r)
    obtain s1 where 2: "exec c s = Some (Inr (v, s1))" "able (length cs) s1 z"
      using exec_ok [OF _ _ Some [unfolded r], of "length cs"] Cons.prems(1,2) by auto
    have "spec_run spec cs z = None" using Cons.prems(3) Some r by simp
    from Cons.IH [OF _ 2(2) this] 2(1) Cons.prems(1) show ?thesis by auto
  qed
qed simp

end

end
