(* ===== verification/Goc_Array.thy ===== *)
theory Goc_Array
  imports Goc_Heap Goc_Refine
begin

text \<open>
  \<open>src/goc_array.c\<close>: the dynamic array with headroom at both ends. An array is a header (block,
  head, length, capacity) over a block of the heap; slices share the block of their parent, so
  the heap is threaded through every operation. Theorems: each operation against the list of
  live elements \<open>arr_list\<close>, the aborts, the aliasing of slices, and the two places where the
  code writes outside its block (\<open>goc_array_concat\<close>, \<open>goc_array_push_head\<close>).
\<close>

section \<open>State and operations\<close>

record goc_array =
  adata :: nat
  ahead :: nat
  alen :: nat
  acap :: nat

definition GOC_ARRAY_INIT_CAP :: nat where
  "GOC_ARRAY_INIT_CAP = 8"

text \<open>Four words: data, head, len, cap.\<close>

abbreviation sizeof_goc_array :: nat where
  "sizeof_goc_array \<equiv> 32"

definition array_grow :: "goc_array \<Rightarrow> bool \<Rightarrow> goc_heap \<Rightarrow> (goc_array \<times> goc_heap) res" where
  "array_grow a grow_for_head h =
     (let new_cap = (if acap a < GOC_ARRAY_INIT_CAP then GOC_ARRAY_INIT_CAP
                     else size_mul (acap a) 2) in
      rbind (goc_new_n new_cap h) (\<lambda>(new_data, h1).
      let slack = size_sub new_cap (alen a);
          new_head = (if grow_for_head then size_mul slack 3 div 4 else slack div 4) in
      rbind (if alen a > 0 then buf_copy new_data new_head (adata a) (ahead a) (alen a) h1
             else Inr h1) (\<lambda>h2.
      Inr (a\<lparr>adata := new_data, ahead := new_head, acap := new_cap\<rparr>, h2))))"

definition goc_array_make :: "nat \<Rightarrow> goc_heap \<Rightarrow> (goc_array \<times> goc_heap) res" where
  "goc_array_make initial_cap h =
     (let cap = (if initial_cap < GOC_ARRAY_INIT_CAP then GOC_ARRAY_INIT_CAP else initial_cap) in
      rbind (goc_malloc sizeof_goc_array h) (\<lambda>h0.
      rbind (goc_new_n cap h0) (\<lambda>(d, h1).
      Inr (\<lparr>adata = d, ahead = cap div 4, alen = 0, acap = cap\<rparr>, h1))))"

definition goc_array_from :: "nat \<Rightarrow> nat \<Rightarrow> goc_heap \<Rightarrow> (goc_array \<times> goc_heap) res" where
  "goc_array_from items n h =
     rbind (goc_malloc sizeof_goc_array h) (\<lambda>h1.
     Inr (\<lparr>adata = items, ahead = 0, alen = n, acap = n\<rparr>, h1))"

definition goc_array_copy :: "goc_array \<Rightarrow> goc_heap \<Rightarrow> (goc_array \<times> goc_heap) res" where
  "goc_array_copy a h =
     (if alen a = 0 then goc_array_make 0 h
      else rbind (goc_new_n (alen a) h) (\<lambda>(buf, h1).
           rbind (buf_copy buf 0 (adata a) (ahead a) (alen a) h1) (\<lambda>h2.
           goc_array_from buf (alen a) h2)))"

definition goc_array_len :: "goc_array \<Rightarrow> nat" where
  "goc_array_len a = alen a"

definition goc_array_get :: "goc_array \<Rightarrow> nat \<Rightarrow> goc_heap \<Rightarrow> ptr res" where
  "goc_array_get a i h =
     (if i \<ge> alen a then Inl (Abort ''goc_array_get: index out of bounds'')
      else buf_read (adata a) (size_add (ahead a) i) h)"

definition goc_array_set :: "goc_array \<Rightarrow> nat \<Rightarrow> ptr \<Rightarrow> goc_heap \<Rightarrow> goc_heap res" where
  "goc_array_set a i val h =
     (if i \<ge> alen a then Inl (Abort ''goc_array_set: index out of bounds'')
      else buf_write (adata a) (size_add (ahead a) i) val h)"

definition goc_array_push :: "goc_array \<Rightarrow> ptr \<Rightarrow> goc_heap \<Rightarrow> (goc_array \<times> goc_heap) res" where
  "goc_array_push a val h =
     rbind (if size_add (ahead a) (alen a) \<ge> acap a then array_grow a False h else Inr (a, h))
       (\<lambda>(a1, h1).
      rbind (buf_write (adata a1) (size_add (ahead a1) (alen a1)) val h1) (\<lambda>h2.
      Inr (a1\<lparr>alen := size_add (alen a1) 1\<rparr>, h2)))"

definition goc_array_pop :: "goc_array \<Rightarrow> goc_heap \<Rightarrow> (ptr \<times> goc_array) res" where
  "goc_array_pop a h =
     (if alen a = 0 then Inl (Abort ''goc_array_pop: array is empty'')
      else let n = size_sub (alen a) 1 in
           rbind (buf_read (adata a) (size_add (ahead a) n) h) (\<lambda>v. Inr (v, a\<lparr>alen := n\<rparr>)))"

definition goc_array_push_head :: "goc_array \<Rightarrow> ptr \<Rightarrow> goc_heap \<Rightarrow> (goc_array \<times> goc_heap) res" where
  "goc_array_push_head a val h =
     rbind (if ahead a = 0 then array_grow a True h else Inr (a, h)) (\<lambda>(a1, h1).
      let hd' = size_sub (ahead a1) 1 in
      rbind (buf_write (adata a1) hd' val h1) (\<lambda>h2.
      Inr (a1\<lparr>ahead := hd', alen := size_add (alen a1) 1\<rparr>, h2)))"

definition goc_array_pop_head :: "goc_array \<Rightarrow> goc_heap \<Rightarrow> (ptr \<times> goc_array) res" where
  "goc_array_pop_head a h =
     (if alen a = 0 then Inl (Abort ''goc_array_pop_head: array is empty'')
      else rbind (buf_read (adata a) (ahead a) h) (\<lambda>v.
           Inr (v, a\<lparr>ahead := size_add (ahead a) 1, alen := size_sub (alen a) 1\<rparr>)))"

definition goc_array_concat ::
  "goc_array \<Rightarrow> goc_array \<Rightarrow> goc_heap \<Rightarrow> (goc_array \<times> goc_heap) res" where
  "goc_array_concat a b h =
     (let total = size_add (alen a) (alen b) in
      rbind (goc_array_make total h) (\<lambda>(out, h1).
      rbind (if alen a > 0 then buf_copy (adata out) (ahead out) (adata a) (ahead a) (alen a) h1
             else Inr h1) (\<lambda>h2.
      rbind (if alen b > 0
             then buf_copy (adata out) (size_add (ahead out) (alen a)) (adata b) (ahead b) (alen b) h2
             else Inr h2) (\<lambda>h3.
      Inr (out\<lparr>alen := total\<rparr>, h3)))))"

definition goc_array_slice :: "goc_array \<Rightarrow> nat \<Rightarrow> nat \<Rightarrow> goc_heap \<Rightarrow> (goc_array \<times> goc_heap) res" where
  "goc_array_slice a start end h =
     (if start > end \<or> end > alen a then Inl (Abort ''goc_array_slice: invalid range'')
      else rbind (goc_malloc sizeof_goc_array h) (\<lambda>h1.
           Inr (\<lparr>adata = adata a, ahead = size_add (ahead a) start,
                 alen = size_sub end start, acap = acap a\<rparr>, h1)))"

text \<open>A pointer into a block: the block and the slot; \<open>None\<close> is \<open>NULL\<close>.\<close>

definition goc_array_to_c :: "goc_array \<Rightarrow> (nat \<times> nat) option" where
  "goc_array_to_c a = (if alen a = 0 then None else Some (adata a, ahead a))"

text \<open>\<open>_goc_array_of_boxed_impl\<close>: one element of \<open>elem_size\<close> bytes after the other.\<close>

fun array_push_boxed_all ::
  "goc_array \<Rightarrow> string list \<Rightarrow> nat \<Rightarrow> goc_boxed_type \<Rightarrow> goc_heap \<Rightarrow> (goc_array \<times> goc_heap) res"
where
  "array_push_boxed_all a [] sz ty h = Inr (a, h)"
| "array_push_boxed_all a (e # es) sz ty h =
     rbind (goc_box_impl e sz ty h) (\<lambda>(p, h1).
     rbind (goc_array_push a p h1) (\<lambda>(a2, h2).
     array_push_boxed_all a2 es sz ty h2))"

definition goc_array_of_boxed_impl ::
  "string list \<Rightarrow> nat \<Rightarrow> goc_boxed_type \<Rightarrow> goc_heap \<Rightarrow> (goc_array \<times> goc_heap) res" where
  "goc_array_of_boxed_impl elems elem_size ty h =
     rbind (goc_array_make (length elems) h) (\<lambda>(a, h1).
     array_push_boxed_all a elems elem_size ty h1)"

text \<open>
  The argument \<open>None\<close> is the null pointer; a C string is the bytes before the first \<open>NUL\<close>.
\<close>

definition c_str :: "string \<Rightarrow> string" where
  "c_str cs = takeWhile (\<lambda>c. c \<noteq> CHR 0x00) cs"

definition goc_array_from_str :: "string option \<Rightarrow> goc_heap \<Rightarrow> (goc_array \<times> goc_heap) res" where
  "goc_array_from_str s h =
     (case s of
        None \<Rightarrow> goc_array_make 0 h
      | Some cs \<Rightarrow>
          let n = length (c_str cs) in
          rbind (goc_array_make n h) (\<lambda>(a, h1).
          array_push_boxed_all a (map (\<lambda>c. [c]) (take n cs)) 1 GOC_BOXED_TYPE_BYTE h1))"

fun array_chars :: "goc_array \<Rightarrow> nat list \<Rightarrow> goc_heap \<Rightarrow> string res" where
  "array_chars a [] h = Inr []"
| "array_chars a (i # is) h =
     rbind (goc_array_get a i h) (\<lambda>p.
     rbind (goc_unbox_char p h) (\<lambda>c.
     rbind (array_chars a is h) (\<lambda>cs. Inr (c # cs))))"

definition goc_array_to_str :: "goc_array \<Rightarrow> goc_heap \<Rightarrow> (string \<times> goc_heap) res" where
  "goc_array_to_str a h =
     (let n = goc_array_len a in
      rbind (goc_malloc (size_add n 1) h) (\<lambda>h1.
      rbind (array_chars a [0..<n] h1) (\<lambda>buf. Inr (buf @ [CHR 0x00], h1))))"

section \<open>Invariant and abstraction\<close>

text \<open>
  The header describes a block of \<open>acap\<close> slots that holds the live segment. Capacities stay
  below \<open>2 ^ 61\<close> slots, the most that \<open>size_t\<close> bytes can address.
\<close>

definition arr_inv :: "goc_heap \<Rightarrow> goc_array \<Rightarrow> bool" where
  "arr_inv h a \<longleftrightarrow> (\<exists>xs. bufs h (adata a) = Some xs \<and> length xs = acap a)
     \<and> ahead a + alen a \<le> acap a \<and> acap a < 2 ^ 61"

definition arr_list :: "goc_heap \<Rightarrow> goc_array \<Rightarrow> ptr list" where
  "arr_list h a = take (alen a) (drop (ahead a) (the (bufs h (adata a))))"

text \<open>Every block that existed, except the ones of \<open>B\<close>, keeps its contents, and no box changes.\<close>

definition frame :: "nat set \<Rightarrow> goc_heap \<Rightarrow> goc_heap \<Rightarrow> bool" where
  "frame B h h' \<longleftrightarrow> (\<forall>b \<in> dom (bufs h) - B. bufs h' b = bufs h b) \<and> boxes h' = boxes h
     \<and> entries h' = entries h \<and> next_box h' = next_box h"

text \<open>The state the heap is in before and after every operation.\<close>

definition heap_good :: "goc_heap \<Rightarrow> bool" where
  "heap_good h \<longleftrightarrow> heap_ok h \<and> gc_serves h"

section \<open>Lemmas\<close>

lemma heap_goodD: "heap_good h \<Longrightarrow> heap_ok h" "heap_good h \<Longrightarrow> gc_serves h"
  by (simp_all add: heap_good_def)

lemma heap_good_simps [simp]:
  "heap_good empty_heap"
  "heap_good (h\<lparr>allocs := n\<rparr>) = heap_good h"
  "heap_good h \<Longrightarrow> heap_good (heap_new h m)"
  "\<lbrakk>heap_good h; bufs h b = Some xs\<rbrakk> \<Longrightarrow> heap_good (h\<lparr>bufs := (bufs h)(b \<mapsto> ys)\<rparr>)"
  by (simp_all add: heap_good_def)

lemma arr_invE:
  assumes "arr_inv h a"
  obtains xs where "bufs h (adata a) = Some xs" "length xs = acap a"
    "ahead a + alen a \<le> acap a" "acap a < 2 ^ 61"
  using assms by (auto simp: arr_inv_def)

lemma arr_list_eq:
  "bufs h (adata a) = Some xs \<Longrightarrow> arr_list h a = take (alen a) (drop (ahead a) xs)"
  by (simp add: arr_list_def)

lemma length_arr_list: "arr_inv h a \<Longrightarrow> length (arr_list h a) = alen a"
  by (auto simp: arr_inv_def arr_list_def)

lemma arr_list_nth:
  "\<lbrakk>arr_inv h a; i < alen a\<rbrakk> \<Longrightarrow> arr_list h a ! i = the (bufs h (adata a)) ! (ahead a + i)"
  by (auto simp: arr_inv_def arr_list_def)

lemma arr_inv_allocs [simp]:
  "arr_inv (h\<lparr>allocs := n\<rparr>) a = arr_inv h a" "arr_list (h\<lparr>allocs := n\<rparr>) a = arr_list h a"
  by (simp_all add: arr_inv_def arr_list_def)

lemma frame_refl [simp]: "frame B h h"
  by (simp add: frame_def)

lemma frame_allocs [simp]: "frame B h (h'\<lparr>allocs := n\<rparr>) = frame B h h'"
  by (simp add: frame_def)

text \<open>An array over a block outside the frame is untouched.\<close>

lemma frame_arr:
  assumes "frame B h h'" "arr_inv h a" "adata a \<notin> B"
  shows "arr_inv h' a" "arr_list h' a = arr_list h a"
proof -
  have "bufs h' (adata a) = bufs h (adata a)" using assms by (auto simp: frame_def arr_inv_def)
  then show "arr_inv h' a" "arr_list h' a = arr_list h a"
    using assms(2) by (simp_all add: arr_inv_def arr_list_def)
qed

subsection \<open>Growing\<close>

definition grown_cap :: "goc_array \<Rightarrow> nat" where
  "grown_cap a = (if acap a < 8 then 8 else 2 * acap a)"

lemma array_grow_ok:
  assumes h: "heap_good h" and inv: "arr_inv h a" and small: "acap a < 2 ^ 60"
  obtains h' a' where "array_grow a g h = Inr (a', h')" "heap_good h'" "arr_inv h' a'"
    "arr_list h' a' = arr_list h a" "frame {} h h'" "adata a' = next_buf h"
    "alen a' = alen a" "acap a' = grown_cap a"
    "ahead a' = (if g then (grown_cap a - alen a) * 3 div 4 else (grown_cap a - alen a) div 4)"
proof -
  obtain xs where xs: "bufs h (adata a) = Some xs" "length xs = acap a"
    "ahead a + alen a \<le> acap a" "acap a < 2 ^ 61" using inv by (rule arr_invE)
  define c where "c = grown_cap a"
  have c: "c < 2 ^ 61" "alen a < c" "(if acap a < GOC_ARRAY_INIT_CAP then GOC_ARRAY_INIT_CAP
      else size_mul (acap a) 2) = c"
    using small xs(3) by (auto simp: c_def grown_cap_def GOC_ARRAY_INIT_CAP_def size_arith)
  define s where "s = c - alen a"
  have s: "size_sub c (alen a) = s" "size_mul s 3 = s * 3"
    using c(1,2) by (simp_all add: s_def size_arith)
  define k where "k = (if g then s * 3 div 4 else s div 4)"
  have k: "k + alen a \<le> c" using c(2) by (auto simp: k_def s_def)
  have fresh: "adata a \<noteq> next_buf h" using xs(1) heap_ok_fresh [OF heap_goodD(1) [OF h]] by auto
  define h1 where "h1 = heap_new h c"
  define ys where "ys = splice (replicate c NULL) k (take (alen a) (drop (ahead a) xs))"
  define h' where "h' = h1\<lparr>bufs := (bufs h1)(next_buf h \<mapsto> ys)\<rparr>"
  define a' where "a' = a\<lparr>adata := next_buf h, ahead := k, acap := c\<rparr>"
  have copy: "(if alen a > 0 then buf_copy (next_buf h) k (adata a) (ahead a) (alen a) h1
               else Inr h1) = Inr h'"
  proof (cases "alen a = 0")
    case True
    then show ?thesis by (simp add: h'_def ys_def h1_def heap_new_def)
  next
    case False
    have "buf_copy (next_buf h) k (adata a) (ahead a) (alen a) h1 = Inr h'"
      unfolding h'_def ys_def
      by (rule buf_copy_eq) (use xs k c(1,2) fresh in \<open>auto simp: h1_def\<close>)
    with False show ?thesis by simp
  qed
  have "array_grow a g h = Inr (a', h')"
    unfolding array_grow_def Let_def c(3) goc_new_n_serves [OF heap_goodD(2) [OF h]]
      slots_eq [OF c(1)] h1_def [symmetric] rbind_simps prod.case s k_def [symmetric] copy
    by (simp add: a'_def)
  moreover have "heap_good h'" 
    unfolding h'_def by (rule heap_good_simps(4)) (use h in \<open>simp_all add: h1_def\<close>)
  moreover have "arr_inv h' a'"
    using xs k c(1) by (simp add: arr_inv_def h'_def a'_def ys_def)
  moreover have "arr_list h' a' = arr_list h a"
  proof -
    have "take (alen a) (drop k ys) = take (alen a) (drop (ahead a) xs)"
      using segment_splice_same [of k "take (alen a) (drop (ahead a) xs)" "replicate c 0"] xs k
      by (simp add: ys_def)
    then show ?thesis using xs by (simp add: arr_list_def h'_def a'_def)
  qed
  moreover have "frame {} h h'"
    using heap_ok_fresh [OF heap_goodD(1) [OF h]] by (auto simp: frame_def h'_def h1_def)
  ultimately show ?thesis
    by (intro that [of a' h']) (auto simp: a'_def k_def s_def c_def)
qed

subsection \<open>Operations on a well-formed array\<close>

text \<open>
  What an operation leaves behind: a good heap, a well-formed array that lists \<open>ys\<close>, and every
  block outside \<open>B\<close> as it was.
\<close>

definition arr_post :: "goc_heap \<Rightarrow> nat set \<Rightarrow> ptr list \<Rightarrow> goc_array \<times> goc_heap \<Rightarrow> bool" where
  "arr_post h B ys = (\<lambda>(a', h'). heap_good h' \<and> arr_inv h' a' \<and> arr_list h' a' = ys \<and> frame B h h')"

lemma arr_postI:
  "\<lbrakk>heap_good h'; arr_inv h' a'; arr_list h' a' = ys; frame B h h'\<rbrakk> \<Longrightarrow> arr_post h B ys (a', h')"
  by (simp add: arr_post_def)

lemma arr_write:
  assumes h: "heap_good h" and xs: "bufs h (adata a) = Some xs" "length xs = acap a'"
    and a': "adata a' = adata a" "ahead a' + alen a' \<le> acap a'" "acap a' < 2 ^ 61"
    and ys: "take (alen a') (drop (ahead a') (xs[i := v])) = ys"
  shows "arr_post h {adata a} ys (a', h\<lparr>bufs := (bufs h)(adata a \<mapsto> xs[i := v])\<rparr>)"
  using assms by (intro arr_postI) (auto simp: arr_inv_def arr_list_def frame_def)

lemma frame_fresh:
  "\<lbrakk>frame {} h h1; frame {b} h1 h2; bufs h b = None\<rbrakk> \<Longrightarrow> frame B h h2"
  unfolding frame_def by (metis (no_types, lifting) Diff_iff Diff_empty domIff singletonD)

lemma push_room:
  assumes h: "heap_good h" and inv: "arr_inv h a" and room: "ahead a + alen a < acap a"
  obtains h' where "goc_array_push a v h = Inr (a\<lparr>alen := Suc (alen a)\<rparr>, h')"
    "arr_post h {adata a} (arr_list h a @ [v]) (a\<lparr>alen := Suc (alen a)\<rparr>, h')"
proof -
  obtain xs where xs: "bufs h (adata a) = Some xs" "length xs = acap a"
    "ahead a + alen a \<le> acap a" "acap a < 2 ^ 61" using inv by (rule arr_invE)
  have idx: "size_add (ahead a) (alen a) = ahead a + alen a" "size_add (alen a) 1 = Suc (alen a)"
    using xs room by (simp_all add: size_arith)
  have "goc_array_push a v h = Inr (a\<lparr>alen := Suc (alen a)\<rparr>,
          h\<lparr>bufs := (bufs h)(adata a \<mapsto> xs[ahead a + alen a := v])\<rparr>)"
    unfolding goc_array_push_def idx using room xs by (simp add: buf_write_eq idx [unfolded One_nat_def])
  moreover have "arr_post h {adata a} (arr_list h a @ [v]) (a\<lparr>alen := Suc (alen a)\<rparr>,
          h\<lparr>bufs := (bufs h)(adata a \<mapsto> xs[ahead a + alen a := v])\<rparr>)"
    by (rule arr_write) (use h xs room in \<open>simp_all add: take_Suc_drop_update arr_list_eq\<close>)
  ultimately show ?thesis by (rule that)
qed

lemma push_head_room:
  assumes h: "heap_good h" and inv: "arr_inv h a" and room: "0 < ahead a"
  obtains h' where
    "goc_array_push_head a v h = Inr (a\<lparr>ahead := ahead a - 1, alen := Suc (alen a)\<rparr>, h')"
    "arr_post h {adata a} (v # arr_list h a) (a\<lparr>ahead := ahead a - 1, alen := Suc (alen a)\<rparr>, h')"
proof -
  obtain xs where xs: "bufs h (adata a) = Some xs" "length xs = acap a"
    "ahead a + alen a \<le> acap a" "acap a < 2 ^ 61" using inv by (rule arr_invE)
  have idx: "size_sub (ahead a) 1 = ahead a - 1" "size_add (alen a) 1 = Suc (alen a)"
    using xs room by (simp_all add: size_arith)
  have "goc_array_push_head a v h = Inr (a\<lparr>ahead := ahead a - 1, alen := Suc (alen a)\<rparr>,
          h\<lparr>bufs := (bufs h)(adata a \<mapsto> xs[ahead a - 1 := v])\<rparr>)"
    unfolding goc_array_push_head_def Let_def using room xs by (simp add: buf_write_eq idx [unfolded One_nat_def])
  moreover have "arr_post h {adata a} (v # arr_list h a) (a\<lparr>ahead := ahead a - 1, alen := Suc (alen a)\<rparr>,
          h\<lparr>bufs := (bufs h)(adata a \<mapsto> xs[ahead a - 1 := v])\<rparr>)"
    by (rule arr_write)
      (use h xs room in \<open>simp_all add: take_Suc_drop_update_head arr_list_eq\<close>)
  ultimately show ?thesis by (rule that)
qed

lemma push_grow:
  assumes "arr_inv h a" "\<not> ahead a + alen a < acap a"
    and "array_grow a False h = Inr (a1, h1)" "arr_inv h1 a1" "ahead a1 + alen a1 < acap a1"
  shows "goc_array_push a v h = goc_array_push a1 v h1"
proof -
  have "size_add (ahead a) (alen a) = ahead a + alen a" "size_add (ahead a1) (alen a1) = ahead a1 + alen a1"
    using assms(1,4) by (auto simp: arr_inv_def size_arith)
  then show ?thesis using assms(2,3,5) by (simp add: goc_array_push_def)
qed

lemma push_head_grow:
  assumes "ahead a = 0" "array_grow a True h = Inr (a1, h1)" "0 < ahead a1"
  shows "goc_array_push_head a v h = goc_array_push_head a1 v h1"
  using assms by (simp add: goc_array_push_head_def)

text \<open>Appending, whether or not the block has room at its end.\<close>

lemma push_ok:
  assumes h: "heap_good h" and inv: "arr_inv h a" and small: "acap a < 2 ^ 60"
  obtains a' h' where "goc_array_push a v h = Inr (a', h')"
    "arr_post h {adata a} (arr_list h a @ [v]) (a', h')"
    "a' = (if ahead a + alen a < acap a then a\<lparr>alen := Suc (alen a)\<rparr>
           else \<lparr>adata = next_buf h, ahead = (grown_cap a - alen a) div 4,
                 alen = Suc (alen a), acap = grown_cap a\<rparr>)"
proof (cases "ahead a + alen a < acap a")
  case True
  with push_room [OF h inv, of v] that show ?thesis by (metis (full_types))
next
  case False
  obtain h1 a1 where g: "array_grow a False h = Inr (a1, h1)" "heap_good h1" "arr_inv h1 a1"
    "arr_list h1 a1 = arr_list h a" "frame {} h h1" "adata a1 = next_buf h"
    "alen a1 = alen a" "acap a1 = grown_cap a" "ahead a1 = (grown_cap a - alen a) div 4"
    using array_grow_ok [OF h inv small, of False] by (metis (full_types))
  have lt: "alen a < grown_cap a" using inv by (auto simp: arr_inv_def grown_cap_def)
  then have room: "ahead a1 + alen a1 < acap a1" using g by simp
  obtain h' where p: "goc_array_push a1 v h1 = Inr (a1\<lparr>alen := Suc (alen a1)\<rparr>, h')"
    "arr_post h1 {adata a1} (arr_list h1 a1 @ [v]) (a1\<lparr>alen := Suc (alen a1)\<rparr>, h')"
    using push_room [OF g(2,3) room] .
  have "frame {adata a} h h'"
    using p(2) g(5) heap_ok_fresh [OF heap_goodD(1) [OF h]] g(6)
    by (auto simp: arr_post_def intro: frame_fresh)
  then have post: "arr_post h {adata a} (arr_list h a @ [v]) (a1\<lparr>alen := Suc (alen a1)\<rparr>, h')"
    using p(2) g(4) by (simp add: arr_post_def)
  have "a1\<lparr>alen := Suc (alen a1)\<rparr> = \<lparr>adata = next_buf h, ahead = (grown_cap a - alen a) div 4,
                 alen = Suc (alen a), acap = grown_cap a\<rparr>"
    using g by simp
  then show ?thesis
    using that [OF _ post] p(1) push_grow [OF inv False g(1,3) room] False by simp
qed

text \<open>
  Prepending. The side condition excludes the one header that growing does not help: seven
  elements in a block of exactly seven slots.
\<close>

lemma push_head_ok:
  assumes h: "heap_good h" and inv: "arr_inv h a" and small: "acap a < 2 ^ 60"
    and ne7: "\<not> (ahead a = 0 \<and> alen a = 7 \<and> acap a = 7)"
  obtains a' h' where "goc_array_push_head a v h = Inr (a', h')"
    "arr_post h {adata a} (v # arr_list h a) (a', h')"
    "a' = (if 0 < ahead a then a\<lparr>ahead := ahead a - 1, alen := Suc (alen a)\<rparr>
           else \<lparr>adata = next_buf h, ahead = (grown_cap a - alen a) * 3 div 4 - 1,
                 alen = Suc (alen a), acap = grown_cap a\<rparr>)"
proof (cases "0 < ahead a")
  case True
  with push_head_room [OF h inv, of v] that show ?thesis by (metis (full_types))
next
  case False
  obtain h1 a1 where g: "array_grow a True h = Inr (a1, h1)" "heap_good h1" "arr_inv h1 a1"
    "arr_list h1 a1 = arr_list h a" "frame {} h h1" "adata a1 = next_buf h"
    "alen a1 = alen a" "acap a1 = grown_cap a" "ahead a1 = (grown_cap a - alen a) * 3 div 4"
    using array_grow_ok [OF h inv small, of True] by (metis (full_types))
  have "2 \<le> grown_cap a - alen a" using inv ne7 False by (auto simp: arr_inv_def grown_cap_def)
  then have room: "0 < ahead a1" using g by simp
  obtain h' where p:
    "goc_array_push_head a1 v h1 = Inr (a1\<lparr>ahead := ahead a1 - 1, alen := Suc (alen a1)\<rparr>, h')"
    "arr_post h1 {adata a1} (v # arr_list h1 a1) (a1\<lparr>ahead := ahead a1 - 1, alen := Suc (alen a1)\<rparr>, h')"
    using push_head_room [OF g(2,3) room] .
  have "frame {adata a} h h'"
    using p(2) g(5) heap_ok_fresh [OF heap_goodD(1) [OF h]] g(6)
    by (auto simp: arr_post_def intro: frame_fresh)
  then have post: "arr_post h {adata a} (v # arr_list h a)
      (a1\<lparr>ahead := ahead a1 - 1, alen := Suc (alen a1)\<rparr>, h')"
    using p(2) g(4) by (simp add: arr_post_def)
  have "a1\<lparr>ahead := ahead a1 - 1, alen := Suc (alen a1)\<rparr> = \<lparr>adata = next_buf h,
      ahead = (grown_cap a - alen a) * 3 div 4 - 1, alen = Suc (alen a), acap = grown_cap a\<rparr>"
    using g by simp
  then show ?thesis
    using that [OF _ post] p(1) push_head_grow [OF _ g(1) room] False by simp
qed

lemma pop_ok:
  assumes inv: "arr_inv h a" and ne: "0 < alen a"
  shows "goc_array_pop a h = Inr (last (arr_list h a), a\<lparr>alen := alen a - 1\<rparr>)"
    and "arr_inv h (a\<lparr>alen := alen a - 1\<rparr>)"
    and "arr_list h (a\<lparr>alen := alen a - 1\<rparr>) = butlast (arr_list h a)"
proof -
  obtain xs where xs: "bufs h (adata a) = Some xs" "length xs = acap a"
    "ahead a + alen a \<le> acap a" "acap a < 2 ^ 61" using inv by (rule arr_invE)
  have idx: "size_sub (alen a) (Suc 0) = alen a - 1"
    "size_add (ahead a) (alen a - 1) = ahead a + (alen a - 1)"
    using xs ne by (simp_all add: size_arith)
  have "last (arr_list h a) = xs ! (ahead a + (alen a - 1))"
    using xs ne by (simp add: arr_list_eq last_conv_nth)
  then show "goc_array_pop a h = Inr (last (arr_list h a), a\<lparr>alen := alen a - 1\<rparr>)"
    using xs ne idx by (simp add: goc_array_pop_def Let_def buf_read_eq)
  show "arr_inv h (a\<lparr>alen := alen a - 1\<rparr>)" using xs by (simp add: arr_inv_def)
  show "arr_list h (a\<lparr>alen := alen a - 1\<rparr>) = butlast (arr_list h a)"
    using xs ne by (simp add: arr_list_eq butlast_take)
qed

lemma pop_head_ok:
  assumes inv: "arr_inv h a" and ne: "0 < alen a"
  shows "goc_array_pop_head a h
           = Inr (hd (arr_list h a), a\<lparr>ahead := Suc (ahead a), alen := alen a - 1\<rparr>)"
    and "arr_inv h (a\<lparr>ahead := Suc (ahead a), alen := alen a - 1\<rparr>)"
    and "arr_list h (a\<lparr>ahead := Suc (ahead a), alen := alen a - 1\<rparr>) = tl (arr_list h a)"
proof -
  obtain xs where xs: "bufs h (adata a) = Some xs" "length xs = acap a"
    "ahead a + alen a \<le> acap a" "acap a < 2 ^ 61" using inv by (rule arr_invE)
  have idx: "size_sub (alen a) (Suc 0) = alen a - 1" "size_add (ahead a) (Suc 0) = Suc (ahead a)"
    using xs ne by (simp_all add: size_arith)
  have "hd (arr_list h a) = xs ! ahead a"
    using xs ne by (simp add: arr_list_eq hd_drop_conv_nth)
  then show "goc_array_pop_head a h
           = Inr (hd (arr_list h a), a\<lparr>ahead := Suc (ahead a), alen := alen a - 1\<rparr>)"
    using xs ne idx by (simp add: goc_array_pop_head_def buf_read_eq)
  show "arr_inv h (a\<lparr>ahead := Suc (ahead a), alen := alen a - 1\<rparr>)"
    using xs ne by (simp add: arr_inv_def)
  show "arr_list h (a\<lparr>ahead := Suc (ahead a), alen := alen a - 1\<rparr>) = tl (arr_list h a)"
    using xs ne by (simp add: arr_list_eq tl_take tl_drop [symmetric] drop_Suc)
qed

lemma get_ok:
  assumes inv: "arr_inv h a" and i: "i < alen a"
  shows "goc_array_get a i h = Inr (arr_list h a ! i)"
proof -
  obtain xs where xs: "bufs h (adata a) = Some xs" "length xs = acap a"
    "ahead a + alen a \<le> acap a" "acap a < 2 ^ 61" using inv by (rule arr_invE)
  have "size_add (ahead a) i = ahead a + i" using xs i by (simp add: size_arith)
  then show ?thesis using xs i by (simp add: goc_array_get_def buf_read_eq arr_list_eq)
qed

lemma set_ok:
  assumes h: "heap_good h" and inv: "arr_inv h a" and i: "i < alen a"
  obtains h' where "goc_array_set a i v h = Inr h'"
    "arr_post h {adata a} ((arr_list h a)[i := v]) (a, h')"
    "bufs h' (adata a) = Some ((the (bufs h (adata a)))[ahead a + i := v])"
proof -
  obtain xs where xs: "bufs h (adata a) = Some xs" "length xs = acap a"
    "ahead a + alen a \<le> acap a" "acap a < 2 ^ 61" using inv by (rule arr_invE)
  have idx: "size_add (ahead a) i = ahead a + i" using xs i by (simp add: size_arith)
  have "goc_array_set a i v h = Inr (h\<lparr>bufs := (bufs h)(adata a \<mapsto> xs[ahead a + i := v])\<rparr>)"
    using xs i by (simp add: goc_array_set_def idx buf_write_eq)
  moreover have "arr_post h {adata a} ((arr_list h a)[i := v])
      (a, h\<lparr>bufs := (bufs h)(adata a \<mapsto> xs[ahead a + i := v])\<rparr>)"
    by (rule arr_write) (use h xs i in \<open>simp_all add: segment_update arr_list_eq\<close>)
  ultimately show ?thesis using that xs(1) by simp
qed

lemma make_ok:
  assumes h: "heap_good h" and c: "c < 2 ^ 61"
  obtains h' where
    "goc_array_make c h = Inr (\<lparr>adata = next_buf h, ahead = max 8 c div 4, alen = 0, acap = max 8 c\<rparr>, h')"
    "arr_post h {} [] (\<lparr>adata = next_buf h, ahead = max 8 c div 4, alen = 0, acap = max 8 c\<rparr>, h')"
    "next_buf h' = Suc (next_buf h)"
proof -
  define h' where "h' = heap_new (h\<lparr>allocs := Suc (allocs h)\<rparr>) (max 8 c)"
  have cap: "(if c < GOC_ARRAY_INIT_CAP then GOC_ARRAY_INIT_CAP else c) = max 8 c" "max 8 c < 2 ^ 61"
    using c by (auto simp: GOC_ARRAY_INIT_CAP_def)
  have "goc_array_make c h = Inr (\<lparr>adata = next_buf h, ahead = max 8 c div 4, alen = 0, acap = max 8 c\<rparr>, h')"
    unfolding goc_array_make_def Let_def cap(1)
    using heap_goodD(2) [OF h] slots_eq [OF cap(2)]
    by (simp add: goc_malloc_serves goc_new_n_serves h'_def)
  moreover have "arr_post h {} [] (\<lparr>adata = next_buf h, ahead = max 8 c div 4, alen = 0, acap = max 8 c\<rparr>, h')"
    using h cap(2) heap_ok_fresh [OF heap_goodD(1) [OF h]]
    by (intro arr_postI) (auto simp: h'_def arr_inv_def arr_list_def frame_def)
  ultimately show ?thesis by (rule that) (simp add: h'_def)
qed

lemma copy_ok:
  assumes h: "heap_good h" and inv: "arr_inv h a"
  obtains a' h' where "goc_array_copy a h = Inr (a', h')" "arr_post h {} (arr_list h a) (a', h')"
    "adata a' = next_buf h" "acap a' \<le> max 8 (alen a)"
proof (cases "alen a = 0")
  case True
  obtain h' where "goc_array_make 0 h = Inr (\<lparr>adata = next_buf h, ahead = max 8 0 div 4, alen = 0, acap = max 8 0\<rparr>, h')"
    "arr_post h {} [] (\<lparr>adata = next_buf h, ahead = max 8 0 div 4, alen = 0, acap = max 8 0\<rparr>, h')"
    using make_ok [OF h, of 0] by auto
  with True that show ?thesis by (simp add: goc_array_copy_def arr_list_def)
next
  case False
  obtain xs where xs: "bufs h (adata a) = Some xs" "length xs = acap a"
    "ahead a + alen a \<le> acap a" "acap a < 2 ^ 61" using inv by (rule arr_invE)
  define n where "n = alen a"
  have n: "n < 2 ^ 61" "ahead a + n \<le> acap a" using xs by (simp_all add: n_def)
  have fresh: "bufs h (next_buf h) = None" using heap_ok_fresh [OF heap_goodD(1) [OF h]] .
  then have neq: "adata a \<noteq> next_buf h" using xs(1) by auto
  define ys where "ys = splice (replicate n 0) 0 (take n (drop (ahead a) xs))"
  have ys: "ys = take n (drop (ahead a) xs)" using xs n by (simp add: ys_def splice_def)
  define h1 where "h1 = heap_new h n"
  define h2 where "h2 = h1\<lparr>bufs := (bufs h1)(next_buf h \<mapsto> ys)\<rparr>"
  have "buf_copy (next_buf h) 0 (adata a) (ahead a) n h1 = Inr h2"
    unfolding h2_def ys_def by (rule buf_copy_eq) (use xs n neq in \<open>simp_all add: h1_def\<close>)
  moreover have good: "heap_good h2"
    unfolding h2_def by (rule heap_good_simps(4)) (use h in \<open>simp_all add: h1_def\<close>)
  ultimately have "goc_array_copy a h =
      Inr (\<lparr>adata = next_buf h, ahead = 0, alen = n, acap = n\<rparr>, h2\<lparr>allocs := Suc (allocs h2)\<rparr>)"
    using False heap_goodD(2) [OF h] heap_goodD(2) [OF good] slots_eq [OF n(1)]
    by (simp add: goc_array_copy_def goc_new_n_serves goc_array_from_def goc_malloc_serves
                  n_def [symmetric] h1_def)
  moreover have "arr_post h {} (arr_list h a)
      (\<lparr>adata = next_buf h, ahead = 0, alen = n, acap = n\<rparr>, h2\<lparr>allocs := Suc (allocs h2)\<rparr>)"
    using good xs n fresh neq
    by (intro arr_postI) (auto simp: arr_inv_def arr_list_def frame_def h2_def h1_def ys n_def [symmetric])
  ultimately show ?thesis using that by (simp add: n_def)
qed

lemma slice_ok:
  assumes h: "heap_good h" and inv: "arr_inv h a" and r: "i \<le> j" "j \<le> alen a"
  shows "goc_array_slice a i j h = Inr (\<lparr>adata = adata a, ahead = ahead a + i, alen = j - i,
                                         acap = acap a\<rparr>, h\<lparr>allocs := Suc (allocs h)\<rparr>)"
    and "arr_inv h \<lparr>adata = adata a, ahead = ahead a + i, alen = j - i, acap = acap a\<rparr>"
    and "arr_list h \<lparr>adata = adata a, ahead = ahead a + i, alen = j - i, acap = acap a\<rparr>
           = take (j - i) (drop i (arr_list h a))"
proof -
  obtain xs where xs: "bufs h (adata a) = Some xs" "length xs = acap a"
    "ahead a + alen a \<le> acap a" "acap a < 2 ^ 61" using inv by (rule arr_invE)
  have "size_add (ahead a) i = ahead a + i" "size_sub j i = j - i"
    using xs r by (simp_all add: size_arith)
  then show "goc_array_slice a i j h = Inr (\<lparr>adata = adata a, ahead = ahead a + i, alen = j - i,
                                         acap = acap a\<rparr>, h\<lparr>allocs := Suc (allocs h)\<rparr>)"
    using r heap_goodD(2) [OF h] by (simp add: goc_array_slice_def goc_malloc_serves)
  show "arr_inv h \<lparr>adata = adata a, ahead = ahead a + i, alen = j - i, acap = acap a\<rparr>"
    using xs r by (simp add: arr_inv_def)
  show "arr_list h \<lparr>adata = adata a, ahead = ahead a + i, alen = j - i, acap = acap a\<rparr>
           = take (j - i) (drop i (arr_list h a))"
    using r by (simp add: arr_list_def drop_take add.commute min_def)
qed

section \<open>The sequence contract\<close>

text \<open>
  A client of the array sees a list that grows and shrinks at both ends and is read and written
  by index.
\<close>

datatype seq_op = Push ptr | Push_head ptr | Pop | Pop_head | Get nat | Put nat ptr

fun list_op :: "seq_op \<Rightarrow> ptr list \<Rightarrow> (ptr option \<times> ptr list) option" where
  "list_op (Push v) xs = Some (None, xs @ [v])"
| "list_op (Push_head v) xs = Some (None, v # xs)"
| "list_op Pop xs = (if xs = [] then None else Some (Some (last xs), butlast xs))"
| "list_op Pop_head xs = (if xs = [] then None else Some (Some (hd xs), tl xs))"
| "list_op (Get i) xs = (if i < length xs then Some (Some (xs ! i), xs) else None)"
| "list_op (Put i v) xs = (if i < length xs then Some (None, xs[i := v]) else None)"

text \<open>The array's operations under that contract.\<close>

fun array_exec :: "seq_op \<Rightarrow> goc_array \<times> goc_heap \<Rightarrow> (ptr option \<times> goc_array \<times> goc_heap) res" where
  "array_exec (Push v) (a, h) = rbind (goc_array_push a v h) (\<lambda>s. Inr (None, s))"
| "array_exec (Push_head v) (a, h) = rbind (goc_array_push_head a v h) (\<lambda>s. Inr (None, s))"
| "array_exec Pop (a, h) = rbind (goc_array_pop a h) (\<lambda>(v, a'). Inr (Some v, a', h))"
| "array_exec Pop_head (a, h) = rbind (goc_array_pop_head a h) (\<lambda>(v, a'). Inr (Some v, a', h))"
| "array_exec (Get i) (a, h) = rbind (goc_array_get a i h) (\<lambda>v. Inr (Some v, a, h))"
| "array_exec (Put i v) (a, h) = rbind (goc_array_set a i v h) (\<lambda>h'. Inr (None, a, h'))"

definition array_run ::
  "seq_op list \<Rightarrow> goc_array \<times> goc_heap \<Rightarrow> (ptr option list \<times> goc_array \<times> goc_heap) out" where
  "array_run = impl_run (\<lambda>c s. Some (array_exec c s))"

text \<open>
  The capacity's potential: the capacity, and eight times what the scarcer end lacks of an eighth
  of it. An insertion raises it by at most sixteen, growing included, so it bounds the capacity
  by the number of insertions.
\<close>

definition scarcer :: "goc_array \<Rightarrow> nat" where
  "scarcer a = min (ahead a) (acap a - ahead a - alen a)"

definition cap_pot :: "goc_array \<Rightarrow> nat" where
  "cap_pot a = acap a + 8 * (acap a div 8 - scarcer a)"

definition array_able :: "nat \<Rightarrow> goc_array \<times> goc_heap \<Rightarrow> bool" where
  "array_able n = (\<lambda>(a, h). heap_good h \<and> arr_inv h a \<and> 8 \<le> acap a \<and> cap_pot a + 16 * n < 2 ^ 60)"

lemma array_ableI:
  "\<lbrakk>arr_post h B ys (a', h'); 8 \<le> acap a'; cap_pot a' + 16 * n < 2 ^ 60\<rbrakk> \<Longrightarrow> array_able n (a', h')"
  by (simp add: array_able_def arr_post_def)

lemma cap_le_pot: "acap a \<le> cap_pot a"
  by (simp add: cap_pot_def)

lemma cap_pot_mono:
  "\<lbrakk>acap a' = acap a; scarcer a \<le> scarcer a' + k\<rbrakk> \<Longrightarrow> cap_pot a' \<le> cap_pot a + 8 * k"
  by (simp add: cap_pot_def)

lemma scarcer_pop: "scarcer a \<le> scarcer (a\<lparr>alen := alen a - 1\<rparr>)"
  by (auto simp: scarcer_def min_def)

lemma scarcer_pop_head:
  "0 < alen a \<Longrightarrow> scarcer a \<le> scarcer (a\<lparr>ahead := Suc (ahead a), alen := alen a - 1\<rparr>)"
  by (auto simp: scarcer_def min_def)

lemma cap_pot_push:
  assumes "arr_inv h a" "8 \<le> acap a"
  shows "ahead a + alen a < acap a \<Longrightarrow> cap_pot (a\<lparr>alen := Suc (alen a)\<rparr>) \<le> cap_pot a + 16"
    and "\<not> ahead a + alen a < acap a \<Longrightarrow>
         cap_pot \<lparr>adata = b, ahead = (grown_cap a - alen a) div 4, alen = Suc (alen a),
                  acap = grown_cap a\<rparr> \<le> cap_pot a + 16"
proof -
  have le: "ahead a + alen a \<le> acap a" using assms(1) by (simp add: arr_inv_def)
  show "ahead a + alen a < acap a \<Longrightarrow> cap_pot (a\<lparr>alen := Suc (alen a)\<rparr>) \<le> cap_pot a + 16"
    by (rule order_trans [OF cap_pot_mono [of _ a 1]]) (auto simp: scarcer_def min_def)
  assume "\<not> ahead a + alen a < acap a"
  then have full: "acap a - ahead a - alen a = 0" using le by simp
  define c l where "c = acap a" and "l = alen a"
  have l: "l \<le> c" "8 \<le> c" using le assms(2) by (simp_all add: l_def c_def)
  define k where "k = (2 * c - l) div 4"
  have "c div 4 \<le> k" using l by (simp add: k_def)
  moreover have "c div 4 \<le> 2 * c - k - l" using l by (simp add: k_def)
  ultimately have "2 * c div 8 \<le> Suc (min k (2 * c - k - Suc l))" by linarith
  then have "2 * c + 8 * (2 * c div 8 - min k (2 * c - k - Suc l)) \<le> c + 8 * (c div 8) + 16"
    by linarith
  then show "cap_pot \<lparr>adata = b, ahead = (grown_cap a - alen a) div 4, alen = Suc (alen a),
                  acap = grown_cap a\<rparr> \<le> cap_pot a + 16"
    using full l by (simp add: cap_pot_def scarcer_def grown_cap_def c_def [symmetric]
                       l_def [symmetric] k_def)
qed

lemma cap_pot_push_head:
  assumes "arr_inv h a" "8 \<le> acap a"
  shows "0 < ahead a \<Longrightarrow> cap_pot (a\<lparr>ahead := ahead a - 1, alen := Suc (alen a)\<rparr>) \<le> cap_pot a + 16"
    and "ahead a = 0 \<Longrightarrow>
         cap_pot \<lparr>adata = b, ahead = (grown_cap a - alen a) * 3 div 4 - 1, alen = Suc (alen a),
                  acap = grown_cap a\<rparr> \<le> cap_pot a + 16"
proof -
  have le: "ahead a + alen a \<le> acap a" using assms(1) by (simp add: arr_inv_def)
  show "0 < ahead a \<Longrightarrow> cap_pot (a\<lparr>ahead := ahead a - 1, alen := Suc (alen a)\<rparr>) \<le> cap_pot a + 16"
    by (rule order_trans [OF cap_pot_mono [of _ a 1]]) (auto simp: scarcer_def min_def)
  assume z: "ahead a = 0"
  define c l where "c = acap a" and "l = alen a"
  have l: "l \<le> c" "8 \<le> c" using le assms(2) by (simp_all add: l_def c_def)
  define k where "k = (2 * c - l) * 3 div 4"
  have "c div 4 \<le> k" using l by (simp add: k_def)
  moreover have "c div 4 \<le> 2 * c - k - l" using l by (simp add: k_def)
  ultimately have "2 * c div 8 \<le> Suc (min (k - 1) (2 * c - (k - 1) - Suc l))" by linarith
  then have "2 * c + 8 * (2 * c div 8 - min (k - 1) (2 * c - (k - 1) - Suc l))
      \<le> c + 8 * (c div 8) + 16"
    by linarith
  then show "cap_pot \<lparr>adata = b, ahead = (grown_cap a - alen a) * 3 div 4 - 1, alen = Suc (alen a),
                  acap = grown_cap a\<rparr> \<le> cap_pot a + 16"
    using z l by (simp add: cap_pot_def scarcer_def grown_cap_def c_def [symmetric]
                       l_def [symmetric] k_def)
qed

lemma array_able_push:
  assumes "array_able (Suc n) (a, h)"
  shows "\<exists>s'. goc_array_push a v h = Inr s' \<and> array_able n s'
           \<and> arr_list (snd s') (fst s') = arr_list h a @ [v]"
proof -
  have a: "heap_good h" "arr_inv h a" "8 \<le> acap a" "cap_pot a + 16 * Suc n < 2 ^ 60"
    using assms by (simp_all add: array_able_def)
  then have "acap a < 2 ^ 60" using cap_le_pot [of a] by linarith
  then obtain a' h' where p: "goc_array_push a v h = Inr (a', h')"
    "arr_post h {adata a} (arr_list h a @ [v]) (a', h')"
    "a' = (if ahead a + alen a < acap a then a\<lparr>alen := Suc (alen a)\<rparr>
           else \<lparr>adata = next_buf h, ahead = (grown_cap a - alen a) div 4,
                 alen = Suc (alen a), acap = grown_cap a\<rparr>)"
    using push_ok [OF a(1,2)] by metis
  have "8 \<le> acap a'" using a(3) p(3) by (auto simp: grown_cap_def)
  moreover have "cap_pot a' \<le> cap_pot a + 16" using cap_pot_push [OF a(2,3)] p(3) by metis
  ultimately have "array_able n (a', h')" using array_ableI [OF p(2)] a(4) by simp
  with p show ?thesis by (simp add: arr_post_def)
qed

lemma array_able_push_head:
  assumes "array_able (Suc n) (a, h)"
  shows "\<exists>s'. goc_array_push_head a v h = Inr s' \<and> array_able n s'
           \<and> arr_list (snd s') (fst s') = v # arr_list h a"
proof -
  have a: "heap_good h" "arr_inv h a" "8 \<le> acap a" "cap_pot a + 16 * Suc n < 2 ^ 60"
    using assms by (simp_all add: array_able_def)
  then have "acap a < 2 ^ 60" using cap_le_pot [of a] by linarith
  moreover have "\<not> (ahead a = 0 \<and> alen a = 7 \<and> acap a = 7)" using a(3) by simp
  ultimately obtain a' h' where p: "goc_array_push_head a v h = Inr (a', h')"
    "arr_post h {adata a} (v # arr_list h a) (a', h')"
    "a' = (if 0 < ahead a then a\<lparr>ahead := ahead a - 1, alen := Suc (alen a)\<rparr>
           else \<lparr>adata = next_buf h, ahead = (grown_cap a - alen a) * 3 div 4 - 1,
                 alen = Suc (alen a), acap = grown_cap a\<rparr>)"
    using push_head_ok [OF a(1,2)] by metis
  have "8 \<le> acap a'" using a(3) p(3) by (auto simp: grown_cap_def)
  moreover have "cap_pot a' \<le> cap_pot a + 16"
    using cap_pot_push_head [OF a(2,3)] p(3) by (metis not_gr_zero)
  ultimately have "array_able n (a', h')" using array_ableI [OF p(2)] a(4) by simp
  with p show ?thesis by (simp add: arr_post_def)
qed

lemma array_able_shrink:
  assumes "array_able (Suc n) (a, h)" "arr_inv h a'" "acap a' = acap a" "scarcer a \<le> scarcer a'"
  shows "array_able n (a', h)"
  using assms cap_pot_mono [of a' a 0] by (simp add: array_able_def)

lemma array_able_set:
  assumes "array_able (Suc n) (a, h)" "i < alen a"
  shows "\<exists>h'. goc_array_set a i v h = Inr h' \<and> array_able n (a, h')
           \<and> arr_list h' a = (arr_list h a)[i := v]"
proof -
  have a: "heap_good h" "arr_inv h a" "8 \<le> acap a" "cap_pot a + 16 * Suc n < 2 ^ 60"
    using assms by (simp_all add: array_able_def)
  obtain h' where p: "goc_array_set a i v h = Inr h'"
    "arr_post h {adata a} ((arr_list h a)[i := v]) (a, h')"
    using set_ok [OF a(1,2) assms(2)] by metis
  with a array_ableI [OF p(2), of n] show ?thesis by (simp add: arr_post_def)
qed

abbreviation arr_elems :: "goc_array \<times> goc_heap \<Rightarrow> ptr list" where
  "arr_elems \<equiv> \<lambda>(a, h). arr_list h a"

lemma array_exec_ok:
  assumes "array_able (Suc n) s" "list_op c (arr_elems s) = Some (out, ys)"
  shows "\<exists>s'. array_exec c s = Inr (out, s') \<and> array_able n s' \<and> arr_elems s' = ys"
proof -
  obtain a h where s: "s = (a, h)" by (cases s)
  have ab: "array_able (Suc n) (a, h)" and op: "list_op c (arr_list h a) = Some (out, ys)"
    using assms s by simp_all
  have inv: "arr_inv h a" and len: "length (arr_list h a) = alen a"
    using ab length_arr_list by (auto simp: array_able_def)
  have ne: "arr_list h a \<noteq> [] \<longleftrightarrow> 0 < alen a" using len by (metis length_greater_0_conv)
  show ?thesis
  proof (cases c)
    case (Push v)
    with array_able_push [OF ab, of v] op s show ?thesis by fastforce
  next
    case (Push_head v)
    with array_able_push_head [OF ab, of v] op s show ?thesis by fastforce
  next
    case Pop
    then have "0 < alen a" "out = Some (last (arr_list h a))" "ys = butlast (arr_list h a)"
      using op ne by (auto split: if_splits)
    with pop_ok [OF inv] array_able_shrink [OF ab, of "a\<lparr>alen := alen a - 1\<rparr>"] Pop s
    show ?thesis using scarcer_pop [of a] by simp
  next
    case Pop_head
    then have "0 < alen a" "out = Some (hd (arr_list h a))" "ys = tl (arr_list h a)"
      using op ne by (auto split: if_splits)
    with pop_head_ok [OF inv] Pop_head s
      array_able_shrink [OF ab, of "a\<lparr>ahead := Suc (ahead a), alen := alen a - 1\<rparr>"]
    show ?thesis using scarcer_pop_head [of a] by simp
  next
    case (Get i)
    then have "i < alen a" "out = Some (arr_list h a ! i)" "ys = arr_list h a"
      using op len by (auto split: if_splits)
    with get_ok [OF inv] array_able_shrink [OF ab inv] Get s show ?thesis by simp
  next
    case (Put i v)
    then have "i < alen a" "out = None" "ys = (arr_list h a)[i := v]"
      using op len by (auto split: if_splits)
    with array_able_set [OF ab, of i v] Put s show ?thesis by fastforce
  qed
qed

lemma array_exec_abort:
  assumes "array_able n s" "list_op c (arr_elems s) = None"
  shows "\<exists>msg. array_exec c s = Inl (Abort msg)"
proof -
  obtain a h where s: "s = (a, h)" by (cases s)
  have "length (arr_list h a) = alen a"
    using assms(1) s length_arr_list by (simp add: array_able_def)
  with assms(2) s show ?thesis
    by (cases c) (auto simp: goc_array_pop_def goc_array_pop_head_def goc_array_get_def
                             goc_array_set_def split: if_splits)
qed

interpretation arr: op_simulation
  "\<lambda>n s xs. array_able n s \<and> arr_elems s = xs" "\<lambda>c s. Some (array_exec c s)" list_op "\<lambda>_. True"
proof
  fix n s xs c v ys
  assume "array_able (Suc n) s \<and> arr_elems s = xs" "list_op c xs = Some (v, ys)"
  then show "\<exists>s'. Some (array_exec c s) = Some (Inr (v, s')) \<and> array_able n s' \<and> arr_elems s' = ys"
    using array_exec_ok [of n s c v ys] by blast
next
  fix n s xs c
  assume "array_able n s \<and> arr_elems s = xs" "list_op c xs = None"
  then show "\<exists>msg. Some (array_exec c s) = Some (Inl (Abort msg))"
    using array_exec_abort [of n s c] by blast
qed

text \<open>The slots an operation copies: all live ones when it moves the array to a new block.\<close>

definition moved :: "goc_array \<Rightarrow> goc_array \<Rightarrow> nat" where
  "moved a a' = (if adata a' = adata a then 0 else alen a)"

fun array_copied :: "seq_op list \<Rightarrow> goc_array \<times> goc_heap \<Rightarrow> nat" where
  "array_copied [] s = 0"
| "array_copied (c # cs) s =
     (case array_exec c s of Inl _ \<Rightarrow> 0 | Inr (_, s') \<Rightarrow> moved (fst s) (fst s') + array_copied cs s')"

lemma array_exec_cost:
  assumes ab: "array_able (Suc n) (a, h)" and ex: "array_exec c (a, h) = Inr (out, a', h')"
  shows "cap_pot a' \<le> cap_pot a + 16 \<and> moved a a' + acap a \<le> acap a'"
proof -
  have a: "heap_good h" "arr_inv h a" "8 \<le> acap a" "alen a \<le> acap a"
    using ab by (auto simp: array_able_def arr_inv_def)
  have small: "acap a < 2 ^ 60" using ab cap_le_pot [of a] by (simp add: array_able_def)
  show ?thesis
  proof (cases c)
    case (Push v)
    obtain a1 h1 where p: "goc_array_push a v h = Inr (a1, h1)"
      "a1 = (if ahead a + alen a < acap a then a\<lparr>alen := Suc (alen a)\<rparr>
             else \<lparr>adata = next_buf h, ahead = (grown_cap a - alen a) div 4,
                   alen = Suc (alen a), acap = grown_cap a\<rparr>)"
      using push_ok [OF a(1,2) small] by metis
    have "a' = a1" using ex Push p(1) by simp
    moreover have "cap_pot a1 \<le> cap_pot a + 16" using cap_pot_push [OF a(2,3)] p(2) by metis
    ultimately show ?thesis using p(2) a(3,4) by (auto simp: moved_def grown_cap_def)
  next
    case (Push_head v)
    obtain a1 h1 where p: "goc_array_push_head a v h = Inr (a1, h1)"
      "a1 = (if 0 < ahead a then a\<lparr>ahead := ahead a - 1, alen := Suc (alen a)\<rparr>
             else \<lparr>adata = next_buf h, ahead = (grown_cap a - alen a) * 3 div 4 - 1,
                   alen = Suc (alen a), acap = grown_cap a\<rparr>)"
      using push_head_ok [OF a(1,2) small] a(3) by (metis numeral_le_iff semiring_norm(69) semiring_norm(71) semiring_norm(72))
    have "a' = a1" using ex Push_head p(1) by simp
    moreover have "cap_pot a1 \<le> cap_pot a + 16"
      using cap_pot_push_head [OF a(2,3)] p(2) by (metis not_gr_zero)
    ultimately show ?thesis using p(2) a(3,4) by (auto simp: moved_def grown_cap_def)
  next
    case Pop
    then have "0 < alen a" using ex by (auto simp: goc_array_pop_def split: if_splits)
    with pop_ok(1) [OF a(2)] ex Pop have "a' = a\<lparr>alen := alen a - 1\<rparr>" by simp
    with cap_pot_mono [of a' a 0] scarcer_pop [of a] show ?thesis by (simp add: moved_def)
  next
    case Pop_head
    then have ne: "0 < alen a" using ex by (auto simp: goc_array_pop_head_def split: if_splits)
    with pop_head_ok(1) [OF a(2)] ex Pop_head
    have "a' = a\<lparr>ahead := Suc (ahead a), alen := alen a - 1\<rparr>" by simp
    with cap_pot_mono [of a' a 0] scarcer_pop_head [OF ne] show ?thesis by (simp add: moved_def)
  qed (use ex in \<open>auto simp: moved_def\<close>)
qed

lemma array_run_cost:
  "\<lbrakk>array_able (length cs) (a, h); array_run cs (a, h) = Some (Inr (out, a', h'))\<rbrakk>
   \<Longrightarrow> cap_pot a' \<le> cap_pot a + 16 * length cs
     \<and> array_copied cs (a, h) + acap a \<le> acap a'"
proof (induction cs arbitrary: a h out)
  case (Cons c cs)
  from Cons.prems(2) obtain o1 a1 h1 o2 where
    1: "array_exec c (a, h) = Inr (o1, a1, h1)" "array_run cs (a1, h1) = Some (Inr (o2, a', h'))"
    by (cases "array_exec c (a, h)") (auto simp: array_run_def obind_def split: option.splits sum.splits)
  have "list_op c (arr_list h a) \<noteq> None"
    using array_exec_abort [OF Cons.prems(1), of c] 1(1) by (metis Inl_Inr_False prod.case)
  then have "array_able (length cs) (a1, h1)"
    using array_exec_ok [of "length cs" "(a, h)" c] Cons.prems(1) 1(1) by fastforce
  from Cons.IH [OF this 1(2)] array_exec_cost [OF Cons.prems(1) [simplified] 1(1)] 1
  show ?case by simp
qed (simp add: array_run_def)

text \<open>
  Arrays that are only pushed to, of any capacity (a copy may have fewer than eight slots): the
  first growth of a small block gives eight slots.
\<close>

definition push_pot :: "goc_array \<Rightarrow> nat" where
  "push_pot a = (if acap a < 8 then 16 else cap_pot a)"

definition push_able :: "nat \<Rightarrow> goc_array \<times> goc_heap \<Rightarrow> bool" where
  "push_able n = (\<lambda>(a, h). heap_good h \<and> arr_inv h a \<and> push_pot a + 16 * n < 2 ^ 60)"

lemma push_able_push:
  assumes "push_able (Suc n) (a, h)"
  obtains a' h' where "goc_array_push a v h = Inr (a', h')" "push_able n (a', h')"
    "arr_list h' a' = arr_list h a @ [v]" "frame {adata a} h h'"
    "adata a' = adata a \<or> adata a' = next_buf h" "alen a' = Suc (alen a)"
proof -
  have a: "heap_good h" "arr_inv h a" "push_pot a + 16 * Suc n < 2 ^ 60"
    using assms by (simp_all add: push_able_def)
  have small: "acap a < 2 ^ 60"
    using a(3) cap_le_pot [of a] by (cases "acap a < 8") (auto simp: push_pot_def)
  obtain a' h' where p: "goc_array_push a v h = Inr (a', h')"
    "arr_post h {adata a} (arr_list h a @ [v]) (a', h')"
    "a' = (if ahead a + alen a < acap a then a\<lparr>alen := Suc (alen a)\<rparr>
           else \<lparr>adata = next_buf h, ahead = (grown_cap a - alen a) div 4,
                 alen = Suc (alen a), acap = grown_cap a\<rparr>)"
    by (rule push_ok [OF a(1,2) small])
  have "push_pot a' \<le> push_pot a + 16"
  proof (cases "acap a < 8")
    case True
    then show ?thesis using p(3) by (auto simp: push_pot_def cap_pot_def scarcer_def grown_cap_def)
  next
    case False
    then have "8 \<le> acap a" by simp
    from cap_pot_push [OF a(2) this] p(3) False show ?thesis
      by (auto simp: push_pot_def grown_cap_def)
  qed
  then have "push_able n (a', h')" using p(2) a(3) by (simp add: push_able_def arr_post_def)
  moreover have "adata a' = adata a \<or> adata a' = next_buf h" "alen a' = Suc (alen a)"
    using p(3) by auto
  ultimately show ?thesis using that p(1,2) by (simp add: arr_post_def)
qed

subsection \<open>Concatenation\<close>

lemma concat_made:
  assumes h: "heap_good h" and inv: "arr_inv h a" "arr_inv h b" and t: "alen a + alen b < 2 ^ 61"
  obtains h1 where "heap_good h1" "arr_inv h1 a" "arr_inv h1 b" "frame {} h h1"
    "arr_list h1 a = arr_list h a" "arr_list h1 b = arr_list h b"
    "bufs h1 (next_buf h) = Some (replicate (max 8 (alen a + alen b)) 0)"
    "adata a \<noteq> next_buf h" "adata b \<noteq> next_buf h"
    "goc_array_concat a b h =
       (let t = alen a + alen b; k = max 8 t div 4 in
        rbind (if alen a > 0 then buf_copy (next_buf h) k (adata a) (ahead a) (alen a) h1
               else Inr h1) (\<lambda>h2.
        rbind (if alen b > 0 then buf_copy (next_buf h) (k + alen a) (adata b) (ahead b) (alen b) h2
               else Inr h2) (\<lambda>h3.
        Inr (\<lparr>adata = next_buf h, ahead = k, alen = t, acap = max 8 t\<rparr>, h3))))"
proof -
  define t where "t = alen a + alen b"
  have t: "t < 2 ^ 61" "size_add (alen a) (alen b) = t" using t by (simp_all add: t_def size_arith)
  define h1 where "h1 = heap_new (h\<lparr>allocs := Suc (allocs h)\<rparr>) (max 8 t)"
  have cap: "(if t < GOC_ARRAY_INIT_CAP then GOC_ARRAY_INIT_CAP else t) = max 8 t" "max 8 t < 2 ^ 61"
    using t by (auto simp: GOC_ARRAY_INIT_CAP_def)
  have mk: "goc_array_make t h = Inr (\<lparr>adata = next_buf h, ahead = max 8 t div 4, alen = 0, acap = max 8 t\<rparr>, h1)"
    unfolding goc_array_make_def Let_def cap(1)
    using heap_goodD(2) [OF h] slots_eq [OF cap(2)]
    by (simp add: goc_malloc_serves goc_new_n_serves h1_def)
  have fresh: "bufs h (next_buf h) = None" using heap_ok_fresh [OF heap_goodD(1) [OF h]] .
  have fr: "frame {} h h1" using fresh by (auto simp: frame_def h1_def)
  have idx: "size_add (max 8 t div 4) (alen a) = max 8 t div 4 + alen a"
    using t cap(2) by (intro size_add_eq) (simp add: t_def max_def)
  have "goc_array_concat a b h =
       (let k = max 8 t div 4 in
        rbind (if alen a > 0 then buf_copy (next_buf h) k (adata a) (ahead a) (alen a) h1
               else Inr h1) (\<lambda>h2.
        rbind (if alen b > 0 then buf_copy (next_buf h) (k + alen a) (adata b) (ahead b) (alen b) h2
               else Inr h2) (\<lambda>h3.
        Inr (\<lparr>adata = next_buf h, ahead = k, alen = t, acap = max 8 t\<rparr>, h3))))"
    unfolding goc_array_concat_def Let_def t(2) mk by (simp only: rbind_simps prod.case goc_array.simps idx)
  moreover have "heap_good h1" using h by (simp add: h1_def)
  moreover have "adata a \<noteq> next_buf h" "adata b \<noteq> next_buf h"
    using inv fresh by (auto simp: arr_inv_def)
  ultimately show ?thesis
    using frame_arr [OF fr inv(1)] frame_arr [OF fr inv(2)] fr
    by (intro that [of h1]) (auto simp: Let_def t_def h1_def)
qed

lemma splice_append:
  assumes "off + length ys + length zs \<le> length xs"
  shows "splice (splice xs off ys) (off + length ys) zs = splice xs off (ys @ zs)"
  using assms by (simp add: splice_def ac_simps)

lemma concat_ok:
  assumes h: "heap_good h" and inv: "arr_inv h a" "arr_inv h b" and t: "alen a + alen b \<le> 6"
  shows "\<exists>a' h'. goc_array_concat a b h = Inr (a', h')
           \<and> arr_post h {} (arr_list h a @ arr_list h b) (a', h')"
proof -
  have t61: "alen a + alen b < 2 ^ 61" using t by simp
  obtain h1 where c: "heap_good h1" "arr_inv h1 a" "arr_inv h1 b" "frame {} h h1"
    "arr_list h1 a = arr_list h a" "arr_list h1 b = arr_list h b"
    "bufs h1 (next_buf h) = Some (replicate (max 8 (alen a + alen b)) 0)"
    "adata a \<noteq> next_buf h" "adata b \<noteq> next_buf h"
    and eq: "goc_array_concat a b h =
       (let t = alen a + alen b; k = max 8 t div 4 in
        rbind (if alen a > 0 then buf_copy (next_buf h) k (adata a) (ahead a) (alen a) h1
               else Inr h1) (\<lambda>h2.
        rbind (if alen b > 0 then buf_copy (next_buf h) (k + alen a) (adata b) (ahead b) (alen b) h2
               else Inr h2) (\<lambda>h3.
        Inr (\<lparr>adata = next_buf h, ahead = k, alen = t, acap = max 8 t\<rparr>, h3))))"
    by (rule concat_made [OF h inv t61])
  have m: "max 8 (alen a + alen b) = 8" using t by simp
  define A where "A = arr_list h a"
  define B where "B = arr_list h b"
  have lenA: "length A = alen a" "length B = alen b"
    using length_arr_list inv by (simp_all add: A_def B_def)
  obtain xa where xa: "bufs h1 (adata a) = Some xa" "length xa = acap a" "ahead a + alen a \<le> acap a"
    using c(2) by (rule arr_invE)
  obtain xb where xb: "bufs h1 (adata b) = Some xb" "length xb = acap b" "ahead b + alen b \<le> acap b"
    using c(3) by (rule arr_invE)
  have seg: "take (alen a) (drop (ahead a) xa) = A" "take (alen b) (drop (ahead b) xb) = B"
    using c(5,6) xa(1) xb(1) by (simp_all add: A_def B_def arr_list_eq)
  let ?d = "next_buf h"
  define h2 where "h2 = h1\<lparr>bufs := (bufs h1)(?d \<mapsto> splice (replicate 8 0) 2 A)\<rparr>"
  define h3 where "h3 = h2\<lparr>bufs := (bufs h2)(?d \<mapsto> splice (splice (replicate 8 0) 2 A) (2 + alen a) B)\<rparr>"
  have 1: "(if alen a > 0 then buf_copy ?d 2 (adata a) (ahead a) (alen a) h1 else Inr h1) = Inr h2"
  proof (cases "alen a = 0")
    case True
    then show ?thesis using lenA c(7) m by (simp add: h2_def fun_upd_idem)
  next
    case False
    have "buf_copy ?d 2 (adata a) (ahead a) (alen a) h1 = Inr h2"
      unfolding h2_def seg(1) [symmetric] by (rule buf_copy_eq) (use c m xa t in auto)
    with False show ?thesis by simp
  qed
  have 2: "(if alen b > 0 then buf_copy ?d (2 + alen a) (adata b) (ahead b) (alen b) h2 else Inr h2) = Inr h3"
  proof (cases "alen b = 0")
    case True
    then show ?thesis using lenA by (simp add: h3_def h2_def)
  next
    case False
    have "buf_copy ?d (2 + alen a) (adata b) (ahead b) (alen b) h2 = Inr h3"
      unfolding h3_def seg(2) [symmetric]
      by (rule buf_copy_eq) (use c xb t lenA in \<open>auto simp: h2_def\<close>)
    with False show ?thesis by simp
  qed
  define a' where "a' = \<lparr>adata = ?d, ahead = 2, alen = alen a + alen b, acap = 8\<rparr>"
  have buf: "bufs h3 ?d = Some (splice (replicate 8 0) 2 (A @ B))"
    using splice_append [of 2 A B "replicate 8 0"] t lenA by (simp add: h3_def)
  have k: "(8::nat) div 4 = 2" by simp
  have "goc_array_concat a b h = Inr (a', h3)"
    unfolding eq Let_def m k 1 rbind_simps 2 by (simp add: a'_def)
  moreover have "arr_post h {} (A @ B) (a', h3)"
  proof (rule arr_postI)
    show "heap_good h3" unfolding h3_def h2_def using c(1,7) by (simp add: heap_good_simps(4))
    show "arr_inv h3 a'" using buf t lenA by (simp add: arr_inv_def a'_def)
    show "arr_list h3 a' = A @ B"
      using buf t lenA segment_splice_same [of 2 "A @ B" "replicate 8 0"]
      by (simp add: arr_list_def a'_def)
    show "frame {} h h3"
      using c(4) heap_ok_fresh [OF heap_goodD(1) [OF h]] by (auto simp: frame_def h3_def h2_def)
  qed
  ultimately show ?thesis unfolding A_def B_def by blast
qed

lemma concat_overflow:
  assumes h: "heap_good h" and inv: "arr_inv h a" "arr_inv h b"
    and t: "7 \<le> alen a + alen b" "alen a + alen b < 2 ^ 61"
  shows "goc_array_concat a b h = Inl OutOfBounds"
proof -
  obtain h1 where "heap_good h1" "arr_inv h1 a" "arr_inv h1 b" "frame {} h h1"
    "arr_list h1 a = arr_list h a" "arr_list h1 b = arr_list h b"
    and c: "bufs h1 (next_buf h) = Some (replicate (max 8 (alen a + alen b)) 0)"
    and "adata a \<noteq> next_buf h" "adata b \<noteq> next_buf h"
    and eq: "goc_array_concat a b h =
       (let t = alen a + alen b; k = max 8 t div 4 in
        rbind (if alen a > 0 then buf_copy (next_buf h) k (adata a) (ahead a) (alen a) h1
               else Inr h1) (\<lambda>h2.
        rbind (if alen b > 0 then buf_copy (next_buf h) (k + alen a) (adata b) (ahead b) (alen b) h2
               else Inr h2) (\<lambda>h3.
        Inr (\<lparr>adata = next_buf h, ahead = k, alen = t, acap = max 8 t\<rparr>, h3))))"
    by (rule concat_made [OF h inv t(2)])
  have past: "max 8 (alen a + alen b) < max 8 (alen a + alen b) div 4 + (alen a + alen b)"
    using t(1) by (cases "8 \<le> alen a + alen b") (auto simp: max_def div_greater_zero_iff)
  have copy_cases: "buf_copy (next_buf h) doff src soff n g = Inl OutOfBounds \<or>
      (\<exists>g'. buf_copy (next_buf h) doff src soff n g = Inr g' \<and> doff + n \<le> length ds \<and>
            (\<exists>ds'. bufs g' (next_buf h) = Some ds' \<and> length ds' = length ds))"
    if "bufs g (next_buf h) = Some ds" "n < 2 ^ 61" for doff src soff n g ds
    using that by (auto simp: buf_copy_def slots_eq split: option.splits)
  have la: "alen a < 2 ^ 61" "alen b < 2 ^ 61" using t(2) by simp_all
  define k where "k = max 8 (alen a + alen b) div 4"
  let ?ca = "if alen a > 0 then buf_copy (next_buf h) k (adata a) (ahead a) (alen a) h1 else Inr h1"
  have "?ca = Inl OutOfBounds \<or> (\<exists>h2 ds. ?ca = Inr h2 \<and> bufs h2 (next_buf h) = Some ds
          \<and> length ds = max 8 (alen a + alen b) \<and> alen b \<noteq> 0)"
  proof (cases "alen a = 0")
    case True
    then show ?thesis using c t(1) by simp
  next
    case False
    then show ?thesis
      using copy_cases [OF c la(1), of k "adata a" "ahead a"] past by (auto simp: k_def)
  qed
  then show ?thesis
  proof (elim disjE exE conjE)
    fix h2 ds assume 2: "?ca = Inr h2" "bufs h2 (next_buf h) = Some ds"
      "length ds = max 8 (alen a + alen b)" "alen b \<noteq> 0"
    have "buf_copy (next_buf h) (k + alen a) (adata b) (ahead b) (alen b) h2 = Inl OutOfBounds"
      using copy_cases [OF 2(2) la(2), of "k + alen a" "adata b" "ahead b"] past 2(3)
      by (auto simp: k_def)
    then show ?thesis unfolding eq Let_def k_def [symmetric] 2(1) using 2(4) by simp
  next
    assume "?ca = Inl OutOfBounds"
    then show ?thesis unfolding eq Let_def k_def [symmetric] by (simp only: rbind_simps)
  qed
qed

subsection \<open>Boxed elements and strings\<close>

text \<open>Each pointer of \<open>ps\<close> refers to a box that holds the bytes of \<open>es\<close>.\<close>

definition boxed_as :: "goc_heap \<Rightarrow> nat \<Rightarrow> goc_boxed_type \<Rightarrow> ptr list \<Rightarrow> string list \<Rightarrow> bool" where
  "boxed_as h sz ty ps es \<longleftrightarrow> list_all2 (\<lambda>p e. p \<noteq> NULL \<and>
     boxes h p = Some \<lparr>btype = ty, bsize = sz, bpayload = take sz e\<rparr>) ps es"

lemma box_step:
  assumes "array_able n (a, h)"
  obtains h1 where "goc_box_impl e sz ty h = Inr (next_box h, h1)" "array_able n (a, h1)"
    "arr_list h1 a = arr_list h a" "next_box h \<noteq> NULL" "boxes h (next_box h) = None"
    "boxes h1 = (boxes h)(next_box h \<mapsto> \<lparr>btype = ty, bsize = sz, bpayload = take sz e\<rparr>)"
proof -
  have h: "heap_ok h" "gc_serves h" "arr_inv h a" "8 \<le> acap a" "cap_pot a + 16 * n < 2 ^ 60"
    using assms heap_goodD by (auto simp: array_able_def)
  define h0 where "h0 = h\<lparr>allocs := Suc (allocs h)\<rparr>"
  define h1 where "h1 = h0\<lparr>boxes := (boxes h0)(next_box h0 \<mapsto> \<lparr>btype = ty, bsize = sz, bpayload = take sz e\<rparr>),
                           next_box := Suc (next_box h0)\<rparr>"
  have "goc_box_impl e sz ty h = Inr (next_box h, h1)"
    using h by (simp add: goc_box_impl_def goc_malloc_serves h1_def h0_def)
  moreover have "heap_ok h1" unfolding h1_def by (rule heap_ok_box) (use h in \<open>simp add: h0_def\<close>)
  then have "array_able n (a, h1)"
    using h by (simp add: array_able_def heap_good_def h1_def h0_def arr_inv_def)
  ultimately show ?thesis
    using h by (intro that [of h1]) (auto simp: h1_def h0_def arr_list_def heap_ok_def)
qed

lemma push_keeps_boxes:
  "\<lbrakk>array_able (Suc n) (a, h); goc_array_push a v h = Inr (a', h')\<rbrakk> \<Longrightarrow> boxes h' = boxes h"
proof -
  assume ab: "array_able (Suc n) (a, h)" and p: "goc_array_push a v h = Inr (a', h')"
  have "heap_good h" "arr_inv h a" "acap a < 2 ^ 60"
    using ab cap_le_pot [of a] by (simp_all add: array_able_def)
  then show "boxes h' = boxes h"
    by (rule push_ok [where v = v]) (use p in \<open>simp add: arr_post_def frame_def\<close>)
qed

lemma push_boxed_all_ok:
  "array_able (length es + n) (a, h) \<Longrightarrow>
   \<exists>a' h' ps. array_push_boxed_all a es sz ty h = Inr (a', h') \<and> array_able n (a', h')
     \<and> arr_list h' a' = arr_list h a @ ps \<and> boxed_as h' sz ty ps es
     \<and> (\<forall>p. boxes h p \<noteq> None \<longrightarrow> boxes h' p = boxes h p)"
proof (induction es arbitrary: a h)
  case Nil
  then show ?case by (auto simp: boxed_as_def)
next
  case (Cons e es)
  have ab: "array_able (Suc (length es + n)) (a, h)" using Cons.prems by simp
  obtain h1 where b: "goc_box_impl e sz ty h = Inr (next_box h, h1)"
    "array_able (Suc (length es + n)) (a, h1)" "arr_list h1 a = arr_list h a" "next_box h \<noteq> NULL"
    "boxes h (next_box h) = None"
    "boxes h1 = (boxes h)(next_box h \<mapsto> \<lparr>btype = ty, bsize = sz, bpayload = take sz e\<rparr>)"
    by (rule box_step [OF ab])
  obtain a2 h2 where p: "goc_array_push a (next_box h) h1 = Inr (a2, h2)"
    "array_able (length es + n) (a2, h2)" "arr_list h2 a2 = arr_list h a @ [next_box h]"
    using array_able_push [OF b(2), of "next_box h"] b(3) by auto
  have bx: "boxes h2 = boxes h1" by (rule push_keeps_boxes [OF b(2) p(1)])
  obtain a' h' ps where r: "array_push_boxed_all a2 es sz ty h2 = Inr (a', h')" "array_able n (a', h')"
    "arr_list h' a' = arr_list h2 a2 @ ps" "boxed_as h' sz ty ps es"
    "\<forall>p. boxes h2 p \<noteq> None \<longrightarrow> boxes h' p = boxes h2 p"
    using Cons.IH [OF p(2)] by blast
  have "boxed_as h' sz ty (next_box h # ps) (e # es)"
    using r(4,5) bx b(4,6) by (simp add: boxed_as_def)
  moreover have "\<forall>p. boxes h p \<noteq> None \<longrightarrow> boxes h' p = boxes h p"
    using r(5) bx b(5,6) by (metis fun_upd_other fun_upd_same)
  ultimately show ?case using b(1) p r by (intro exI [of _ a'] exI [of _ h']) auto
qed

lemma array_chars_eq:
  "(\<And>i. i \<in> set is \<Longrightarrow> goc_array_get a i h = Inr (P i) \<and> goc_unbox_char (P i) h = Inr (f i))
   \<Longrightarrow> array_chars a is h = Inr (map f is)"
  by (induction "is") auto

lemma to_str_boxed:
  assumes good: "heap_good h" and inv: "arr_inv h a"
    and bx: "boxed_as h 1 GOC_BOXED_TYPE_BYTE (arr_list h a) (map (\<lambda>c. [c]) cs)"
  shows "goc_array_to_str a h = Inr (cs @ [CHR 0x00], h\<lparr>allocs := Suc (allocs h)\<rparr>)"
proof -
  define h1 where "h1 = h\<lparr>allocs := Suc (allocs h)\<rparr>"
  have len: "length cs = alen a" "length (arr_list h a) = alen a"
    using bx length_arr_list [OF inv] by (auto simp: boxed_as_def dest: list_all2_lengthD)
  have "array_chars a [0..<alen a] h1 = Inr (map ((!) cs) [0..<alen a])"
  proof (rule array_chars_eq [where P = "\<lambda>i. arr_list h a ! i"])
    fix i assume "i \<in> set [0..<alen a]"
    then have i: "i < alen a" by simp
    have "goc_array_get a i h1 = Inr (arr_list h1 a ! i)"
      using inv i by (intro get_ok) (simp_all add: h1_def)
    moreover have "goc_unbox_char (arr_list h a ! i) h1 = Inr (cs ! i)"
      using bx i len list_all2_nthD [OF bx [unfolded boxed_as_def], of i]
      by (simp add: goc_unbox_char_def goc_unbox_check_def h1_def)
    ultimately show "goc_array_get a i h1 = Inr (arr_list h a ! i)
        \<and> goc_unbox_char (arr_list h a ! i) h1 = Inr (cs ! i)"
      by (simp add: h1_def)
  qed
  then show ?thesis
    using heap_goodD(2) [OF good] len(1) map_nth [of cs]
    by (simp add: goc_array_to_str_def goc_array_len_def goc_malloc_serves h1_def)
qed

lemma make_able:
  assumes "heap_good h" "c < 2 ^ 60" "max 8 c + 16 * n < 2 ^ 60"
  obtains a h' where "goc_array_make c h = Inr (a, h')" "array_able n (a, h')" "arr_list h' a = []"
    "alen a = 0" "acap a = max 8 c" "cap_pot a = max 8 c"
proof -
  have "c < 2 ^ 61" using assms(2) by simp
  then obtain h' where m:
    "goc_array_make c h = Inr (\<lparr>adata = next_buf h, ahead = max 8 c div 4, alen = 0, acap = max 8 c\<rparr>, h')"
    "arr_post h {} [] (\<lparr>adata = next_buf h, ahead = max 8 c div 4, alen = 0, acap = max 8 c\<rparr>, h')"
    "next_buf h' = Suc (next_buf h)"
    by (rule make_ok [OF assms(1)])
  define a where "a = \<lparr>adata = next_buf h, ahead = max 8 c div 4, alen = 0, acap = max 8 c\<rparr>"
  define d where "d = max 8 c"
  have "d div 8 \<le> d div 4" "d div 8 \<le> d - d div 4" by linarith+
  then have pot: "cap_pot a = max 8 c" by (simp add: a_def cap_pot_def scarcer_def d_def [symmetric])
  moreover have "array_able n (a, h')"
    using array_ableI [OF m(2) [folded a_def], of n] pot assms(3) by (simp add: a_def)
  ultimately show ?thesis
    using m that [of a h'] by (simp add: a_def arr_post_def)
qed

lemma push_head_seven:
  assumes h: "heap_good h" and inv: "arr_inv h a" and seven: "ahead a = 0" "alen a = 7" "acap a = 7"
  shows "goc_array_push_head a v h = Inl OutOfBounds"
proof -
  have small: "acap a < 2 ^ 60" using seven by simp
  obtain h1 a1 where g: "array_grow a True h = Inr (a1, h1)" "heap_good h1" "arr_inv h1 a1"
    "arr_list h1 a1 = arr_list h a" "frame {} h h1" "adata a1 = next_buf h"
    "alen a1 = alen a" "acap a1 = grown_cap a"
    "ahead a1 = (if True then (grown_cap a - alen a) * 3 div 4 else (grown_cap a - alen a) div 4)"
    by (rule array_grow_ok [OF h inv small, of True])
  have a1: "acap a1 = 8" "ahead a1 = 0" using g(8,9) seven by (simp_all add: grown_cap_def)
  have wrap: "size_sub (ahead a1) 1 = SIZE_MAX" using a1 size_sub_wrap by simp
  obtain xs where "bufs h1 (adata a1) = Some xs" "length xs = 8"
    using g(3) a1(1) by (auto simp: arr_inv_def)
  then have "buf_write (adata a1) (size_sub (ahead a1) 1) v h1 = Inl OutOfBounds"
    unfolding wrap by (simp add: buf_write_def SIZE_MAX_def)
  then show ?thesis
    unfolding goc_array_push_head_def Let_def using g(1) seven(1) by simp
qed

text \<open>A block of three elements, on which the properties are tried below.\<close>

lemma three_slots:
  "heap_good (empty_heap\<lparr>bufs := [0 \<mapsto> [5, 6, 7]], next_buf := 1\<rparr>)"
  "arr_inv (empty_heap\<lparr>bufs := [0 \<mapsto> [5, 6, 7]], next_buf := 1\<rparr>)
     \<lparr>adata = 0, ahead = 0, alen = 3, acap = 3\<rparr>"
  "arr_list (empty_heap\<lparr>bufs := [0 \<mapsto> [5, 6, 7]], next_buf := 1\<rparr>)
     \<lparr>adata = 0, ahead = 0, alen = 3, acap = 3\<rparr> = [5, 6, 7]"
  by (auto simp: heap_good_def heap_ok_def gc_serves_def empty_heap_def arr_inv_def arr_list_def)

section \<open>Properties\<close>

text \<open>
  C9: a fresh array behaves as a list under any sequence of pushes and pops at both ends, reads
  and writes: it returns what the list operations return and ends with their result, and it
  aborts exactly when a list operation has no result (a pop of an empty array, an index out of
  range). No access leaves the block, and growing never loses or reorders an element.
\<close>

theorem array_refines_list:
  assumes "heap_good h" "c < 2 ^ 59" "length cs < 2 ^ 54"
  shows "\<exists>a0 h0. goc_array_make c h = Inr (a0, h0) \<and>
     (case spec_run list_op cs [] of
        Some (vs, ys) \<Rightarrow> \<exists>a h'. array_run cs (a0, h0) = Some (Inr (vs, a, h'))
                           \<and> arr_inv h' a \<and> arr_list h' a = ys
      | None \<Rightarrow> \<exists>msg. array_run cs (a0, h0) = Some (Inl (Abort msg)))"
proof -
  obtain a0 h0 where m: "goc_array_make c h = Inr (a0, h0)" "array_able (length cs) (a0, h0)"
    "arr_list h0 a0 = []" "alen a0 = 0" "acap a0 = max 8 c" "cap_pot a0 = max 8 c"
    by (rule make_able [OF assms(1), of c "length cs"]) (use assms(2,3) in auto)
  show ?thesis
  proof (cases "spec_run list_op cs []")
    case None
    with arr.run_abort [of cs "(a0, h0)" "[]"] m(1-3) show ?thesis by (auto simp: array_run_def)
  next
    case (Some r)
    with arr.run_ok [of cs 0 "(a0, h0)" "[]" "fst r" "snd r"] m show ?thesis
      by (fastforce simp: array_able_def array_run_def)
  qed
qed

theorem array_refines_list_witness:
  "\<exists>a0 h0 a h'. goc_array_make 0 empty_heap = Inr (a0, h0)
     \<and> array_run [Push 5, Push_head 6, Push 7, Pop, Get 0] (a0, h0)
         = Some (Inr ([None, None, None, Some 7, Some 6], a, h'))
     \<and> arr_list h' a = [6, 5]"
  using array_refines_list [of empty_heap 0 "[Push 5, Push_head 6, Push 7, Pop, Get 0]"]
  by auto

text \<open>
  C36: pushes are amortised. After any successful sequence of \<open>n\<close> operations on a fresh array,
  pushes and head pushes interleaved in any order, the capacity is at most \<open>8 + 16 * n\<close> slots
  (or \<open>16 * n\<close> above the requested capacity), and all the copying that \<open>array_grow\<close> did along
  the way is at most the final capacity.
\<close>

theorem array_growth_amortised:
  assumes "heap_good h" "c < 2 ^ 59" "length cs < 2 ^ 54"
    and "goc_array_make c h = Inr (a0, h0)" "array_run cs (a0, h0) = Some (Inr (vs, a, h'))"
  shows "acap a \<le> max 8 c + 16 * length cs \<and> array_copied cs (a0, h0) \<le> acap a"
proof -
  obtain a1 h1 where m: "goc_array_make c h = Inr (a1, h1)" "array_able (length cs) (a1, h1)"
    "arr_list h1 a1 = []" "alen a1 = 0" "acap a1 = max 8 c" "cap_pot a1 = max 8 c"
    by (rule make_able [OF assms(1), of c "length cs"]) (use assms(2,3) in auto)
  then have eq: "a1 = a0" "h1 = h0" using assms(4) by simp_all
  from array_run_cost [OF m(2) [unfolded eq] assms(5)] m(6) eq cap_le_pot [of a]
  show ?thesis by simp
qed

theorem array_growth_amortised_witness:
  "\<exists>a0 h0 a h'. goc_array_make 0 empty_heap = Inr (a0, h0)
     \<and> array_run [Push_head 5, Push_head 6, Push 7] (a0, h0) = Some (Inr ([None, None, None], a, h'))
     \<and> acap a \<le> 56 \<and> array_copied [Push_head 5, Push_head 6, Push 7] (a0, h0) \<le> acap a"
proof -
  let ?cs = "[Push_head 5, Push_head 6, Push 7]"
  obtain a0 h0 where m: "goc_array_make 0 empty_heap = Inr (a0, h0)" "array_able 3 (a0, h0)"
    "arr_list h0 a0 = []"
    by (rule make_able [of empty_heap 0 3]) auto
  obtain a h' where "array_run ?cs (a0, h0) = Some (Inr ([None, None, None], a, h'))"
    using arr.run_ok [of ?cs 0 "(a0, h0)" "[]" "[None, None, None]" "[6, 5, 7]"] m
    by (auto simp del: impl_run.simps simp: numeral_3_eq_3 array_run_def)
  with m(1) array_growth_amortised [OF _ _ _ m(1) this] show ?thesis by auto
qed

text \<open>
  A slice shares the parent's block. Writing index \<open>k\<close> of the slice \<open>[i, j)\<close> is seen by the
  parent at index \<open>i + k\<close>, and nowhere else; the other blocks of the heap do not change.
\<close>

theorem slice_shares_parent:
  assumes "heap_good h" "arr_inv h a" "i \<le> j" "j \<le> alen a" "k < j - i"
  shows "\<exists>s h1 h2. goc_array_slice a i j h = Inr (s, h1)
     \<and> arr_list h1 s = take (j - i) (drop i (arr_list h a))
     \<and> goc_array_set s k v h1 = Inr h2
     \<and> arr_list h2 s = (arr_list h1 s)[k := v]
     \<and> arr_list h2 a = (arr_list h a)[i + k := v] \<and> frame {adata a} h h2"
proof -
  define s where "s = \<lparr>adata = adata a, ahead = ahead a + i, alen = j - i, acap = acap a\<rparr>"
  define h1 where "h1 = h\<lparr>allocs := Suc (allocs h)\<rparr>"
  note sl = slice_ok [OF assms(1-4), folded s_def]
  have g: "heap_good h1" "arr_inv h1 s" "k < alen s"
    using assms sl(2) by (simp_all add: h1_def s_def)
  obtain h2 where st: "goc_array_set s k v h1 = Inr h2"
    "arr_post h1 {adata s} ((arr_list h1 s)[k := v]) (s, h2)"
    "bufs h2 (adata s) = Some ((the (bufs h1 (adata s)))[ahead s + k := v])"
    by (rule set_ok [OF g])
  have "arr_list h2 a = (arr_list h a)[i + k := v]"
    using st(3) assms(3-5)
    by (simp add: arr_list_def s_def h1_def add.assoc segment_update)
  moreover have "frame {adata a} h h2" using st(2) by (simp add: arr_post_def frame_def s_def h1_def)
  ultimately show ?thesis
    using sl st(1,2) by (intro exI [of _ s] exI [of _ h1] exI [of _ h2]) (simp add: h1_def arr_post_def)
qed

theorem slice_shares_parent_witness:
  "\<exists>h s h1 h2. goc_array_slice \<lparr>adata = 0, ahead = 0, alen = 3, acap = 3\<rparr> 1 3 h = Inr (s, h1)
     \<and> arr_list h1 s = [6, 7] \<and> goc_array_set s 1 9 h1 = Inr h2
     \<and> arr_list h2 \<lparr>adata = 0, ahead = 0, alen = 3, acap = 3\<rparr> = [5, 6, 9]"
proof -
  have "1 \<le> (3::nat)" "3 \<le> alen \<lparr>adata = 0, ahead = 0, alen = 3, acap = 3\<rparr>" "1 < 3 - (1::nat)"
    by simp_all
  from slice_shares_parent [OF three_slots(1,2) this, of 9] three_slots(3) show ?thesis
    by (auto simp: numeral_eq_Suc)
qed

text \<open>
  \<open>goc_array_copy\<close> makes an independent array: it lists the same elements, and no write to
  the copy's block changes what the original lists.
\<close>

theorem copy_independent:
  assumes "heap_good h" "arr_inv h a"
  shows "\<exists>a' h'. goc_array_copy a h = Inr (a', h') \<and> arr_inv h' a'
     \<and> arr_list h' a' = arr_list h a \<and> adata a' \<noteq> adata a
     \<and> (\<forall>h''. frame {adata a'} h' h'' \<longrightarrow> arr_list h'' a = arr_list h a)"
proof -
  obtain a' h' where c: "goc_array_copy a h = Inr (a', h')" "arr_post h {} (arr_list h a) (a', h')"
    "adata a' = next_buf h" "acap a' \<le> max 8 (alen a)" by (rule copy_ok [OF assms])
  have ne: "adata a' \<noteq> adata a"
    using assms(2) heap_ok_fresh [OF heap_goodD(1) [OF assms(1)]] c(3) by (auto simp: arr_inv_def)
  have a: "arr_inv h' a" "arr_list h' a = arr_list h a"
    using frame_arr [of "{}" h h' a] c(2) assms(2) by (auto simp: arr_post_def)
  have "arr_list h'' a = arr_list h a" if "frame {adata a'} h' h''" for h''
    using frame_arr(2) [OF that a(1)] ne a(2) by simp
  with c(1,2) ne show ?thesis
    by (intro exI [of _ a'] exI [of _ h']) (simp add: arr_post_def)
qed

theorem copy_independent_witness:
  "\<exists>a' h'. goc_array_copy \<lparr>adata = 0, ahead = 0, alen = 3, acap = 3\<rparr>
       (empty_heap\<lparr>bufs := [0 \<mapsto> [5, 6, 7]], next_buf := 1\<rparr>) = Inr (a', h')
     \<and> arr_list h' a' = [5, 6, 7] \<and> adata a' \<noteq> 0"
  using copy_independent [OF three_slots(1,2)] three_slots(3) by force

text \<open>
  \<open>goc_array_concat\<close> appends up to six elements correctly, and with seven or more in total
  it copies past the end of the block it has just made: the result starts a quarter into a
  block that has room for the total only.
\<close>

theorem concat_six_or_overflow:
  assumes "heap_good h" "arr_inv h a" "arr_inv h b" "alen a + alen b < 2 ^ 61"
  shows "if alen a + alen b \<le> 6
         then \<exists>c h'. goc_array_concat a b h = Inr (c, h') \<and> arr_inv h' c
                \<and> arr_list h' c = arr_list h a @ arr_list h b \<and> frame {} h h'
         else goc_array_concat a b h = Inl OutOfBounds"
  using concat_ok [OF assms(1-3)] concat_overflow [OF assms(1-3) _ assms(4)]
  by (auto simp: arr_post_def)

theorem concat_six_or_overflow_witness:
  "\<exists>h a. arr_list h a = [5, 6, 7] \<and> (\<exists>c h'. goc_array_concat a a h = Inr (c, h')
     \<and> arr_list h' c = [5, 6, 7, 5, 6, 7])"
proof -
  have "alen \<lparr>adata = 0, ahead = 0, alen = 3, acap = 3\<rparr>
      + alen \<lparr>adata = 0, ahead = 0, alen = 3, acap = 3\<rparr> < 2 ^ 61" by simp
  from concat_six_or_overflow [OF three_slots(1,2,2) this] three_slots(3) show ?thesis by force
qed

text \<open>
  prepending writes outside its block exactly when the array is full with seven elements in
  seven slots, as \<open>goc_array_from\<close> of seven items makes it: growing to eight slots then leaves
  no room in front and the head index wraps. In every other case the element is prepended.
\<close>

theorem push_head_correct_but_seven:
  assumes "heap_good h" "arr_inv h a" "acap a < 2 ^ 60"
  shows "if ahead a = 0 \<and> alen a = 7 \<and> acap a = 7
         then goc_array_push_head a v h = Inl OutOfBounds
         else \<exists>a' h'. goc_array_push_head a v h = Inr (a', h') \<and> arr_inv h' a'
                \<and> arr_list h' a' = v # arr_list h a \<and> frame {adata a} h h'"
proof (cases "ahead a = 0 \<and> alen a = 7 \<and> acap a = 7")
  case True
  then show ?thesis using push_head_seven [OF assms(1,2)] by simp
next
  case False
  then show ?thesis
    by (auto simp: arr_post_def intro: push_head_ok [OF assms False, of v])
qed

theorem push_head_correct_but_seven_witness:
  "\<exists>h a' h'. goc_array_push_head \<lparr>adata = 0, ahead = 0, alen = 3, acap = 3\<rparr> 4 h = Inr (a', h')
     \<and> arr_list h' a' = [4, 5, 6, 7]"
proof -
  have "acap \<lparr>adata = 0, ahead = 0, alen = 3, acap = 3\<rparr> < 2 ^ 60" by simp
  from push_head_correct_but_seven [OF three_slots(1,2) this, of 4] three_slots(3)
  show ?thesis by force
qed

text \<open>
  A C string survives the trip through an array of boxed bytes: \<open>goc_array_to_str\<close> of
  \<open>goc_array_from_str s\<close> succeeds and is \<open>s\<close> up to its terminator, terminated again.
\<close>

theorem from_str_to_str:
  assumes "heap_good h" "length (c_str cs) < 2 ^ 54"
  shows "\<exists>a h1 h2. goc_array_from_str (Some cs) h = Inr (a, h1)
     \<and> goc_array_to_str a h1 = Inr (c_str cs @ [CHR 0x00], h2)"
proof -
  define es where "es = map (\<lambda>c. [c]) (c_str cs)"
  have tk: "take (length (c_str cs)) cs = c_str cs" by (simp add: c_str_def takeWhile_eq_take [symmetric])
  obtain a0 h0 where m: "goc_array_make (length (c_str cs)) h = Inr (a0, h0)"
    "array_able (length es + 0) (a0, h0)" "arr_list h0 a0 = []"
    by (rule make_able [OF assms(1), of "length (c_str cs)" "length es + 0"])
      (use assms(2) in \<open>auto simp: es_def\<close>)
  obtain a h1 ps where b: "array_push_boxed_all a0 es 1 GOC_BOXED_TYPE_BYTE h0 = Inr (a, h1)"
    "array_able 0 (a, h1)" "arr_list h1 a = arr_list h0 a0 @ ps"
    "boxed_as h1 1 GOC_BOXED_TYPE_BYTE ps es"
    using push_boxed_all_ok [OF m(2), of 1 GOC_BOXED_TYPE_BYTE] by blast
  have "goc_array_from_str (Some cs) h = Inr (a, h1)"
    using m(1) b(1) by (simp add: goc_array_from_str_def tk es_def)
  moreover have "goc_array_to_str a h1 = Inr (c_str cs @ [CHR 0x00], h1\<lparr>allocs := Suc (allocs h1)\<rparr>)"
    by (rule to_str_boxed) (use b m(3) in \<open>simp_all add: array_able_def es_def\<close>)
  ultimately show ?thesis by blast
qed

theorem from_str_to_str_witness:
  "\<exists>a h1 h2. goc_array_from_str (Some (''hi'' @ [CHR 0x00, CHR ''x''])) empty_heap = Inr (a, h1)
     \<and> goc_array_to_str a h1 = Inr (''hi'' @ [CHR 0x00], h2)"
  using from_str_to_str [of empty_heap "''hi'' @ [CHR 0x00, CHR ''x'']"] by (simp add: c_str_def)

end
