(* ===== verification/Goc_Dict.thy ===== *)
theory Goc_Dict
  imports Goc_Hash Goc_Array
begin

text \<open>
  \<open>src/goc_dict.c\<close>: the dictionary that looks keys up in a hash table and iterates them in
  insertion order through a side array of key pointers. The two tables belong to the dictionary
  alone and are lists of its record; the array of keys lives in the heap. Theorems: every
  operation against the insertion-ordered association list \<open>al\<close> of \<open>dict_rel\<close>, and that the
  loops inside (probing, rehashing) end.
\<close>

section \<open>State and operations\<close>

record goc_dict =
  dtable :: "ptr list"
  dtable_keys :: "ptr list"
  dtable_cap :: nat
  doccupied :: nat
  dkeys :: goc_array
  dlen :: nat

text \<open>The dictionary's header: six words.\<close>

abbreviation sizeof_goc_dict :: nat where
  "sizeof_goc_dict \<equiv> 48"

definition goc_dict_alloc_table :: "nat \<Rightarrow> goc_heap \<Rightarrow> (ptr list \<times> goc_heap) res" where
  "goc_dict_alloc_table cap h =
     rbind (goc_malloc (size_mul cap 8) h) (\<lambda>h1. Inr (replicate (slots cap) NULL, h1))"

definition goc_dict_alloc_keys :: "nat \<Rightarrow> goc_heap \<Rightarrow> (ptr list \<times> goc_heap) res" where
  "goc_dict_alloc_keys cap h =
     rbind (goc_malloc (size_mul cap 8) h) (\<lambda>h1. Inr (replicate (slots cap) NULL, h1))"

definition goc_dict_probe :: "(ptr \<Rightarrow> string) \<Rightarrow> goc_dict \<Rightarrow> string \<Rightarrow> nat out" where
  "goc_dict_probe mem d key = probe_table mem (dtable_keys d) (dtable_cap d) key"

definition goc_dict_rehash ::
  "(ptr \<Rightarrow> string) \<Rightarrow> goc_dict \<Rightarrow> nat \<Rightarrow> goc_heap \<Rightarrow> (goc_dict \<times> goc_heap) out" where
  "goc_dict_rehash mem d new_cap h =
     obind (Some (goc_dict_alloc_table new_cap h)) (\<lambda>(new_table, h1).
     obind (Some (goc_dict_alloc_keys new_cap h1)) (\<lambda>(new_table_keys, h2).
     obind (rehash_loop mem (dtable_keys d) (dtable d) new_cap [0..<dtable_cap d]
              new_table_keys new_table) (\<lambda>(nk, nt).
     Some (Inr (d\<lparr>dtable := nt, dtable_keys := nk, dtable_cap := new_cap,
                  doccupied := dlen d\<rparr>, h2)))))"

definition goc_dict_make_internal :: "nat \<Rightarrow> goc_heap \<Rightarrow> (goc_dict \<times> goc_heap) out" where
  "goc_dict_make_internal initial_cap h =
     obind (Some (goc_malloc sizeof_goc_dict h)) (\<lambda>h0.
     obind (map_option Inr (goc_dict_round_cap initial_cap)) (\<lambda>cap.
     obind (Some (goc_dict_alloc_table cap h0)) (\<lambda>(t, h1).
     obind (Some (goc_dict_alloc_keys cap h1)) (\<lambda>(tk, h2).
     obind (Some (goc_array_make initial_cap h2)) (\<lambda>(ks, h3).
     Some (Inr (\<lparr>dtable = t, dtable_keys = tk, dtable_cap = cap, doccupied = 0,
                 dkeys = ks, dlen = 0\<rparr>, h3)))))))"

definition goc_dict_is_live_slot :: "goc_dict \<Rightarrow> nat \<Rightarrow> bool res" where
  "goc_dict_is_live_slot d slot =
     rbind (lread (dtable_keys d) slot) (\<lambda>current.
     Inr (current \<noteq> NULL \<and> current \<noteq> GOC_DICT_TOMBSTONE))"

definition goc_dict_make :: "nat \<Rightarrow> goc_heap \<Rightarrow> (goc_dict \<times> goc_heap) out" where
  "goc_dict_make initial_cap h = goc_dict_make_internal initial_cap h"

definition goc_dict_contains :: "(ptr \<Rightarrow> string) \<Rightarrow> goc_dict \<Rightarrow> string \<Rightarrow> bool out" where
  "goc_dict_contains mem d key =
     obind (goc_dict_probe mem d key) (\<lambda>slot.
     obind (Some (lread (dtable_keys d) slot)) (\<lambda>current.
     Some (Inr (current \<noteq> NULL \<and> current \<noteq> GOC_DICT_TOMBSTONE))))"

definition goc_dict_get :: "(ptr \<Rightarrow> string) \<Rightarrow> goc_dict \<Rightarrow> string \<Rightarrow> ptr \<Rightarrow> ptr out" where
  "goc_dict_get mem d key not_found =
     obind (goc_dict_probe mem d key) (\<lambda>slot.
     obind (Some (lread (dtable_keys d) slot)) (\<lambda>current.
     if current = NULL \<or> current = GOC_DICT_TOMBSTONE then Some (Inr not_found)
     else Some (lread (dtable d) slot)))"

definition goc_dict_len :: "goc_dict \<Rightarrow> nat" where
  "goc_dict_len d = dlen d"

definition goc_dict_set ::
  "(ptr \<Rightarrow> string) \<Rightarrow> goc_dict \<Rightarrow> ptr \<Rightarrow> ptr \<Rightarrow> goc_heap \<Rightarrow> (goc_dict \<times> goc_heap) out" where
  "goc_dict_set mem d key val h =
     obind (if size_mul (doccupied d) 4 > size_mul (dtable_cap d) 3
            then goc_dict_rehash mem d (size_mul (dtable_cap d) 2) h
            else Some (Inr (d, h))) (\<lambda>(d1, h1).
     obind (goc_dict_probe mem d1 (mem key)) (\<lambda>slot.
     obind (Some (lread (dtable_keys d1) slot)) (\<lambda>current.
     if current \<noteq> NULL \<and> current \<noteq> GOC_DICT_TOMBSTONE
     then obind (Some (lwrite (dtable d1) slot val)) (\<lambda>t.
          Some (Inr (d1\<lparr>dtable := t\<rparr>, h1)))
     else obind (Some (lwrite (dtable d1) slot val)) (\<lambda>t.
          obind (Some (lwrite (dtable_keys d1) slot key)) (\<lambda>tk.
          obind (Some (goc_array_push (dkeys d1) key h1)) (\<lambda>(ks, h2).
          Some (Inr (d1\<lparr>dtable := t, dtable_keys := tk, dkeys := ks,
                        dlen := size_add (dlen d1) 1,
                        doccupied := (if current = NULL then size_add (doccupied d1) 1
                                      else doccupied d1)\<rparr>, h2))))))))"

text \<open>The scan of \<open>goc_dict_pop\<close> for the removed key's place in the key array.\<close>

fun pop_scan :: "goc_array \<Rightarrow> ptr \<Rightarrow> nat list \<Rightarrow> goc_heap \<Rightarrow> goc_heap res" where
  "pop_scan ks current [] h = Inr h"
| "pop_scan ks current (i # is) h =
     rbind (goc_array_get ks i h) (\<lambda>stored_key.
     if stored_key = current then goc_array_set ks i NULL h
     else pop_scan ks current is h)"

definition goc_dict_pop ::
  "(ptr \<Rightarrow> string) \<Rightarrow> goc_dict \<Rightarrow> string \<Rightarrow> ptr \<Rightarrow> goc_heap \<Rightarrow> (ptr \<times> goc_dict \<times> goc_heap) out" where
  "goc_dict_pop mem d key not_found h =
     obind (goc_dict_probe mem d key) (\<lambda>slot.
     obind (Some (lread (dtable_keys d) slot)) (\<lambda>current.
     if current = NULL \<or> current = GOC_DICT_TOMBSTONE then Some (Inr (not_found, d, h))
     else obind (Some (lread (dtable d) slot)) (\<lambda>val.
          obind (Some (lwrite (dtable d) slot NULL)) (\<lambda>t.
          obind (Some (lwrite (dtable_keys d) slot GOC_DICT_TOMBSTONE)) (\<lambda>tk.
          obind (Some (pop_scan (dkeys d) current [0..<goc_array_len (dkeys d)] h)) (\<lambda>h1.
          Some (Inr (val, d\<lparr>dtable := t, dtable_keys := tk, dlen := size_sub (dlen d) 1\<rparr>, h1))))))))"

text \<open>\<open>memcpy\<close> of a whole table of \<open>cap\<close> slots.\<close>

definition table_copy :: "ptr list \<Rightarrow> ptr list \<Rightarrow> nat \<Rightarrow> ptr list res" where
  "table_copy dst src cap =
     (let m = slots cap in
      if m \<le> length dst \<and> m \<le> length src then Inr (splice dst 0 (take m src)) else Inl OutOfBounds)"

definition goc_dict_copy :: "goc_dict \<Rightarrow> goc_heap \<Rightarrow> (goc_dict \<times> goc_heap) out" where
  "goc_dict_copy d h =
     obind (goc_dict_make_internal (dtable_cap d) h) (\<lambda>(c, h1).
     obind (Some (table_copy (dtable c) (dtable d) (dtable_cap d))) (\<lambda>t.
     obind (Some (table_copy (dtable_keys c) (dtable_keys d) (dtable_cap d))) (\<lambda>tk.
     obind (Some (goc_array_copy (dkeys d) h1)) (\<lambda>(ks, h2).
     Some (Inr (c\<lparr>dtable := t, dtable_keys := tk, dkeys := ks, dlen := dlen d,
                  doccupied := doccupied d\<rparr>, h2))))))"

fun select_loop ::
  "(ptr \<Rightarrow> string) \<Rightarrow> goc_dict \<Rightarrow> ptr list \<Rightarrow> goc_dict \<Rightarrow> goc_heap \<Rightarrow> (goc_dict \<times> goc_heap) out" where
  "select_loop mem d [] result h = Some (Inr (result, h))"
| "select_loop mem d (key # keys) result h =
     obind (goc_dict_probe mem d (mem key)) (\<lambda>slot.
     obind (Some (goc_dict_is_live_slot d slot)) (\<lambda>is_live.
     if is_live
     then obind (Some (lread (dtable d) slot)) (\<lambda>val.
          obind (goc_dict_set mem result key val h) (\<lambda>(r, h1). select_loop mem d keys r h1))
     else select_loop mem d keys result h))"

definition goc_dict_select_c ::
  "(ptr \<Rightarrow> string) \<Rightarrow> goc_dict \<Rightarrow> ptr list \<Rightarrow> goc_heap \<Rightarrow> (goc_dict \<times> goc_heap) out" where
  "goc_dict_select_c mem d keys h =
     obind (goc_dict_make_internal (dtable_cap d) h) (\<lambda>(result, h1). select_loop mem d keys result h1)"

text \<open>
  The loop shared by \<open>goc_dict_entries\<close>, \<open>goc_dict_keys\<close> and \<open>goc_dict_vals\<close>: for every key
  pointer of the key array that is not null and still live, the value is produced by \<open>mk\<close> from
  the key, the table's value and the heap, and pushed.
\<close>

fun collect_loop ::
  "(ptr \<Rightarrow> string) \<Rightarrow> goc_dict \<Rightarrow> (ptr \<Rightarrow> ptr \<Rightarrow> goc_heap \<Rightarrow> (ptr \<times> goc_heap) res) \<Rightarrow> nat list
   \<Rightarrow> goc_array \<Rightarrow> goc_heap \<Rightarrow> (goc_array \<times> goc_heap) out" where
  "collect_loop mem d mk [] out h = Some (Inr (out, h))"
| "collect_loop mem d mk (i # is) out h =
     obind (Some (goc_array_get (dkeys d) i h)) (\<lambda>key.
     if key = NULL then collect_loop mem d mk is out h
     else obind (goc_dict_probe mem d (mem key)) (\<lambda>slot.
          obind (Some (goc_dict_is_live_slot d slot)) (\<lambda>is_live.
          if \<not> is_live then collect_loop mem d mk is out h
          else obind (Some (lread (dtable d) slot)) (\<lambda>val.
               obind (Some (mk key val h)) (\<lambda>(p, h1).
               obind (Some (goc_array_push out p h1)) (\<lambda>(out2, h2).
               collect_loop mem d mk is out2 h2))))))"

definition new_entry :: "ptr \<Rightarrow> ptr \<Rightarrow> goc_heap \<Rightarrow> (ptr \<times> goc_heap) res" where
  "new_entry key val h =
     rbind (goc_malloc 16 h) (\<lambda>h1.
     Inr (next_box h1, h1\<lparr>entries := (entries h1)(next_box h1 \<mapsto> (key, val)),
                          next_box := Suc (next_box h1)\<rparr>))"

definition goc_dict_entries ::
  "(ptr \<Rightarrow> string) \<Rightarrow> goc_dict \<Rightarrow> goc_heap \<Rightarrow> (goc_array \<times> goc_heap) out" where
  "goc_dict_entries mem d h =
     obind (Some (goc_array_make (goc_dict_len d) h)) (\<lambda>(out, h1).
     collect_loop mem d new_entry [0..<goc_array_len (dkeys d)] out h1)"

definition goc_dict_keys ::
  "(ptr \<Rightarrow> string) \<Rightarrow> goc_dict \<Rightarrow> goc_heap \<Rightarrow> (goc_array \<times> goc_heap) out" where
  "goc_dict_keys mem d h =
     obind (Some (goc_array_make (goc_dict_len d) h)) (\<lambda>(out, h1).
     collect_loop mem d (\<lambda>key val h. Inr (key, h)) [0..<goc_array_len (dkeys d)] out h1)"

definition goc_dict_vals ::
  "(ptr \<Rightarrow> string) \<Rightarrow> goc_dict \<Rightarrow> goc_heap \<Rightarrow> (goc_array \<times> goc_heap) out" where
  "goc_dict_vals mem d h =
     obind (Some (goc_array_make (goc_dict_len d) h)) (\<lambda>(out, h1).
     collect_loop mem d (\<lambda>key val h. Inr (val, h)) [0..<goc_array_len (dkeys d)] out h1)"

text \<open>Setting a sequence of keys: the loop of every constructor below.\<close>

fun set_all ::
  "(ptr \<Rightarrow> string) \<Rightarrow> goc_dict \<Rightarrow> (ptr \<times> ptr) list \<Rightarrow> goc_heap \<Rightarrow> (goc_dict \<times> goc_heap) out" where
  "set_all mem d [] h = Some (Inr (d, h))"
| "set_all mem d ((key, val) # kvs) h =
     obind (goc_dict_set mem d key val h) (\<lambda>(d1, h1). set_all mem d1 kvs h1)"

definition goc_dict_of_impl ::
  "(ptr \<Rightarrow> string) \<Rightarrow> (ptr \<times> ptr) list \<Rightarrow> goc_heap \<Rightarrow> (goc_dict \<times> goc_heap) out" where
  "goc_dict_of_impl mem kvs h =
     obind (goc_dict_make_internal (length kvs) h) (\<lambda>(d, h1). set_all mem d kvs h1)"

fun from_entries_loop ::
  "(ptr \<Rightarrow> string) \<Rightarrow> goc_array \<Rightarrow> nat list \<Rightarrow> goc_dict \<Rightarrow> goc_heap \<Rightarrow> (goc_dict \<times> goc_heap) out" where
  "from_entries_loop mem es [] d h = Some (Inr (d, h))"
| "from_entries_loop mem es (i # is) d h =
     obind (Some (goc_array_get es i h)) (\<lambda>e.
     case entries h e of
       None \<Rightarrow> Some (Inl OutOfBounds)
     | Some (key, val) \<Rightarrow>
         obind (goc_dict_set mem d key val h) (\<lambda>(d1, h1). from_entries_loop mem es is d1 h1))"

definition goc_dict_from_entries ::
  "(ptr \<Rightarrow> string) \<Rightarrow> goc_array \<Rightarrow> goc_heap \<Rightarrow> (goc_dict \<times> goc_heap) out" where
  "goc_dict_from_entries mem es h =
     obind (goc_dict_make_internal (goc_array_len es) h) (\<lambda>(d, h1).
     from_entries_loop mem es [0..<goc_array_len es] d h1)"

text \<open>Each pair of \<open>_goc_dict_of_boxed_impl\<close> is a key pointer and the bytes of its value.\<close>

fun set_boxed_all ::
  "(ptr \<Rightarrow> string) \<Rightarrow> nat \<Rightarrow> goc_boxed_type \<Rightarrow> goc_dict \<Rightarrow> (ptr \<times> string) list \<Rightarrow> goc_heap
   \<Rightarrow> (goc_dict \<times> goc_heap) out" where
  "set_boxed_all mem elem_size ty d [] h = Some (Inr (d, h))"
| "set_boxed_all mem elem_size ty d ((key, bytes) # kvs) h =
     obind (Some (goc_box_impl bytes elem_size ty h)) (\<lambda>(boxed, h1).
     obind (goc_dict_set mem d key boxed h1) (\<lambda>(d2, h2). set_boxed_all mem elem_size ty d2 kvs h2))"

definition goc_dict_of_boxed_impl ::
  "(ptr \<Rightarrow> string) \<Rightarrow> nat \<Rightarrow> goc_boxed_type \<Rightarrow> (ptr \<times> string) list \<Rightarrow> goc_heap
   \<Rightarrow> (goc_dict \<times> goc_heap) out" where
  "goc_dict_of_boxed_impl mem elem_size ty kvs h =
     obind (goc_dict_make_internal (length kvs) h) (\<lambda>(d, h1). set_boxed_all mem elem_size ty d kvs h1)"

fun merge_keys ::
  "(ptr \<Rightarrow> string) \<Rightarrow> goc_dict \<Rightarrow> nat list \<Rightarrow> goc_dict \<Rightarrow> goc_heap \<Rightarrow> (goc_dict \<times> goc_heap) out" where
  "merge_keys mem source [] merged h = Some (Inr (merged, h))"
| "merge_keys mem source (j # js) merged h =
     obind (Some (goc_array_get (dkeys source) j h)) (\<lambda>key.
     if key = NULL then merge_keys mem source js merged h
     else obind (goc_dict_probe mem source (mem key)) (\<lambda>slot.
          obind (Some (goc_dict_is_live_slot source slot)) (\<lambda>is_live.
          if \<not> is_live then merge_keys mem source js merged h
          else obind (Some (lread (dtable source) slot)) (\<lambda>val.
               obind (goc_dict_set mem merged key val h) (\<lambda>(m, h1).
               merge_keys mem source js m h1)))))"

fun merge_dicts ::
  "(ptr \<Rightarrow> string) \<Rightarrow> goc_dict list \<Rightarrow> goc_dict \<Rightarrow> goc_heap \<Rightarrow> (goc_dict \<times> goc_heap) out" where
  "merge_dicts mem [] merged h = Some (Inr (merged, h))"
| "merge_dicts mem (s # ss) merged h =
     obind (merge_keys mem s [0..<goc_array_len (dkeys s)] merged h) (\<lambda>(m, h1).
     merge_dicts mem ss m h1)"

definition goc_dict_merge_many ::
  "(ptr \<Rightarrow> string) \<Rightarrow> goc_dict list \<Rightarrow> goc_heap \<Rightarrow> (goc_dict \<times> goc_heap) out" where
  "goc_dict_merge_many mem dicts h =
     (case dicts of
        [] \<Rightarrow> goc_dict_make_internal 0 h
      | d # ds \<Rightarrow> obind (goc_dict_copy d h) (\<lambda>(m, h1). merge_dicts mem ds m h1))"

definition goc_dict_zip_c ::
  "(ptr \<Rightarrow> string) \<Rightarrow> ptr list \<Rightarrow> ptr list \<Rightarrow> goc_heap \<Rightarrow> (goc_dict \<times> goc_heap) out" where
  "goc_dict_zip_c mem keys vals h =
     obind (goc_dict_make_internal (length keys) h) (\<lambda>(d, h1). set_all mem d (zip keys vals) h1)"

fun zip_loop ::
  "(ptr \<Rightarrow> string) \<Rightarrow> goc_array \<Rightarrow> goc_array \<Rightarrow> nat list \<Rightarrow> goc_dict \<Rightarrow> goc_heap
   \<Rightarrow> (goc_dict \<times> goc_heap) out" where
  "zip_loop mem keys vals [] d h = Some (Inr (d, h))"
| "zip_loop mem keys vals (i # is) d h =
     obind (Some (goc_array_get keys i h)) (\<lambda>key.
     obind (Some (goc_array_get vals i h)) (\<lambda>val.
     obind (goc_dict_set mem d key val h) (\<lambda>(d1, h1). zip_loop mem keys vals is d1 h1)))"

definition goc_dict_zip_impl ::
  "(ptr \<Rightarrow> string) \<Rightarrow> goc_array \<Rightarrow> goc_array \<Rightarrow> goc_heap \<Rightarrow> (goc_dict \<times> goc_heap) out" where
  "goc_dict_zip_impl mem keys vals h =
     (let n_keys = goc_array_len keys; n_vals = goc_array_len vals in
      if n_keys \<noteq> n_vals then Some (Inl (Abort ''goc_dict_zip: key/value length mismatch''))
      else obind (goc_dict_make_internal n_keys h) (\<lambda>(d, h1).
           zip_loop mem keys vals [0..<n_keys] d h1))"

section \<open>The association list a dictionary represents\<close>

text \<open>
  \<open>al\<close> lists the live entries, key pointer and value, oldest key first. The two tables hold
  exactly these pairs, the key array lists their keys with null pointers in between, and the
  counters agree.
\<close>

definition dict_rel :: "(ptr \<Rightarrow> string) \<Rightarrow> goc_heap \<Rightarrow> goc_dict \<Rightarrow> (ptr \<times> ptr) list \<Rightarrow> bool" where
  "dict_rel mem h d al \<longleftrightarrow>
     table_ok mem (dtable_cap d) (dtable_keys d) \<and> length (dtable d) = dtable_cap d
     \<and> doccupied d = occ (dtable_keys d) \<and> has_null (dtable_keys d)
     \<and> pairs (dtable_keys d) (dtable d) = set al
     \<and> arr_inv h (dkeys d) \<and> filter (\<lambda>p. p \<noteq> NULL) (arr_list h (dkeys d)) = map fst al
     \<and> distinct (map (\<lambda>e. mem (fst e)) al) \<and> dlen d = length al"

text \<open>The table's capacity and what the load leaves to pay for the next doubling.\<close>

definition tab_pot :: "goc_dict \<Rightarrow> nat" where
  "tab_pot d = dtable_cap d + 4 * (doccupied d - dtable_cap d div 2)"

definition dict_able ::
  "(ptr \<Rightarrow> string) \<Rightarrow> nat \<Rightarrow> goc_dict \<times> goc_heap \<Rightarrow> (ptr \<times> ptr) list \<Rightarrow> bool" where
  "dict_able mem n = (\<lambda>(d, h) al. dict_rel mem h d al \<and> push_able n (dkeys d, h)
     \<and> tab_pot d + 4 * n < 2 ^ 60)"

definition al_lookup :: "(ptr \<Rightarrow> string) \<Rightarrow> (ptr \<times> ptr) list \<Rightarrow> string \<Rightarrow> ptr option" where
  "al_lookup mem al key = map_of (map (\<lambda>(p, v). (mem p, v)) al) key"

definition al_set :: "(ptr \<Rightarrow> string) \<Rightarrow> (ptr \<times> ptr) list \<Rightarrow> ptr \<Rightarrow> ptr \<Rightarrow> (ptr \<times> ptr) list" where
  "al_set mem al key val =
     (if al_lookup mem al (mem key) = None then al @ [(key, val)]
      else map (\<lambda>(q, w). (q, if mem q = mem key then val else w)) al)"

definition al_pop :: "(ptr \<Rightarrow> string) \<Rightarrow> (ptr \<times> ptr) list \<Rightarrow> string \<Rightarrow> (ptr \<times> ptr) list" where
  "al_pop mem al key = filter (\<lambda>(q, w). mem q \<noteq> key) al"

section \<open>Lemmas\<close>

lemma al_lookup_None: "al_lookup mem al key = None \<longleftrightarrow> key \<notin> (\<lambda>e. mem (fst e)) ` set al"
  by (auto simp: al_lookup_def map_of_eq_None_iff image_iff)

lemma al_lookup_Some:
  "distinct (map (\<lambda>e. mem (fst e)) al) \<Longrightarrow>
   al_lookup mem al key = Some v \<longleftrightarrow> (\<exists>p. (p, v) \<in> set al \<and> mem p = key)"
  unfolding al_lookup_def
  by (subst map_of_eq_Some_iff) (auto simp: comp_def case_prod_unfold intro: rev_image_eqI)

lemma dict_relD:
  assumes "dict_rel mem h d al"
  shows "table_ok mem (dtable_cap d) (dtable_keys d)" "has_null (dtable_keys d)"
    "length (dtable_keys d) = dtable_cap d" "length (dtable d) = dtable_cap d"
    "pairs (dtable_keys d) (dtable d) = set al" "distinct (map (\<lambda>e. mem (fst e)) al)"
    "arr_inv h (dkeys d)" "filter (\<lambda>p. p \<noteq> NULL) (arr_list h (dkeys d)) = map fst al"
    "dlen d = length al" "doccupied d = occ (dtable_keys d)"
  using assms by (auto simp: dict_rel_def table_ok_def)

lemma dict_capE:
  assumes "dict_rel mem h d al"
  obtains k where "3 \<le> k" "k \<le> 60" "dtable_cap d = 2 ^ k"
  using assms by (auto simp: dict_rel_def table_ok_def)

text \<open>Probing finds the key's entry or a slot for it.\<close>

lemma dict_probe:
  assumes rel: "dict_rel mem h d al"
  obtains (hit) slot where "goc_dict_probe mem d key = Some (Inr slot)" "slot < dtable_cap d"
      "live (dtable_keys d ! slot)" "mem (dtable_keys d ! slot) = key"
      "(dtable_keys d ! slot, dtable d ! slot) \<in> set al"
      "al_lookup mem al key = Some (dtable d ! slot)"
  | (miss) slot where "goc_dict_probe mem d key = Some (Inr slot)" "slot < dtable_cap d"
      "\<not> live (dtable_keys d ! slot)"
      "reach (dtable_keys d) (dtable_cap d) (goc_dict_hash key (dtable_cap d)) slot"
      "\<not> (\<exists>i < dtable_cap d. matches mem key (dtable_keys d ! i))"
      "al_lookup mem al key = None"
proof -
  note D = dict_relD [OF rel]
  obtain slot where slot: "slot < dtable_cap d"
    "probe_table mem (dtable_keys d) (dtable_cap d) key = Some (Inr slot)"
    "\<And>i. \<lbrakk>i < dtable_cap d; matches mem key (dtable_keys d ! i)\<rbrakk> \<Longrightarrow> slot = i"
    "\<not> (\<exists>i < dtable_cap d. matches mem key (dtable_keys d ! i)) \<Longrightarrow>
       \<not> live (dtable_keys d ! slot) \<and> reach (dtable_keys d) (dtable_cap d) (goc_dict_hash key (dtable_cap d)) slot"
    by (rule probe_ok [OF D(1,2), of key]) (rule that)
  have pr: "goc_dict_probe mem d key = Some (Inr slot)"
    by (simp add: goc_dict_probe_def slot(2))
  show ?thesis
  proof (cases "\<exists>i < dtable_cap d. matches mem key (dtable_keys d ! i)")
    case True
    then have m: "matches mem key (dtable_keys d ! slot)" using slot(3) by blast
    have e: "(dtable_keys d ! slot, dtable d ! slot) \<in> set al"
      using D(5) [symmetric] D(3) slot(1) m by (auto simp: pairs_def)
    moreover have "al_lookup mem al key = Some (dtable d ! slot)"
      using al_lookup_Some [OF D(6)] e m by blast
    ultimately show ?thesis using m by (intro hit [OF pr slot(1)]) simp_all
  next
    case False
    have "key \<notin> (\<lambda>e. mem (fst e)) ` set al"
    proof
      assume "key \<in> (\<lambda>e. mem (fst e)) ` set al"
      then obtain p v where "(p, v) \<in> pairs (dtable_keys d) (dtable d)" "mem p = key"
        using D(5) by auto
      with False D(3) show False by (auto simp: pairs_def)
    qed
    then have "al_lookup mem al key = None" by (simp add: al_lookup_None)
    then show ?thesis using slot(4) [OF False] by (intro miss [OF pr slot(1) _ _ False]) simp_all
  qed
qed

lemma dict_key_live:
  assumes "dict_rel mem h d al" "(p, v) \<in> set al"
  shows "live p"
proof -
  have "(p, v) \<in> pairs (dtable_keys d) (dtable d)" using assms(2) dict_relD(5) [OF assms(1)] by simp
  then show ?thesis by (auto simp: pairs_def)
qed

lemma lives_al:
  assumes rel: "dict_rel mem h d al"
  shows "lives (dtable_keys d) = length al"
proof -
  note D = dict_relD [OF rel]
  let ?tk = "dtable_keys d"
  let ?I = "{i. i < length ?tk \<and> live (?tk ! i)}"
  have inj: "inj_on (\<lambda>i. (?tk ! i, dtable d ! i)) ?I"
    using D(1,3) by (auto simp: inj_on_def table_ok_def)
  have "pairs ?tk (dtable d) = (\<lambda>i. (?tk ! i, dtable d ! i)) ` ?I" by (auto simp: pairs_def)
  then have "card (set al) = card ?I" using D(5) card_image [OF inj] by simp
  moreover have "distinct al" using D(6) by (simp add: distinct_map)
  ultimately show ?thesis by (simp add: lives_def length_filter_conv_card distinct_card)
qed

text \<open>Lookup, membership and length.\<close>

lemma dict_get_ok:
  assumes rel: "dict_rel mem h d al"
  shows "goc_dict_get mem d key nf
           = Some (Inr (case al_lookup mem al key of None \<Rightarrow> nf | Some v \<Rightarrow> v))"
  using dict_relD(3,4) [OF rel]
  by (cases rule: dict_probe [OF rel, of key]) (auto simp: goc_dict_get_def live_def)

lemma dict_contains_ok:
  assumes rel: "dict_rel mem h d al"
  shows "goc_dict_contains mem d key = Some (Inr (al_lookup mem al key \<noteq> None))"
  using dict_relD(3) [OF rel]
  by (cases rule: dict_probe [OF rel, of key]) (auto simp: goc_dict_contains_def live_def)

subsection \<open>Rehashing\<close>

lemma alloc_table_ok:
  "\<lbrakk>gc_serves h; cap < 2 ^ 61\<rbrakk> \<Longrightarrow>
   goc_dict_alloc_table cap h = Inr (replicate cap NULL, h\<lparr>allocs := Suc (allocs h)\<rparr>)"
  "\<lbrakk>gc_serves h; cap < 2 ^ 61\<rbrakk> \<Longrightarrow>
   goc_dict_alloc_keys cap h = Inr (replicate cap NULL, h\<lparr>allocs := Suc (allocs h)\<rparr>)"
  by (simp_all add: goc_dict_alloc_table_def goc_dict_alloc_keys_def goc_malloc_serves slots_eq)

lemma pow_less_61: "k \<le> 60 \<Longrightarrow> (2::nat) ^ k < 2 ^ 61"
  by (rule power_strict_increasing) simp_all

lemma dict_rel_allocs [simp]: "dict_rel mem (h\<lparr>allocs := n\<rparr>) d al = dict_rel mem h d al"
  by (simp add: dict_rel_def)

lemma push_able_allocs [simp]: "push_able n (a, h\<lparr>allocs := m\<rparr>) = push_able n (a, h)"
  by (simp add: push_able_def)

lemma rehash_ok:
  assumes rel: "dict_rel mem h d al" and h: "gc_serves h" and cap: "dtable_cap d < 2 ^ 60"
  obtains d' m where
    "goc_dict_rehash mem d (size_mul (dtable_cap d) 2) h = Some (Inr (d', h\<lparr>allocs := m\<rparr>))"
    "dict_rel mem h d' al" "dtable_cap d' = 2 * dtable_cap d" "doccupied d' = length al"
    "dkeys d' = dkeys d"
proof -
  note D = dict_relD [OF rel]
  obtain k where k: "3 \<le> k" "k \<le> 60" "dtable_cap d = 2 ^ k" using rel by (rule dict_capE)
  have "k < 60" using cap k(3) power_less_imp_less_exp [of "2::nat" k 60] by simp
  then have k': "3 \<le> Suc k" "Suc k \<le> 60" using k by simp_all
  define c where "c = (2::nat) ^ Suc k"
  have c: "c = 2 * dtable_cap d" "c < 2 ^ 61" using k(3) cap by (simp_all add: c_def)
  have nc: "size_mul (dtable_cap d) 2 = c" using cap c(1) by (subst size_mul_eq) simp_all
  have lv: "lives (dtable_keys d) = length al" by (rule lives_al [OF rel])
  have "lives (dtable_keys d) \<le> length (dtable_keys d)" by (simp add: lives_def)
  moreover have "0 < dtable_cap d" using k(3) by simp
  ultimately have lt: "lives (dtable_keys d) < c" using D(3) c(1) by linarith
  obtain nk nt where r:
    "rehash_loop mem (dtable_keys d) (dtable d) c [0..<dtable_cap d] (replicate c NULL) (replicate c NULL)
       = Some (Inr (nk, nt))"
    "table_ok mem c nk" "length nt = c" "occ nk = lives (dtable_keys d)"
    "pairs nk nt = pairs (dtable_keys d) (dtable d)"
    by (rule rehash_all_ok [OF D(1,4) k' lt [unfolded c_def], folded c_def])
  define d' where "d' = d\<lparr>dtable := nt, dtable_keys := nk, dtable_cap := c, doccupied := dlen d\<rparr>"
  have "goc_dict_rehash mem d c h = Some (Inr (d', h\<lparr>allocs := Suc (Suc (allocs h))\<rparr>))"
    using h r(1) alloc_table_ok [OF _ c(2)] by (simp add: goc_dict_rehash_def d'_def)
  moreover have "dict_rel mem h d' al"
  proof -
    have "length nk = c" using r(2) by (simp add: table_ok_def)
    then have "has_null nk" using r(4) lt by (simp add: has_null_occ)
    then show ?thesis using r D lv by (simp add: dict_rel_def d'_def)
  qed
  ultimately show ?thesis
    by (intro that [of d' "Suc (Suc (allocs h))", unfolded nc]) (simp_all add: d'_def D(9) c(1))
qed

subsection \<open>Setting\<close>

lemma allocs_self: "h\<lparr>allocs := allocs h\<rparr> = (h :: goc_heap)"
  by simp

text \<open>The load check of \<open>goc_dict_set\<close> leaves a table with two empty slots at least.\<close>

lemma set_pre:
  assumes able: "dict_able mem (Suc n) (d, h) al"
  obtains d1 m where
    "(if size_mul (doccupied d) 4 > size_mul (dtable_cap d) 3
      then goc_dict_rehash mem d (size_mul (dtable_cap d) 2) h
      else Some (Inr (d, h))) = Some (Inr (d1, h\<lparr>allocs := m\<rparr>))"
    "dict_rel mem h d1 al" "dkeys d1 = dkeys d" "tab_pot d1 \<le> tab_pot d"
    "Suc (doccupied d1) < dtable_cap d1"
proof -
  have rel: "dict_rel mem h d al" and gc: "gc_serves h" and pot: "tab_pot d < 2 ^ 60"
    using able heap_goodD(2) by (auto simp: dict_able_def push_able_def)
  note D = dict_relD [OF rel]
  obtain k where k: "3 \<le> k" "dtable_cap d = 2 ^ k" using rel by (rule dict_capE)
  obtain j where "k = Suc j" using k(1) by (cases k) auto
  then have even: "4 * (dtable_cap d div 2) = 2 * dtable_cap d" using k(2) by simp
  have "(2::nat) ^ 3 \<le> 2 ^ k" using k(1) by (rule power_increasing) simp
  then have cap8: "8 \<le> dtable_cap d" using k(2) by simp
  have cap60: "dtable_cap d < 2 ^ 60" using pot by (simp add: tab_pot_def)
  have occ_le: "doccupied d \<le> dtable_cap d"
    using D(2,3,10) by (simp add: has_null_occ)
  have mul: "size_mul (doccupied d) 4 = doccupied d * 4" "size_mul (dtable_cap d) 3 = dtable_cap d * 3"
    using cap60 occ_le by (simp_all add: size_arith)
  show ?thesis
  proof (cases "doccupied d * 4 > dtable_cap d * 3")
    case False
    then show ?thesis
      using that [of d "allocs h"] rel cap8 by (simp add: mul allocs_self)
  next
    case True
    obtain d' m where r:
      "goc_dict_rehash mem d (size_mul (dtable_cap d) 2) h = Some (Inr (d', h\<lparr>allocs := m\<rparr>))"
      "dict_rel mem h d' al" "dtable_cap d' = 2 * dtable_cap d" "doccupied d' = length al"
      "dkeys d' = dkeys d"
      by (rule rehash_ok [OF rel gc cap60])
    have "lives (dtable_keys d) \<le> length (dtable_keys d)" by (simp add: lives_def)
    then have len: "length al \<le> dtable_cap d" using lives_al [OF rel] D(3) by simp
    have "tab_pot d' = 2 * dtable_cap d" using r(3,4) len by (simp add: tab_pot_def)
    also have "\<dots> \<le> tab_pot d" using True even by (simp add: tab_pot_def diff_mult_distrib2)
    finally show ?thesis using that [of d' m] r len cap8 True by (simp add: mul)
  qed
qed

lemma al_set_hit:
  assumes "distinct (map (\<lambda>e. mem (fst e)) al)" "(p, w) \<in> set al" "mem p = mem key"
  shows "set (al_set mem al key val) = insert (p, val) (set al - {(p, w)})"
proof -
  have some: "al_lookup mem al (mem key) = Some w"
    using al_lookup_Some [OF assms(1)] assms(2,3) by blast
  have only: "q = p \<and> u = w" if "(q, u) \<in> set al" "mem q = mem key" for q u
    using assms that inj_onD [of "\<lambda>e. mem (fst e)" "set al" "(q, u)" "(p, w)"]
    by (auto simp: distinct_map)
  have upd: "(case e of (q, u) \<Rightarrow> (q, if mem q = mem key then val else u))
      = (if e = (p, w) then (p, val) else e)" if "e \<in> set al" for e
  proof (cases "mem (fst e) = mem key")
    case True
    then have "e = (p, w)" using only [of "fst e" "snd e"] that by (cases e) simp
    then show ?thesis using assms(3) by simp
  next
    case False
    then have "e \<noteq> (p, w)" using assms(3) by auto
    with False show ?thesis by (cases e) auto
  qed
  have "set (al_set mem al key val) = (\<lambda>e. if e = (p, w) then (p, val) else e) ` set al"
    unfolding al_set_def some by (simp add: upd cong: image_cong)
  then show ?thesis using assms(2) by auto
qed

lemma set_hit:
  assumes rel: "dict_rel mem h d al" and slot: "slot < dtable_cap d" "live (dtable_keys d ! slot)"
    "mem (dtable_keys d ! slot) = mem key" "(dtable_keys d ! slot, dtable d ! slot) \<in> set al"
    and lk: "al_lookup mem al (mem key) = Some (dtable d ! slot)"
  shows "dict_rel mem h (d\<lparr>dtable := (dtable d)[slot := val]\<rparr>) (al_set mem al key val)"
proof -
  note D = dict_relD [OF rel]
  have "pairs (dtable_keys d) ((dtable d)[slot := val])
      = insert (dtable_keys d ! slot, val) (set al - {(dtable_keys d ! slot, dtable d ! slot)})"
    using pairs_overwrite [of slot "dtable_keys d" mem "dtable_cap d" "dtable d" val] slot D by simp
  also have "\<dots> = set (al_set mem al key val)" using al_set_hit [OF D(6) slot(4,3)] by simp
  finally have "pairs (dtable_keys d) ((dtable d)[slot := val]) = set (al_set mem al key val)" .
  moreover have "map fst (al_set mem al key val) = map fst al"
    by (auto simp: al_set_def lk)
  moreover from this have "map (\<lambda>e. mem (fst e)) (al_set mem al key val) = map (\<lambda>e. mem (fst e)) al"
    by (metis (no_types, lifting) list.map_comp comp_def map_eq_conv)
  moreover have "length (al_set mem al key val) = length al" by (simp add: al_set_def lk)
  ultimately show ?thesis using D by (simp add: dict_rel_def)
qed

lemma set_miss:
  assumes rel: "dict_rel mem h d al" and slot: "slot < dtable_cap d" "\<not> live (dtable_keys d ! slot)"
    "reach (dtable_keys d) (dtable_cap d) (goc_dict_hash (mem key) (dtable_cap d)) slot"
    "\<not> (\<exists>i < dtable_cap d. matches mem (mem key) (dtable_keys d ! i))"
    and lk: "al_lookup mem al (mem key) = None" and key: "live key"
    and room: "Suc (doccupied d) < dtable_cap d"
    and ks: "arr_inv h' ks" "arr_list h' ks = arr_list h (dkeys d) @ [key]"
  shows "dict_rel mem h' (d\<lparr>dtable := (dtable d)[slot := val], dtable_keys := (dtable_keys d)[slot := key],
            dkeys := ks, dlen := Suc (dlen d),
            doccupied := (if dtable_keys d ! slot = NULL then Suc (doccupied d) else doccupied d)\<rparr>)
          (al_set mem al key val)"
proof -
  note D = dict_relD [OF rel]
  have kn: "key \<noteq> NULL" using key by (simp add: live_def)
  have al: "al_set mem al key val = al @ [(key, val)]" by (simp add: al_set_def lk)
  have tok: "table_ok mem (dtable_cap d) ((dtable_keys d)[slot := key])"
    by (rule table_insert [OF D(1) slot(1,3) key slot(4)])
  have pr: "pairs ((dtable_keys d)[slot := key]) ((dtable d)[slot := val]) = set (al @ [(key, val)])"
    using pairs_insert [of slot "dtable_keys d" key "dtable d" val] slot(1,2) key D(3,4,5) by simp
  have oc: "occ ((dtable_keys d)[slot := key])
      = (if dtable_keys d ! slot = NULL then Suc (doccupied d) else doccupied d)"
    using occ_fill [of slot "dtable_keys d" key] occ_replace [of slot "dtable_keys d" key]
      slot(1) kn D(3,10) by simp
  have nul: "has_null ((dtable_keys d)[slot := key])"
    using oc room D(3) by (simp add: has_null_occ)
  have "mem key \<notin> (\<lambda>e. mem (fst e)) ` set al" using lk by (simp add: al_lookup_None)
  then have dis: "distinct (map (\<lambda>e. mem (fst e)) (al @ [(key, val)]))" using D(6) by simp
  show ?thesis
    unfolding al using tok pr oc nul dis ks kn D by (simp add: dict_rel_def)
qed

lemma dict_set_ok:
  assumes able: "dict_able mem (Suc n) (d, h) al" and key: "live key"
  shows "\<exists>d' h'. goc_dict_set mem d key val h = Some (Inr (d', h'))
     \<and> dict_able mem n (d', h') (al_set mem al key val) \<and> frame {adata (dkeys d)} h h'
     \<and> (adata (dkeys d') = adata (dkeys d) \<or> adata (dkeys d') = next_buf h)
     \<and> alen (dkeys d') \<le> Suc (alen (dkeys d)) \<and> tab_pot d' \<le> tab_pot d + 4"
proof -
  obtain d1 m where pre: "(if size_mul (doccupied d) 4 > size_mul (dtable_cap d) 3
      then goc_dict_rehash mem d (size_mul (dtable_cap d) 2) h
      else Some (Inr (d, h))) = Some (Inr (d1, h\<lparr>allocs := m\<rparr>))"
    "dict_rel mem h d1 al" "dkeys d1 = dkeys d" "tab_pot d1 \<le> tab_pot d"
    "Suc (doccupied d1) < dtable_cap d1" by (rule set_pre [OF able])
  define h1 where "h1 = h\<lparr>allocs := m\<rparr>"
  have pa: "push_able (Suc n) (dkeys d1, h1)" and pot: "tab_pot d1 + 4 * Suc n < 2 ^ 60"
    using able pre(3,4) by (simp_all add: dict_able_def h1_def)
  have rel1: "dict_rel mem h1 d1 al" using pre(2) by (simp add: h1_def)
  note D = dict_relD [OF rel1]
  show ?thesis
  proof (cases rule: dict_probe [OF rel1, of "mem key"])
    case (1 slot)
    let ?d = "d1\<lparr>dtable := (dtable d1)[slot := val]\<rparr>"
    have "goc_dict_set mem d key val h = Some (Inr (?d, h1))"
      unfolding goc_dict_set_def pre(1) h1_def [symmetric]
      using 1 D(3,4) by (simp add: live_def)
    moreover have "dict_rel mem h1 ?d (al_set mem al key val)"
      by (rule set_hit [OF rel1 1(2-6)])
    then have "dict_able mem n (?d, h1) (al_set mem al key val)"
      using pa pot by (simp add: dict_able_def push_able_def tab_pot_def)
    moreover have "frame {adata (dkeys d)} h h1" by (simp add: h1_def)
    moreover have "tab_pot ?d \<le> tab_pot d + 4" using pre(4) by (simp add: tab_pot_def)
    ultimately show ?thesis using pre(3) by (intro exI [of _ ?d] exI [of _ h1]) simp
  next
    case (2 slot)
    obtain ks h2 where p: "goc_array_push (dkeys d1) key h1 = Inr (ks, h2)" "push_able n (ks, h2)"
      "arr_list h2 ks = arr_list h1 (dkeys d1) @ [key]" "frame {adata (dkeys d1)} h1 h2"
      "adata ks = adata (dkeys d1) \<or> adata ks = next_buf h1" "alen ks = Suc (alen (dkeys d1))"
      by (rule push_able_push [OF pa])
    let ?d = "d1\<lparr>dtable := (dtable d1)[slot := val], dtable_keys := (dtable_keys d1)[slot := key],
            dkeys := ks, dlen := Suc (dlen d1),
            doccupied := (if dtable_keys d1 ! slot = NULL then Suc (doccupied d1) else doccupied d1)\<rparr>"
    have bounds: "dlen d1 < 2 ^ 60" "doccupied d1 < 2 ^ 60"
    proof -
      have "dtable_cap d1 < 2 ^ 60" using pot by (simp add: tab_pot_def)
      moreover have "lives (dtable_keys d1) \<le> length (dtable_keys d1)" by (simp add: lives_def)
      ultimately show "dlen d1 < 2 ^ 60" "doccupied d1 < 2 ^ 60"
        using lives_al [OF rel1] D(3,9) pre(5) by simp_all
    qed
    have "goc_dict_set mem d key val h = Some (Inr (?d, h2))"
      unfolding goc_dict_set_def pre(1) h1_def [symmetric]
      using 2(1-3) D(3,4) p(1) bounds by (auto simp: live_def size_arith)
    moreover have "dict_rel mem h2 ?d (al_set mem al key val)"
      by (rule set_miss [OF rel1 2(2-6) key pre(5) _ p(3)]) (use p(2) in \<open>simp add: push_able_def\<close>)
    moreover have "tab_pot ?d \<le> tab_pot d1 + 4" by (simp add: tab_pot_def) arith
    ultimately show ?thesis
      using p(2,4-6) pot pre(3,4)
      by (intro exI [of _ ?d] exI [of _ h2]) (simp add: dict_able_def h1_def frame_def)
  qed
qed

subsection \<open>Removing\<close>

lemma pop_scan_eq:
  assumes inv: "arr_inv h ks" and i: "j \<le> i" "i < alen ks" "arr_list h ks ! i = c"
    and before: "\<forall>k. j \<le> k \<and> k < i \<longrightarrow> arr_list h ks ! k \<noteq> c"
  shows "pop_scan ks c [j..<alen ks] h = goc_array_set ks i NULL h"
  using i(1) before
proof (induction "i - j" arbitrary: j)
  case 0
  then have "j = i" by simp
  then show ?case using get_ok [OF inv i(2)] i(2,3) by (simp add: upt_conv_Cons)
next
  case (Suc n)
  have j: "j < i" using Suc.hyps(2) by simp
  then have "pop_scan ks c [j..<alen ks] h = pop_scan ks c [Suc j..<alen ks] h"
    using get_ok [OF inv, of j] i(2) Suc.prems(2) by (simp add: upt_conv_Cons)
  then show ?case using Suc.hyps(1) [of "Suc j"] Suc.hyps(2) Suc.prems(2) j by simp
qed

lemma filter_null_split:
  assumes "c \<noteq> NULL" "distinct (filter (\<lambda>p. p \<noteq> NULL) (ys @ c # zs))"
  shows "filter (\<lambda>p. p \<noteq> NULL) (ys @ NULL # zs)
           = filter (\<lambda>p. p \<noteq> c) (filter (\<lambda>p. p \<noteq> NULL) (ys @ c # zs))"
proof -
  have "c \<notin> set ys" "c \<notin> set zs" using assms by auto
  then have "filter (\<lambda>p. p \<noteq> NULL \<and> p \<noteq> c) ys = filter (\<lambda>p. p \<noteq> NULL) ys"
    "filter (\<lambda>p. p \<noteq> NULL \<and> p \<noteq> c) zs = filter (\<lambda>p. p \<noteq> NULL) zs"
    by (auto intro: filter_cong)
  then show ?thesis by simp
qed

lemma filter_null_out:
  assumes "i < length xs" "xs ! i = c" "c \<noteq> NULL" "distinct (filter (\<lambda>p. p \<noteq> NULL) xs)"
  shows "filter (\<lambda>p. p \<noteq> NULL) (xs[i := NULL]) = filter (\<lambda>p. p \<noteq> c) (filter (\<lambda>p. p \<noteq> NULL) xs)"
  using filter_null_split [OF assms(3), of "take i xs" "drop (Suc i) xs"] assms(2,4)
    id_take_nth_drop [OF assms(1)] upd_conv_take_nth_drop [OF assms(1), of NULL] by metis

lemma al_pop_hit:
  assumes "distinct (map (\<lambda>e. mem (fst e)) al)" "(p, w) \<in> set al" "mem p = key"
  shows "set (al_pop mem al key) = set al - {(p, w)}" "map fst (al_pop mem al key) = filter (\<lambda>q. q \<noteq> p) (map fst al)"
    "Suc (length (al_pop mem al key)) = length al"
proof -
  have inj: "inj_on (\<lambda>e. mem (fst e)) (set al)" and d: "distinct al"
    using assms(1) by (simp_all add: distinct_map)
  have iff: "(mem (fst e) \<noteq> key) = (e \<noteq> (p, w))" if "e \<in> set al" for e
    using inj_onD [OF inj, of e "(p, w)"] that assms(2,3) by auto
  have iff2: "(fst e \<noteq> p) = (e \<noteq> (p, w))" if "e \<in> set al" for e
    using iff [OF that] assms(3) by auto
  have eq: "al_pop mem al key = filter (\<lambda>e. e \<noteq> (p, w)) al"
    unfolding al_pop_def using iff by (intro filter_cong) (auto simp: case_prod_unfold)
  show "set (al_pop mem al key) = set al - {(p, w)}" unfolding eq by auto
  have "filter (\<lambda>q. q \<noteq> p) (map fst al) = map fst (filter (\<lambda>e. fst e \<noteq> p) al)"
    by (simp add: filter_map comp_def)
  also have "filter (\<lambda>e. fst e \<noteq> p) al = filter (\<lambda>e. e \<noteq> (p, w)) al"
    using iff2 by (intro filter_cong) auto
  finally show "map fst (al_pop mem al key) = filter (\<lambda>q. q \<noteq> p) (map fst al)" using eq by simp
  have "length (filter (\<lambda>e. e \<noteq> (p, w)) al) = card (set al - {(p, w)})"
    using d by (metis distinct_card distinct_filter filter_set set_minus_filter_out set_filter)
  then show "Suc (length (al_pop mem al key)) = length al"
    unfolding eq by (simp only: card_Suc_Diff1 [OF finite_set assms(2)] distinct_card [OF d])
qed

lemma al_pop_miss: "al_lookup mem al key = None \<Longrightarrow> al_pop mem al key = al"
  unfolding al_lookup_None al_pop_def by (force simp: filter_id_conv)

lemma dict_pop_ok:
  assumes able: "dict_able mem n (d, h) al"
  shows "\<exists>d' h'. goc_dict_pop mem d key nf h
       = Some (Inr (case al_lookup mem al key of None \<Rightarrow> nf | Some v \<Rightarrow> v, d', h'))
     \<and> dict_able mem n (d', h') (al_pop mem al key) \<and> frame {adata (dkeys d)} h h'"
proof -
  have rel: "dict_rel mem h d al" and pa: "push_able n (dkeys d, h)"
    using able by (simp_all add: dict_able_def)
  have hg: "heap_good h" using pa by (simp add: push_able_def)
  note D = dict_relD [OF rel]
  show ?thesis
  proof (cases rule: dict_probe [OF rel, of key])
    case (2 slot)
    then have "goc_dict_pop mem d key nf h = Some (Inr (nf, d, h))"
      using D(3) by (auto simp: goc_dict_pop_def live_def)
    with 2(6) able show ?thesis by (auto simp: al_pop_miss)
  next
    case (1 slot)
    define c where "c = dtable_keys d ! slot"
    have c: "live c" "c \<noteq> NULL" "mem c = key" "(c, dtable d ! slot) \<in> set al"
      using 1 by (auto simp: c_def live_def)
    let ?xs = "arr_list h (dkeys d)"
    have len: "length ?xs = alen (dkeys d)" by (rule length_arr_list [OF D(7)])
    have "c \<in> set (filter (\<lambda>p. p \<noteq> NULL) ?xs)" using c(4) D(8) by (metis fst_conv image_eqI image_set)
    then have "\<exists>i. i < length ?xs \<and> ?xs ! i = c" by (simp add: in_set_conv_nth)
    then obtain i where i: "i < length ?xs" "?xs ! i = c" "\<forall>k < i. \<not> (k < length ?xs \<and> ?xs ! k = c)"
      using exists_least_iff [of "\<lambda>i. i < length ?xs \<and> ?xs ! i = c"] by blast
    obtain h' where st: "goc_array_set (dkeys d) i NULL h = Inr h'"
      "arr_post h {adata (dkeys d)} (?xs[i := NULL]) (dkeys d, h')"
      using set_ok [OF hg D(7), of i NULL] i(1) len by metis
    have scan: "pop_scan (dkeys d) c [0..<alen (dkeys d)] h = Inr h'"
      using pop_scan_eq [OF D(7), of 0 i c] i len st(1) by auto
    let ?d = "d\<lparr>dtable := (dtable d)[slot := NULL],
               dtable_keys := (dtable_keys d)[slot := GOC_DICT_TOMBSTONE], dlen := dlen d - 1\<rparr>"
    note P = al_pop_hit [OF D(6) c(4,3)]
    have len1: "0 < dlen d" "dlen d < 2 ^ 61"
    proof -
      show "0 < dlen d" using P(3) D(9) by (cases al) auto
      have "length (filter (\<lambda>p. p \<noteq> NULL) ?xs) \<le> length ?xs" by simp
      then have "dlen d \<le> alen (dkeys d)" using D(8,9) len by (metis length_map)
      then show "dlen d < 2 ^ 61" using D(7) by (auto simp: arr_inv_def)
    qed
    have sub: "size_sub (dlen d) (Suc 0) = dlen d - 1" using len1 by (simp add: size_arith)
    have run: "goc_dict_pop mem d key nf h = Some (Inr (dtable d ! slot, ?d, h'))"
      using 1(1,2) c(1,2) D(3,4) scan sub
      by (simp add: goc_dict_pop_def c_def [symmetric] live_def goc_array_len_def)
    have dist: "distinct (filter (\<lambda>p. p \<noteq> NULL) ?xs)"
      using D(6,8) distinct_map [of mem "map fst al"] by (simp add: comp_def)
    have ks: "filter (\<lambda>p. p \<noteq> NULL) (arr_list h' (dkeys d)) = map fst (al_pop mem al key)"
    proof -
      have "arr_list h' (dkeys d) = ?xs[i := NULL]" using st(2) by (simp add: arr_post_def)
      then show ?thesis unfolding P(2) by (simp only: filter_null_out [OF i(1,2) c(2) dist] D(8))
    qed
    have tn: "GOC_DICT_TOMBSTONE \<noteq> NULL" by (simp add: GOC_DICT_TOMBSTONE_def)
    have oc: "occ ((dtable_keys d)[slot := GOC_DICT_TOMBSTONE]) = occ (dtable_keys d)"
      using 1(2) D(3) c(2) tn by (intro occ_replace) (simp_all add: c_def)
    have rel': "dict_rel mem h' ?d (al_pop mem al key)"
      unfolding dict_rel_def
    proof (intro conjI)
      show "table_ok mem (dtable_cap ?d) (dtable_keys ?d)" using table_remove [OF D(1)] by simp
      show "pairs (dtable_keys ?d) (dtable ?d) = set (al_pop mem al key)"
        using pairs_remove [of slot "dtable_keys d" mem "dtable_cap d" "dtable d" NULL] 1(2,3) D P(1)
        by (simp add: c_def)
      show "distinct (map (\<lambda>e. mem (fst e)) (al_pop mem al key))"
        using D(6) by (simp add: al_pop_def distinct_map_filter)
      show "has_null (dtable_keys ?d)" using D(2,3) oc by (simp add: has_null_occ)
      show "dlen ?d = length (al_pop mem al key)" using P(3) D(9) by simp
    qed (use D oc ks st(2) in \<open>simp_all add: arr_post_def\<close>)
    then have "dict_able mem n (?d, h') (al_pop mem al key)"
      using able st(2) by (simp add: dict_able_def push_able_def arr_post_def tab_pot_def)
    with run 1(6) st(2) show ?thesis by (auto simp: arr_post_def)
  qed
qed

end
