(* ===== verification/Goc_Dict_Ops.thy ===== *)
theory Goc_Dict_Ops
  imports Goc_Dict
begin

text \<open>
  Dictionaries as their clients use them: construction, any sequence of operations against the
  insertion-ordered association list, iteration, copies, merging and the round trip through an
  array of entries.
\<close>

section \<open>Construction\<close>

lemma make_internal_ok:
  assumes h: "heap_good h" and room: "max 8 (2 * c) + 16 * n < 2 ^ 60"
  obtains d h' where "goc_dict_make_internal c h = Some (Inr (d, h'))"
    "dict_able mem n (d, h') []" "frame {} h h'" "adata (dkeys d) = next_buf h"
    "goc_dict_round_cap c = Some (dtable_cap d)" "dtable d = replicate (dtable_cap d) NULL"
    "dtable_keys d = replicate (dtable_cap d) NULL" "alen (dkeys d) = 0" "tab_pot d \<le> max 8 (2 * c)"
proof -
  have c: "c \<le> 2 ^ 63" "c < 2 ^ 60" "c < 2 ^ 61" using room by auto
  obtain k where k: "3 \<le> k" "k \<le> 63" "goc_dict_round_cap c = Some (2 ^ k)" "c \<le> 2 ^ k"
    "k = 3 \<or> 2 ^ k < 2 * c" using c(1) by (rule round_cap_ok)
  define cap where "cap = (2::nat) ^ k"
  have cap: "cap \<le> max 8 (2 * c)" using k(5) by (auto simp: cap_def)
  then have cap60: "cap < 2 ^ 60" using room by linarith
  then have "k < 60" using power_less_imp_less_exp [of "2::nat" k 60] by (simp add: cap_def)
  then have k60: "k \<le> 60" by simp
  have cap61: "cap < 2 ^ 61" using cap60 by simp
  define h2 where "h2 = h\<lparr>allocs := Suc (Suc (Suc (allocs h)))\<rparr>"
  have h2: "heap_good h2" "gc_serves h" using h heap_goodD(2) by (simp_all add: h2_def)
  obtain h' where m:
    "goc_array_make c h2 = Inr (\<lparr>adata = next_buf h2, ahead = max 8 c div 4, alen = 0, acap = max 8 c\<rparr>, h')"
    "arr_post h2 {} [] (\<lparr>adata = next_buf h2, ahead = max 8 c div 4, alen = 0, acap = max 8 c\<rparr>, h')"
    "next_buf h' = Suc (next_buf h2)"
    by (rule make_ok [OF h2(1) c(3)])
  define ks where "ks = \<lparr>adata = next_buf h2, ahead = max 8 c div 4, alen = 0, acap = max 8 c\<rparr>"
  define d where "d = \<lparr>dtable = replicate cap NULL, dtable_keys = replicate cap NULL, dtable_cap = cap,
                       doccupied = 0, dkeys = ks, dlen = 0\<rparr>"
  have run: "goc_dict_make_internal c h = Some (Inr (d, h'))"
    using m(1) k(3) h2(2) alloc_table_ok [OF _ cap61]
    by (simp add: goc_dict_make_internal_def goc_malloc_serves cap_def [symmetric] h2_def d_def ks_def)
  have post: "heap_good h'" "arr_inv h' ks" "arr_list h' ks = []" "frame {} h2 h'"
    using m(2) by (simp_all add: arr_post_def ks_def)
  have nul: "has_null (replicate cap NULL)" by (simp add: has_null_occ cap_def)
  have "dict_rel mem h' d []"
    using table_ok_empty [OF k(1) k60] post nul
    by (simp add: dict_rel_def d_def cap_def [symmetric])
  moreover have "push_able n (ks, h')"
  proof -
    define e where "e = max 8 c"
    have "e div 8 \<le> e div 4" "e div 8 \<le> e - e div 4" by linarith+
    then have "push_pot ks = max 8 c"
      by (simp add: ks_def push_pot_def cap_pot_def scarcer_def e_def [symmetric]) (simp add: e_def)
    moreover have "max 8 c \<le> max 8 (2 * c)" by simp
    ultimately show ?thesis using post room by (simp add: push_able_def)
  qed
  moreover have "tab_pot d + 4 * n < 2 ^ 60" using cap room by (simp add: tab_pot_def d_def)
  ultimately have "dict_able mem n (d, h') []" by (simp add: dict_able_def d_def)
  moreover have "frame {} h h'" using post(4) by (simp add: frame_def h2_def)
  ultimately show ?thesis
    using that [OF run] k(3) cap by (simp add: d_def ks_def h2_def cap_def [symmetric] tab_pot_def)
qed

section \<open>Sequences of operations\<close>

datatype dict_op = DSet ptr ptr | DPop string ptr | DGet string ptr | DContains string | DLen

datatype dict_val = VUnit | VPtr ptr | VBool bool | VSize nat

text \<open>The operations on the association list, and the operations of the code.\<close>

fun alist_op ::
  "(ptr \<Rightarrow> string) \<Rightarrow> dict_op \<Rightarrow> (ptr \<times> ptr) list \<Rightarrow> (dict_val \<times> (ptr \<times> ptr) list) option" where
  "alist_op mem (DSet k v) al = Some (VUnit, al_set mem al k v)"
| "alist_op mem (DPop k nf) al =
     Some (VPtr (case al_lookup mem al k of None \<Rightarrow> nf | Some v \<Rightarrow> v), al_pop mem al k)"
| "alist_op mem (DGet k nf) al = Some (VPtr (case al_lookup mem al k of None \<Rightarrow> nf | Some v \<Rightarrow> v), al)"
| "alist_op mem (DContains k) al = Some (VBool (al_lookup mem al k \<noteq> None), al)"
| "alist_op mem DLen al = Some (VSize (length al), al)"

fun dict_exec ::
  "(ptr \<Rightarrow> string) \<Rightarrow> dict_op \<Rightarrow> goc_dict \<times> goc_heap \<Rightarrow> (dict_val \<times> goc_dict \<times> goc_heap) out" where
  "dict_exec mem (DSet k v) (d, h) = obind (goc_dict_set mem d k v h) (\<lambda>s. Some (Inr (VUnit, s)))"
| "dict_exec mem (DPop k nf) (d, h) = obind (goc_dict_pop mem d k nf h) (\<lambda>(v, s). Some (Inr (VPtr v, s)))"
| "dict_exec mem (DGet k nf) (d, h) = obind (goc_dict_get mem d k nf) (\<lambda>v. Some (Inr (VPtr v, d, h)))"
| "dict_exec mem (DContains k) (d, h) = obind (goc_dict_contains mem d k) (\<lambda>b. Some (Inr (VBool b, d, h)))"
| "dict_exec mem DLen (d, h) = Some (Inr (VSize (goc_dict_len d), d, h))"

fun valid_key :: "dict_op \<Rightarrow> bool" where
  "valid_key (DSet k v) = live k"
| "valid_key _ = True"

lemma push_able_mono: "\<lbrakk>push_able m s; n \<le> m\<rbrakk> \<Longrightarrow> push_able n s"
  by (auto simp: push_able_def)

lemma dict_able_mono: "\<lbrakk>dict_able mem m s al; n \<le> m\<rbrakk> \<Longrightarrow> dict_able mem n s al"
  by (auto simp: dict_able_def intro: push_able_mono)

lemma dict_exec_ok:
  assumes "valid_key c" "dict_able mem (Suc n) s al" "alist_op mem c al = Some (v, al')"
  shows "\<exists>s'. dict_exec mem c s = Some (Inr (v, s')) \<and> dict_able mem n s' al'"
proof -
  obtain d h where s: "s = (d, h)" by (cases s)
  have ab: "dict_able mem (Suc n) (d, h) al" "dict_able mem n (d, h) al"
    using assms(2) s dict_able_mono by auto
  have rel: "dict_rel mem h d al" using ab by (simp add: dict_able_def)
  show ?thesis
  proof (cases c)
    case (DSet k w)
    with dict_set_ok [OF ab(1), of k w] assms(1,3) s show ?thesis by auto
  next
    case (DPop k nf)
    with dict_pop_ok [OF ab(2), of k nf] assms(3) s show ?thesis by auto
  next
    case (DGet k nf)
    with dict_get_ok [OF rel, of k nf] assms(3) s ab(2) show ?thesis by auto
  next
    case (DContains k)
    with dict_contains_ok [OF rel, of k] assms(3) s ab(2) show ?thesis by auto
  next
    case DLen
    with assms(3) s ab(2) dict_relD(9) [OF rel] show ?thesis by (auto simp: goc_dict_len_def)
  qed
qed

interpretation dict: op_simulation "dict_able mem" "dict_exec mem" "alist_op mem" valid_key for mem
proof
  fix n s al c v al'
  assume "valid_key c" "dict_able mem (Suc n) s al" "alist_op mem c al = Some (v, al')"
  then show "\<exists>s'. dict_exec mem c s = Some (Inr (v, s')) \<and> dict_able mem n s' al'"
    by (rule dict_exec_ok)
next
  fix n s al c
  assume "alist_op mem c al = None"
  then show "\<exists>msg. dict_exec mem c s = Some (Inl (Abort msg))" by (cases c) auto
qed

section \<open>Setting many keys\<close>

abbreviation al_set_all :: "(ptr \<Rightarrow> string) \<Rightarrow> (ptr \<times> ptr) list \<Rightarrow> (ptr \<times> ptr) list \<Rightarrow> (ptr \<times> ptr) list" where
  "al_set_all mem al kvs \<equiv> foldl (\<lambda>al (k, v). al_set mem al k v) al kvs"

text \<open>The block of a dictionary's key array is the old one or a new one.\<close>

definition moved_to :: "goc_heap \<Rightarrow> goc_dict \<Rightarrow> goc_dict \<Rightarrow> bool" where
  "moved_to h d d' \<longleftrightarrow> adata (dkeys d') = adata (dkeys d) \<or> bufs h (adata (dkeys d')) = None"

lemma frame_then:
  assumes "frame {adata (dkeys d)} h h1" "moved_to h d d1" "frame {adata (dkeys d1)} h1 h2"
    "moved_to h1 d1 d2"
  shows "frame {adata (dkeys d)} h h2" "moved_to h d d2"
proof -
  show "frame {adata (dkeys d)} h h2"
    unfolding frame_def
  proof (intro conjI ballI)
    fix b assume b: "b \<in> dom (bufs h) - {adata (dkeys d)}"
    then have "bufs h1 b = bufs h b" using assms(1) by (auto simp: frame_def)
    moreover from this b have "b \<in> dom (bufs h1) - {adata (dkeys d1)}"
      using assms(2) by (auto simp: moved_to_def)
    then have "bufs h2 b = bufs h1 b" using assms(3) by (auto simp: frame_def)
    ultimately show "bufs h2 b = bufs h b" by simp
  qed (use assms in \<open>auto simp: frame_def\<close>)
  show "moved_to h d d2"
  proof (cases "adata (dkeys d2) = adata (dkeys d1)")
    case True
    then show ?thesis using assms(2) by (simp add: moved_to_def)
  next
    case False
    then have "bufs h1 (adata (dkeys d2)) = None" using assms(4) by (simp add: moved_to_def)
    moreover have "bufs h1 b = bufs h b" if "bufs h b \<noteq> None" "b \<noteq> adata (dkeys d)" for b
      using assms(1) that by (auto simp: frame_def)
    ultimately show ?thesis by (metis moved_to_def)
  qed
qed

lemma set_step:
  assumes "dict_able mem (Suc n) (d, h) al" "live k"
  obtains d' h' where "goc_dict_set mem d k v h = Some (Inr (d', h'))"
    "dict_able mem n (d', h') (al_set mem al k v)" "frame {adata (dkeys d)} h h'" "moved_to h d d'"
    "alen (dkeys d') \<le> Suc (alen (dkeys d))" "tab_pot d' \<le> tab_pot d + 4"
proof -
  obtain d' h' where r: "goc_dict_set mem d k v h = Some (Inr (d', h'))"
    "dict_able mem n (d', h') (al_set mem al k v)" "frame {adata (dkeys d)} h h'"
    "adata (dkeys d') = adata (dkeys d) \<or> adata (dkeys d') = next_buf h"
    "alen (dkeys d') \<le> Suc (alen (dkeys d))" "tab_pot d' \<le> tab_pot d + 4"
    using dict_set_ok [OF assms] by blast
  have "heap_ok h" using assms(1) heap_goodD(1) by (simp add: dict_able_def push_able_def)
  then have "moved_to h d d'" using r(4) heap_ok_fresh by (auto simp: moved_to_def)
  with r that show ?thesis by blast
qed

text \<open>What a loop of settings leaves behind.\<close>

definition dict_post ::
  "(ptr \<Rightarrow> string) \<Rightarrow> nat \<Rightarrow> goc_dict \<Rightarrow> goc_heap \<Rightarrow> (ptr \<times> ptr) list \<Rightarrow> goc_dict \<times> goc_heap \<Rightarrow> bool" where
  "dict_post mem n d h al = (\<lambda>(d', h'). dict_able mem n (d', h') al
     \<and> frame {adata (dkeys d)} h h' \<and> moved_to h d d')"

lemma dict_post_then:
  assumes "frame {adata (dkeys d)} h h1" "moved_to h d d1" "dict_post mem n d1 h1 al s"
  shows "dict_post mem n d h al s"
  using assms frame_then [OF assms(1,2)] by (auto simp: dict_post_def)

lemma dict_post_refl: "dict_able mem n (d, h) al \<Longrightarrow> dict_post mem n d h al (d, h)"
  by (simp add: dict_post_def moved_to_def)

lemma set_all_ok:
  assumes "dict_able mem (length kvs + n) (d, h) al" "list_all (\<lambda>(k, v). live k) kvs"
  shows "\<exists>s. set_all mem d kvs h = Some (Inr s) \<and> dict_post mem n d h (al_set_all mem al kvs) s"
  using assms
proof (induction kvs arbitrary: d h al)
  case Nil
  then show ?case by (simp add: dict_post_refl)
next
  case (Cons kv kvs)
  obtain k v where kv: "kv = (k, v)" by (cases kv)
  have ab: "dict_able mem (Suc (length kvs + n)) (d, h) al" and k: "live k"
    using Cons.prems kv by simp_all
  obtain d1 h1 where r: "goc_dict_set mem d k v h = Some (Inr (d1, h1))"
    "dict_able mem (length kvs + n) (d1, h1) (al_set mem al k v)" "frame {adata (dkeys d)} h h1"
    "moved_to h d d1" by (rule set_step [OF ab k])
  from Cons.IH [OF r(2)] Cons.prems(2) kv obtain s where
    "set_all mem d1 kvs h1 = Some (Inr s)" "dict_post mem n d1 h1 (al_set_all mem (al_set mem al k v) kvs) s"
    by auto
  with r kv dict_post_then [OF r(3,4)] show ?case by simp
qed

section \<open>Iteration\<close>

lemma dict_rel_frame:
  assumes "dict_rel mem h d al" "frame B h h'" "adata (dkeys d) \<notin> B"
  shows "dict_rel mem h' d al"
  using assms frame_arr [OF assms(2) dict_relD(7) [OF assms(1)] assms(3)] by (simp add: dict_rel_def)

lemma dict_slot_of_key:
  assumes rel: "dict_rel mem h d al" and e: "(p, v) \<in> set al"
  obtains slot where "goc_dict_probe mem d (mem p) = Some (Inr slot)"
    "goc_dict_is_live_slot d slot = Inr True" "lread (dtable d) slot = Inr v"
proof -
  note D = dict_relD [OF rel]
  have lk: "al_lookup mem al (mem p) = Some v" using al_lookup_Some [OF D(6)] e by blast
  show ?thesis
  proof (cases rule: dict_probe [OF rel, of "mem p"])
    case (1 slot)
    then show ?thesis using that [of slot] lk D(3,4)
      by (simp add: goc_dict_is_live_slot_def live_def)
  next
    case (2 slot)
    then show ?thesis using lk by simp
  qed
qed

text \<open>
  What an iteration puts into its result for a key and its value: \<open>mk\<close> makes a pointer \<open>p\<close> for
  which \<open>holds h p key val\<close>, and neither another call nor a push breaks it.
\<close>

locale entry_maker =
  fixes mk :: "ptr \<Rightarrow> ptr \<Rightarrow> goc_heap \<Rightarrow> (ptr \<times> goc_heap) res"
    and holds :: "goc_heap \<Rightarrow> ptr \<Rightarrow> ptr \<times> ptr \<Rightarrow> bool"
  assumes mk_ok: "heap_good h \<Longrightarrow> \<exists>p h1. mk key val h = Inr (p, h1) \<and> heap_good h1
      \<and> bufs h1 = bufs h \<and> holds h1 p (key, val) \<and> (\<forall>q e. holds h q e \<longrightarrow> holds h1 q e)"
    and holds_frame: "\<lbrakk>frame B h h1; holds h q e\<rbrakk> \<Longrightarrow> holds h1 q e"
begin

lemma collect_ok:
  assumes "dict_rel mem h d al" "push_able (length is + n) (out, h)" "adata out \<noteq> adata (dkeys d)"
    "\<forall>i \<in> set is. i < alen (dkeys d)"
    "map fst al' = filter (\<lambda>p. p \<noteq> NULL) (map (\<lambda>i. arr_list h (dkeys d) ! i) is)" "set al' \<subseteq> set al"
    "list_all2 (holds h) (arr_list h out) done"
  shows "\<exists>out' h'. collect_loop mem d mk is out h = Some (Inr (out', h'))
     \<and> push_able n (out', h') \<and> dict_rel mem h' d al
     \<and> list_all2 (holds h') (arr_list h' out') (done @ al')"
  using assms
proof (induction "is" arbitrary: out h al' "done")
  case Nil
  then show ?case by simp
next
  case (Cons i "is")
  have good: "heap_good h" using Cons.prems(2) by (simp add: push_able_def)
  have inv: "arr_inv h (dkeys d)" using dict_relD(7) [OF Cons.prems(1)] .
  define key where "key = arr_list h (dkeys d) ! i"
  have get: "goc_array_get (dkeys d) i h = Inr key"
    using get_ok [OF inv, of i] Cons.prems(4) by (simp add: key_def)
  show ?case
  proof (cases "key = NULL")
    case True
    then have "collect_loop mem d mk (i # is) out h = collect_loop mem d mk is out h"
      using get by simp
    moreover have "push_able (length is + n) (out, h)"
      using Cons.prems(2) by (rule push_able_mono) simp
    ultimately show ?thesis
      using Cons.IH [OF Cons.prems(1) _ Cons.prems(3), of al' "done"] Cons.prems True
      by (simp add: key_def)
  next
    case False
    then obtain v al2 where al': "al' = (key, v) # al2"
      "map fst al2 = filter (\<lambda>p. p \<noteq> NULL) (map (\<lambda>i. arr_list h (dkeys d) ! i) is)"
      using Cons.prems(5) by (cases al') (auto simp: key_def)
    have "(key, v) \<in> set al" using Cons.prems(6) al'(1) by auto
    then obtain slot where sl: "goc_dict_probe mem d (mem key) = Some (Inr slot)"
      "goc_dict_is_live_slot d slot = Inr True" "lread (dtable d) slot = Inr v"
      by (rule dict_slot_of_key [OF Cons.prems(1)])
    obtain p h1 where mk: "mk key v h = Inr (p, h1)" "heap_good h1" "bufs h1 = bufs h"
      "holds h1 p (key, v)" "\<forall>q e. holds h q e \<longrightarrow> holds h1 q e"
      using mk_ok [OF good] by blast
    have same: "arr_inv h1 a = arr_inv h a" "arr_list h1 a = arr_list h a" for a
      using mk(3) by (simp_all add: arr_inv_def arr_list_def)
    have pa: "push_able (Suc (length is + n)) (out, h1)"
      using Cons.prems(2) mk(2) same by (simp add: push_able_def)
    obtain out2 h2 where p: "goc_array_push out p h1 = Inr (out2, h2)" "push_able (length is + n) (out2, h2)"
      "arr_list h2 out2 = arr_list h1 out @ [p]" "frame {adata out} h1 h2"
      "adata out2 = adata out \<or> adata out2 = next_buf h1" "alen out2 = Suc (alen out)"
      by (rule push_able_push [OF pa])
    have rel1: "dict_rel mem h1 d al" using Cons.prems(1) same by (simp add: dict_rel_def)
    have rel2: "dict_rel mem h2 d al"
      by (rule dict_rel_frame [OF rel1 p(4)]) (use Cons.prems(3) in auto)
    have keys2: "arr_list h2 (dkeys d) = arr_list h (dkeys d)"
      using frame_arr(2) [OF p(4), of "dkeys d"] inv same Cons.prems(3) by auto
    have ne: "adata out2 \<noteq> adata (dkeys d)"
      using p(5) Cons.prems(3) dict_relD(7) [OF rel1] heap_ok_fresh [OF heap_goodD(1) [OF mk(2)]]
      by (auto simp: arr_inv_def)
    have "list_all2 (holds h2) (arr_list h out @ [p]) (done @ [(key, v)])"
    proof (rule list_all2_appendI)
      show "list_all2 (holds h2) (arr_list h out) done"
        using Cons.prems(7) mk(5) holds_frame [OF p(4)] by (auto elim!: list_all2_mono)
    qed (use mk(4) holds_frame [OF p(4)] in simp)
    then have "list_all2 (holds h2) (arr_list h2 out2) (done @ [(key, v)])" using p(3) same by simp
    from Cons.IH [OF rel2 p(2) ne _ _ _ this, of al2] Cons.prems(4,6) al' keys2
    have "\<exists>out' h'. collect_loop mem d mk is out2 h2 = Some (Inr (out', h'))
     \<and> push_able n (out', h') \<and> dict_rel mem h' d al
     \<and> list_all2 (holds h') (arr_list h' out') ((done @ [(key, v)]) @ al2)" by simp
    moreover have "collect_loop mem d mk (i # is) out h = collect_loop mem d mk is out2 h2"
      using get False sl mk(1) p(1) by simp
    ultimately show ?thesis using al'(1) by simp
  qed
qed

lemma collect_all_ok:
  assumes able: "dict_able mem (alen (dkeys d)) (d, h) al" and small: "alen (dkeys d) < 2 ^ 54"
  shows "\<exists>out h'. obind (Some (goc_array_make (goc_dict_len d) h)) (\<lambda>(out, h1).
        collect_loop mem d mk [0..<goc_array_len (dkeys d)] out h1) = Some (Inr (out, h'))
     \<and> dict_rel mem h' d al \<and> arr_inv h' out \<and> heap_good h'
     \<and> list_all2 (holds h') (arr_list h' out) al"
proof -
  have rel: "dict_rel mem h d al" and good: "heap_good h" 
    using able by (simp_all add: dict_able_def push_able_def)
  note D = dict_relD [OF rel]
  let ?n = "alen (dkeys d)"
  have len: "length (arr_list h (dkeys d)) = ?n" by (rule length_arr_list [OF D(7)])
  have "length (filter (\<lambda>p. p \<noteq> NULL) (arr_list h (dkeys d))) \<le> length (arr_list h (dkeys d))" by simp
  then have "dlen d \<le> ?n" using D(8,9) len by (metis length_map)
  then have dl: "goc_dict_len d < 2 ^ 54" using small by (simp add: goc_dict_len_def)
  have dl61: "goc_dict_len d < 2 ^ 61" using dl by simp
  obtain h1 where m: "goc_array_make (goc_dict_len d) h = Inr (\<lparr>adata = next_buf h, ahead = max 8 (goc_dict_len d) div 4, alen = 0, acap = max 8 (goc_dict_len d)\<rparr>, h1)"
    "arr_post h {} [] (\<lparr>adata = next_buf h, ahead = max 8 (goc_dict_len d) div 4, alen = 0, acap = max 8 (goc_dict_len d)\<rparr>, h1)"
    "next_buf h1 = Suc (next_buf h)"
    by (rule make_ok [OF good dl61])
  have able1: "\<exists>a h'. goc_array_make (goc_dict_len d) h = Inr (a, h') \<and> array_able ?n (a, h')"
    by (rule make_able [OF good, of "goc_dict_len d" ?n]) (use dl small in auto)
  define out where "out = \<lparr>adata = next_buf h, ahead = max 8 (goc_dict_len d) div 4, alen = 0, acap = max 8 (goc_dict_len d)\<rparr>"
  have ab: "array_able ?n (out, h1)" using able1 m(1) by (auto simp: out_def)
  then have pa: "push_able (length [0..<?n] + 0) (out, h1)"
    by (auto simp: array_able_def push_able_def push_pot_def)
  have post: "arr_list h1 out = []" "frame {} h h1" using m(2) by (simp_all add: arr_post_def out_def)
  have rel1: "dict_rel mem h1 d al" by (rule dict_rel_frame [OF rel post(2)]) simp
  have ne: "adata out \<noteq> adata (dkeys d)"
    using D(7) heap_ok_fresh [OF heap_goodD(1) [OF good]] by (auto simp: arr_inv_def out_def)
  have keys: "map fst al = filter (\<lambda>p. p \<noteq> NULL) (map (\<lambda>i. arr_list h1 (dkeys d) ! i) [0..<?n])"
  proof -
    have "length (arr_list h1 (dkeys d)) = ?n" by (rule length_arr_list [OF dict_relD(7) [OF rel1]])
    then have "map (\<lambda>i. arr_list h1 (dkeys d) ! i) [0..<?n] = arr_list h1 (dkeys d)" by (metis map_nth)
    then show ?thesis using dict_relD(8) [OF rel1] by simp
  qed
  from collect_ok [OF rel1 pa ne _ keys, of "[]"] post(1) obtain out' h' where
    "collect_loop mem d mk [0..<?n] out h1 = Some (Inr (out', h'))" "push_able 0 (out', h')"
    "dict_rel mem h' d al" "list_all2 (holds h') (arr_list h' out') al" by auto
  then show ?thesis using m(1) by (simp add: out_def goc_array_len_def push_able_def)
qed

end

interpretation key_maker: entry_maker "\<lambda>key val h. Inr (key, h)" "\<lambda>h p e. p = fst e"
  by unfold_locales auto

interpretation val_maker: entry_maker "\<lambda>key val h. Inr (val, h)" "\<lambda>h p e. p = snd e"
  by unfold_locales auto

lemma new_entry_ok:
  assumes "heap_good h"
  shows "\<exists>p h1. new_entry key val h = Inr (p, h1) \<and> heap_good h1 \<and> bufs h1 = bufs h
     \<and> entries h1 p = Some (key, val) \<and> (\<forall>q e. entries h q = Some e \<longrightarrow> entries h1 q = Some e)"
proof -
  have h: "heap_ok h" "gc_serves h" using assms heap_goodD by auto
  let ?h = "h\<lparr>allocs := Suc (allocs h), entries := (entries h)(next_box h \<mapsto> (key, val)), next_box := Suc (next_box h)\<rparr>"
  have "new_entry key val h = Inr (next_box h, ?h)"
    using h by (simp add: new_entry_def goc_malloc_serves)
  moreover have "heap_good ?h" using h by (simp add: heap_good_def heap_ok_def)
  moreover have "entries h (next_box h) = None" using h(1) by (simp add: heap_ok_def)
  ultimately show ?thesis by (intro exI [of _ "next_box h"] exI [of _ ?h]) auto
qed

interpretation entry: entry_maker new_entry "\<lambda>h p e. entries h p = Some e"
  by unfold_locales (use new_entry_ok in \<open>blast\<close>, simp add: frame_def)

section \<open>Copies, merging and reading back\<close>

lemma push_pot_le: "push_pot a \<le> max 16 (2 * acap a)"
proof -
  have "8 * (acap a div 8 - scarcer a) \<le> 8 * (acap a div 8)" "8 * (acap a div 8) \<le> acap a" by simp_all
  then have "cap_pot a \<le> 2 * acap a" unfolding cap_pot_def by linarith
  then show ?thesis by (simp add: push_pot_def)
qed

lemma frame_trans: "\<lbrakk>frame B h h1; frame B h1 h2\<rbrakk> \<Longrightarrow> frame B h h2"
  unfolding frame_def by (metis (no_types, lifting) Diff_iff domIff)

lemma table_copy_ok:
  "\<lbrakk>length src = cap; cap < 2 ^ 61\<rbrakk> \<Longrightarrow> table_copy (replicate cap NULL) src cap = Inr src"
  by (simp add: table_copy_def slots_eq splice_def)

lemma copy_dict_ok:
  assumes able: "dict_able mem m (d, h) al"
    and room: "2 * dtable_cap d + 16 * n < 2 ^ 60" "tab_pot d + 4 * n < 2 ^ 60"
      "2 * alen (dkeys d) + 16 * n < 2 ^ 59"
  obtains c h' where "goc_dict_copy d h = Some (Inr (c, h'))" "dict_able mem n (c, h') al"
    "frame {} h h'" "bufs h (adata (dkeys c)) = None"
proof -
  have rel: "dict_rel mem h d al" and good: "heap_good h"
    using able by (simp_all add: dict_able_def push_able_def)
  note D = dict_relD [OF rel]
  obtain k where k: "3 \<le> k" "k \<le> 60" "dtable_cap d = 2 ^ k" using rel by (rule dict_capE)
  have cap: "8 \<le> dtable_cap d" "dtable_cap d < 2 ^ 61"
  proof -
    have "(2::nat) ^ 3 \<le> 2 ^ k" using k(1) by (rule power_increasing) simp
    then show "8 \<le> dtable_cap d" using k(3) by simp
    show "dtable_cap d < 2 ^ 61" using room(1) by simp
  qed
  have "max 8 (2 * dtable_cap d) + 16 * n < 2 ^ 60" using room(1) cap(1) by simp
  then obtain c h1 where m: "goc_dict_make_internal (dtable_cap d) h = Some (Inr (c, h1))"
    "dict_able mem n (c, h1) []" "frame {} h h1" "adata (dkeys c) = next_buf h"
    "goc_dict_round_cap (dtable_cap d) = Some (dtable_cap c)" "dtable c = replicate (dtable_cap c) NULL"
    "dtable_keys c = replicate (dtable_cap c) NULL" 
    by (rule make_internal_ok [OF good])
  have capc: "dtable_cap c = dtable_cap d" using m(5) round_cap_pow [OF k(1)] k(2,3) by simp
  have good1: "heap_good h1" using m(2) by (simp add: dict_able_def push_able_def)
  have inv1: "arr_inv h1 (dkeys d)" "arr_list h1 (dkeys d) = arr_list h (dkeys d)"
    using frame_arr [OF m(3) D(7)] by simp_all
  obtain ks h2 where ks: "goc_array_copy (dkeys d) h1 = Inr (ks, h2)"
    "arr_post h1 {} (arr_list h1 (dkeys d)) (ks, h2)" "adata ks = next_buf h1"
    "acap ks \<le> max 8 (alen (dkeys d))" by (rule copy_ok [OF good1 inv1(1)])
  define c' where "c' = c\<lparr>dtable := dtable d, dtable_keys := dtable_keys d, dkeys := ks,
                          dlen := dlen d, doccupied := doccupied d\<rparr>"
  have run: "goc_dict_copy d h = Some (Inr (c', h2))"
    using m(1,6,7) ks(1) table_copy_ok [OF D(3) cap(2)] table_copy_ok [OF D(4) cap(2)]
    by (simp add: goc_dict_copy_def capc c'_def)
  have post: "heap_good h2" "arr_inv h2 ks" "arr_list h2 ks = arr_list h (dkeys d)" "frame {} h1 h2"
    using ks(2) inv1(2) by (simp_all add: arr_post_def)
  have "dict_rel mem h2 c' al" using D post by (simp add: dict_rel_def c'_def capc)
  moreover have "push_able n (ks, h2)"
    using push_pot_le [of ks] ks(4) room(3) post(1,2) by (simp add: push_able_def)
  ultimately have "dict_able mem n (c', h2) al"
    using room(2) by (simp add: dict_able_def c'_def tab_pot_def capc)
  moreover have "frame {} h h2" by (rule frame_trans [OF m(3) post(4)])
  moreover have "bufs h (adata ks) = None"
  proof (rule ccontr)
    assume "bufs h (adata ks) \<noteq> None"
    then have "bufs h1 (adata ks) = bufs h (adata ks)" using m(3) by (auto simp: frame_def)
    with \<open>bufs h (adata ks) \<noteq> None\<close> have "bufs h1 (adata ks) \<noteq> None" by simp
    then show False using ks(3) heap_ok_fresh [OF heap_goodD(1) [OF good1]] by simp
  qed
  ultimately show ?thesis using that [OF run] by (simp add: c'_def)
qed

text \<open>Setting the entries of an array, one after the other.\<close>

lemma from_entries_loop_ok:
  assumes "dict_able mem (length is + n) (d, h) al" "arr_inv h es" "adata es \<noteq> adata (dkeys d)"
    "\<forall>i \<in> set is. i < alen es"
    "list_all2 (\<lambda>i e. entries h (arr_list h es ! i) = Some e \<and> live (fst e)) is kvs"
  shows "\<exists>s. from_entries_loop mem es is d h = Some (Inr s)
           \<and> dict_post mem n d h (al_set_all mem al kvs) s"
  using assms
proof (induction "is" arbitrary: d h al kvs)
  case Nil
  then show ?case by (simp add: dict_post_refl)
next
  case (Cons i "is")
  obtain k v kvs' where kvs: "kvs = (k, v) # kvs'" "entries h (arr_list h es ! i) = Some (k, v)"
    "live k" "list_all2 (\<lambda>i e. entries h (arr_list h es ! i) = Some e \<and> live (fst e)) is kvs'"
    using Cons.prems(5) by (cases kvs) auto
  have ab: "dict_able mem (Suc (length is + n)) (d, h) al" using Cons.prems(1) by simp
  obtain d1 h1 where r: "goc_dict_set mem d k v h = Some (Inr (d1, h1))"
    "dict_able mem (length is + n) (d1, h1) (al_set mem al k v)" "frame {adata (dkeys d)} h h1"
    "moved_to h d d1" by (rule set_step [OF ab kvs(3)])
  have es1: "arr_inv h1 es" "arr_list h1 es = arr_list h es"
    using frame_arr [OF r(3) Cons.prems(2)] Cons.prems(3) by auto
  have ne: "adata es \<noteq> adata (dkeys d1)"
    using r(4) Cons.prems(2,3) by (auto simp: moved_to_def arr_inv_def)
  have "entries h1 = entries h" using r(3) by (simp add: frame_def)
  then obtain s where "from_entries_loop mem es is d1 h1 = Some (Inr s)"
    "dict_post mem n d1 h1 (al_set_all mem (al_set mem al k v) kvs') s"
    using Cons.IH [OF r(2) es1(1) ne, of kvs'] Cons.prems(4) kvs(4) es1(2) by auto
  with r kvs dict_post_then [OF r(3,4)] get_ok [OF Cons.prems(2), of i] Cons.prems(4)
  show ?case by simp
qed

lemma al_set_all_distinct:
  "distinct (map (\<lambda>e. mem (fst e)) (al @ kvs)) \<Longrightarrow> al_set_all mem al kvs = al @ kvs"
proof (induction kvs arbitrary: al)
  case (Cons e kvs)
  obtain k v where e: "e = (k, v)" by (cases e)
  have "al_lookup mem al (mem k) = None" using Cons.prems e by (auto simp: al_lookup_None)
  with Cons.IH [of "al @ [e]"] Cons.prems e show ?case by (simp add: al_set_def)
qed simp

lemma merge_keys_ok:
  assumes "dict_able mem (length is + n) (m, h) alm" "dict_rel mem h src al" "adata (dkeys src) \<noteq> adata (dkeys m)"
    "\<forall>i \<in> set is. i < alen (dkeys src)"
    "map fst al' = filter (\<lambda>p. p \<noteq> NULL) (map (\<lambda>i. arr_list h (dkeys src) ! i) is)" "set al' \<subseteq> set al"
  shows "\<exists>s. merge_keys mem src is m h = Some (Inr s) \<and> dict_post mem n m h (al_set_all mem alm al') s"
  using assms
proof (induction "is" arbitrary: m h alm al')
  case Nil
  then show ?case by (simp add: dict_post_refl)
next
  case (Cons i "is")
  have inv: "arr_inv h (dkeys src)" using dict_relD(7) [OF Cons.prems(2)] .
  define key where "key = arr_list h (dkeys src) ! i"
  have get: "goc_array_get (dkeys src) i h = Inr key"
    using get_ok [OF inv, of i] Cons.prems(4) by (simp add: key_def)
  show ?case
  proof (cases "key = NULL")
    case True
    then have "merge_keys mem src (i # is) m h = merge_keys mem src is m h" using get by simp
    moreover have "dict_able mem (length is + n) (m, h) alm"
      using Cons.prems(1) by (rule dict_able_mono) simp
    ultimately show ?thesis
      using Cons.IH [of m h alm al'] Cons.prems True by (simp add: key_def)
  next
    case False
    then obtain v al2 where al': "al' = (key, v) # al2"
      "map fst al2 = filter (\<lambda>p. p \<noteq> NULL) (map (\<lambda>i. arr_list h (dkeys src) ! i) is)"
      using Cons.prems(5) by (cases al') (auto simp: key_def)
    have kv: "(key, v) \<in> set al" using Cons.prems(6) al'(1) by auto
    then obtain slot where sl: "goc_dict_probe mem src (mem key) = Some (Inr slot)"
      "goc_dict_is_live_slot src slot = Inr True" "lread (dtable src) slot = Inr v"
      by (rule dict_slot_of_key [OF Cons.prems(2)])
    have ab: "dict_able mem (Suc (length is + n)) (m, h) alm" using Cons.prems(1) by simp
    obtain m1 h1 where r: "goc_dict_set mem m key v h = Some (Inr (m1, h1))"
      "dict_able mem (length is + n) (m1, h1) (al_set mem alm key v)" "frame {adata (dkeys m)} h h1"
      "moved_to h m m1" by (rule set_step [OF ab dict_key_live [OF Cons.prems(2) kv]])
    have rel1: "dict_rel mem h1 src al"
      by (rule dict_rel_frame [OF Cons.prems(2) r(3)]) (use Cons.prems(3) in simp)
    have keys1: "arr_list h1 (dkeys src) = arr_list h (dkeys src)"
      using frame_arr(2) [OF r(3) inv] Cons.prems(3) by simp
    have ne: "adata (dkeys src) \<noteq> adata (dkeys m1)"
      using r(4) inv Cons.prems(3) by (auto simp: moved_to_def arr_inv_def)
    obtain s where "merge_keys mem src is m1 h1 = Some (Inr s)"
      "dict_post mem n m1 h1 (al_set_all mem (al_set mem alm key v) al2) s"
      using Cons.IH [OF r(2) rel1 ne, of al2] Cons.prems(4,6) al' keys1 by auto
    with r sl get False al'(1) dict_post_then [OF r(3,4)] show ?thesis by simp
  qed
qed

lemma merge_one_ok:
  assumes "dict_able mem (alen (dkeys src) + n) (m, h) alm" "dict_rel mem h src al"
    "adata (dkeys src) \<noteq> adata (dkeys m)"
  shows "\<exists>s. merge_keys mem src [0..<goc_array_len (dkeys src)] m h = Some (Inr s)
           \<and> dict_post mem n m h (al_set_all mem alm al) s"
proof -
  note D = dict_relD [OF assms(2)]
  have "length (arr_list h (dkeys src)) = alen (dkeys src)" by (rule length_arr_list [OF D(7)])
  then have "map (\<lambda>i. arr_list h (dkeys src) ! i) [0..<alen (dkeys src)] = arr_list h (dkeys src)"
    by (metis map_nth)
  then show ?thesis
    using merge_keys_ok [of mem "[0..<alen (dkeys src)]" n m h alm src al al] assms D(8)
    by (simp add: goc_array_len_def)
qed

lemma dict_rel_post:
  assumes "dict_rel mem h d al" "dict_post mem n m h alm (m', h')" "adata (dkeys d) \<noteq> adata (dkeys m)"
  shows "dict_rel mem h' d al" "adata (dkeys d) \<noteq> adata (dkeys m')"
proof -
  have f: "frame {adata (dkeys m)} h h'" "moved_to h m m'" using assms(2) by (simp_all add: dict_post_def)
  show "dict_rel mem h' d al" by (rule dict_rel_frame [OF assms(1) f(1)]) (use assms(3) in simp)
  show "adata (dkeys d) \<noteq> adata (dkeys m')"
    using f(2) dict_relD(7) [OF assms(1)] assms(3) by (auto simp: moved_to_def arr_inv_def)
qed

lemma merge_dicts_ok:
  assumes "dict_able mem (sum_list (map (\<lambda>d. alen (dkeys d)) ds) + n) (m, h) alm"
    "list_all2 (dict_rel mem h) ds als" "\<forall>d \<in> set ds. adata (dkeys d) \<noteq> adata (dkeys m)"
  shows "\<exists>s. merge_dicts mem ds m h = Some (Inr s)
           \<and> dict_post mem n m h (foldl (al_set_all mem) alm als) s"
  using assms
proof (induction ds arbitrary: m h alm als)
  case Nil
  then show ?case by (simp add: dict_post_refl)
next
  case (Cons d ds)
  let ?r = "sum_list (map (\<lambda>d. alen (dkeys d)) ds) + n"
  obtain al als' where als: "als = al # als'" "dict_rel mem h d al" "list_all2 (dict_rel mem h) ds als'"
    using Cons.prems(2) by (cases als) auto
  have ab: "dict_able mem (alen (dkeys d) + ?r) (m, h) alm" using Cons.prems(1) by (simp add: add.assoc)
  obtain m1 h1 where r: "merge_keys mem d [0..<goc_array_len (dkeys d)] m h = Some (Inr (m1, h1))"
    "dict_post mem ?r m h (al_set_all mem alm al) (m1, h1)"
    using merge_one_ok [OF ab als(2)] Cons.prems(3) by auto
  have ab1: "dict_able mem ?r (m1, h1) (al_set_all mem alm al)" using r(2) by (simp add: dict_post_def)
  have rest: "list_all2 (dict_rel mem h1) ds als'" "\<forall>d \<in> set ds. adata (dkeys d) \<noteq> adata (dkeys m1)"
  proof -
    show "list_all2 (dict_rel mem h1) ds als'"
      using als(3) Cons.prems(3) dict_rel_post(1) [OF _ r(2)]
      by (auto simp: list_all2_conv_all_nth)
    show "\<forall>d \<in> set ds. adata (dkeys d) \<noteq> adata (dkeys m1)"
      using als(3) Cons.prems(3) dict_rel_post(2) [OF _ r(2)]
      by (fastforce simp: list_all2_conv_all_nth in_set_conv_nth)
  qed
  obtain s where "merge_dicts mem ds m1 h1 = Some (Inr s)"
    "dict_post mem n m1 h1 (foldl (al_set_all mem) (al_set_all mem alm al) als') s"
    using Cons.IH [OF ab1 rest] by blast
  moreover have "frame {adata (dkeys m)} h h1" "moved_to h m m1" using r(2) by (simp_all add: dict_post_def)
  ultimately show ?case using r(1) als(1) dict_post_then by fastforce
qed

lemma zip_loop_ok:
  assumes "dict_able mem (length is + n) (d, h) al" "arr_inv h ks" "arr_inv h vs"
    "adata ks \<noteq> adata (dkeys d)" "adata vs \<noteq> adata (dkeys d)"
    "\<forall>i \<in> set is. i < alen ks \<and> i < alen vs \<and> live (arr_list h ks ! i)"
  shows "\<exists>s. zip_loop mem ks vs is d h = Some (Inr s) \<and> dict_post mem n d h
           (al_set_all mem al (map (\<lambda>i. (arr_list h ks ! i, arr_list h vs ! i)) is)) s"
  using assms
proof (induction "is" arbitrary: d h al)
  case Nil
  then show ?case by (simp add: dict_post_refl)
next
  case (Cons i "is")
  let ?k = "arr_list h ks ! i" and ?v = "arr_list h vs ! i"
  have ab: "dict_able mem (Suc (length is + n)) (d, h) al" and k: "live ?k" using Cons.prems by simp_all
  obtain d1 h1 where r: "goc_dict_set mem d ?k ?v h = Some (Inr (d1, h1))"
    "dict_able mem (length is + n) (d1, h1) (al_set mem al ?k ?v)" "frame {adata (dkeys d)} h h1"
    "moved_to h d d1" by (rule set_step [OF ab k])
  have 1: "arr_inv h1 ks" "arr_list h1 ks = arr_list h ks" "arr_inv h1 vs" "arr_list h1 vs = arr_list h vs"
    using frame_arr [OF r(3) Cons.prems(2)] frame_arr [OF r(3) Cons.prems(3)] Cons.prems(4,5) by auto
  have ne: "adata ks \<noteq> adata (dkeys d1)" "adata vs \<noteq> adata (dkeys d1)"
    using r(4) Cons.prems(2-5) by (auto simp: moved_to_def arr_inv_def)
  obtain s where "zip_loop mem ks vs is d1 h1 = Some (Inr s)"
    "dict_post mem n d1 h1 (al_set_all mem (al_set mem al ?k ?v)
       (map (\<lambda>i. (arr_list h ks ! i, arr_list h vs ! i)) is)) s"
    using Cons.IH [OF r(2) 1(1,3) ne] Cons.prems(6) 1(2,4) by auto
  with r dict_post_then [OF r(3,4)] get_ok [OF Cons.prems(2), of i] get_ok [OF Cons.prems(3), of i]
    Cons.prems(6) show ?case by simp
qed

section \<open>Properties\<close>

text \<open>
  C6: a dictionary is an insertion-ordered map. Whatever sequence of sets, pops, lookups,
  membership tests and length queries runs on a fresh dictionary, every call returns (probing
  and rehashing end) with the value the association list gives, and the dictionary still
  represents that list: an update keeps a key's place, a new key goes to the end, a removed and
  re-added key moves to the end. Tombstones, collisions and rehashes never show.
\<close>

theorem dict_refines_alist:
  assumes "heap_good h" "c < 2 ^ 57" "length cs < 2 ^ 54" "list_all valid_key cs"
    "spec_run (alist_op mem) cs [] = Some (vs, al)"
  shows "\<exists>d0 h0 d h'. goc_dict_make c h = Some (Inr (d0, h0))
     \<and> impl_run (dict_exec mem) cs (d0, h0) = Some (Inr (vs, d, h')) \<and> dict_rel mem h' d al"
proof -
  have "max 8 (2 * c) + 16 * length cs < 2 ^ 60" using assms(2,3) by simp
  then obtain d0 h0 where m: "goc_dict_make_internal c h = Some (Inr (d0, h0))"
    "dict_able mem (length cs) (d0, h0) []" by (rule make_internal_ok [OF assms(1)])
  obtain s where "impl_run (dict_exec mem) cs (d0, h0) = Some (Inr (vs, s))" "dict_able mem 0 s al"
    using dict.run_ok [where mem = mem and n = 0 and s = "(d0, h0)", OF assms(4) _ assms(5)] m(2) by auto
  with m(1) show ?thesis by (cases s) (auto simp: goc_dict_make_def dict_able_def)
qed

theorem dict_refines_alist_witness:
  "\<exists>d0 h0 d h'. goc_dict_make 0 empty_heap = Some (Inr (d0, h0))
     \<and> impl_run (dict_exec (\<lambda>p. if p = 8 then ''a'' else ''b''))
         [DSet 8 4, DSet 9 5, DPop ''a'' 0, DSet 8 6, DGet ''b'' 0, DLen] (d0, h0)
       = Some (Inr ([VUnit, VUnit, VPtr 4, VUnit, VPtr 5, VSize 2], d, h'))
     \<and> dict_rel (\<lambda>p. if p = 8 then ''a'' else ''b'') h' d [(9, 5), (8, 6)]"
proof (rule dict_refines_alist)
  show "list_all valid_key [DSet 8 4, DSet 9 5, DPop ''a'' 0, DSet 8 6, DGet ''b'' 0, DLen]"
    by (simp add: live_def GOC_DICT_TOMBSTONE_def)
  show "spec_run (alist_op (\<lambda>p. if p = 8 then ''a'' else ''b''))
      [DSet 8 4, DSet 9 5, DPop ''a'' 0, DSet 8 6, DGet ''b'' 0, DLen] [] =
      Some ([VUnit, VUnit, VPtr 4, VUnit, VPtr 5, VSize 2], [(9, 5), (8, 6)])"
    by (simp add: al_lookup_def al_set_def al_pop_def)
qed simp_all

text \<open>
  C39: rounding a requested capacity up ends for requests up to \<open>2 ^ 63\<close>, with a power of two
  that is at least eight and at least the request, and less than twice the request unless it is
  eight. For a larger request the doubled capacity wraps to zero and the loop never ends.
\<close>

theorem round_cap_ends_iff:
  "if r \<le> 2 ^ 63
   then \<exists>k. 3 \<le> k \<and> goc_dict_round_cap r = Some (2 ^ k) \<and> r \<le> 2 ^ k \<and> (k = 3 \<or> 2 ^ k < 2 * r)
   else goc_dict_round_cap r = None"
proof (cases "r \<le> 2 ^ 63")
  case True
  then obtain k where "3 \<le> k" "goc_dict_round_cap r = Some (2 ^ k)" "r \<le> 2 ^ k" "k = 3 \<or> 2 ^ k < 2 * r"
    by (rule round_cap_ok)
  with True show ?thesis by auto
next
  case False
  with round_cap_diverges [of r] show ?thesis by simp
qed

text \<open>
  Iteration follows insertion order. \<open>goc_dict_keys\<close>, \<open>goc_dict_vals\<close> and \<open>goc_dict_entries\<close>
  return arrays that list the keys, the values and the key/value pairs of the live entries,
  oldest key first, and leave the dictionary as it was.
\<close>

theorem iteration_in_order:
  assumes "dict_able mem (alen (dkeys d)) (d, h) al" "alen (dkeys d) < 2 ^ 54"
  shows "(\<exists>a h'. goc_dict_keys mem d h = Some (Inr (a, h')) \<and> arr_list h' a = map fst al \<and> dict_rel mem h' d al)
     \<and> (\<exists>a h'. goc_dict_vals mem d h = Some (Inr (a, h')) \<and> arr_list h' a = map snd al \<and> dict_rel mem h' d al)
     \<and> (\<exists>a h'. goc_dict_entries mem d h = Some (Inr (a, h'))
          \<and> map (entries h') (arr_list h' a) = map Some al \<and> dict_rel mem h' d al)"
proof (intro conjI)
  have fst_eq: "xs = map fst al" if "list_all2 (\<lambda>p e. p = fst e) xs al" for xs
    using that by (simp add: list_all2_conv_all_nth list_eq_iff_nth_eq)
  have snd_eq: "xs = map snd al" if "list_all2 (\<lambda>p e. p = snd e) xs al" for xs
    using that by (simp add: list_all2_conv_all_nth list_eq_iff_nth_eq)
  have ent_eq: "map (entries h') xs = map Some al" if "list_all2 (\<lambda>p e. entries h' p = Some e) xs al" for xs h'
    using that by (simp add: list_all2_conv_all_nth list_eq_iff_nth_eq)
  show "\<exists>a h'. goc_dict_keys mem d h = Some (Inr (a, h')) \<and> arr_list h' a = map fst al \<and> dict_rel mem h' d al"
    using key_maker.collect_all_ok [OF assms] fst_eq unfolding goc_dict_keys_def by blast
  show "\<exists>a h'. goc_dict_vals mem d h = Some (Inr (a, h')) \<and> arr_list h' a = map snd al \<and> dict_rel mem h' d al"
    using val_maker.collect_all_ok [OF assms] snd_eq unfolding goc_dict_vals_def by blast
  show "\<exists>a h'. goc_dict_entries mem d h = Some (Inr (a, h'))
          \<and> map (entries h') (arr_list h' a) = map Some al \<and> dict_rel mem h' d al"
    using entry.collect_all_ok [OF assms] ent_eq unfolding goc_dict_entries_def by blast
qed

text \<open>A dictionary with one entry, on which the properties below are tried.\<close>

lemma one_entry:
  obtains d h where "dict_able (\<lambda>p. ''k'') 50 (d, h) [(8, 4)]" "alen (dkeys d) \<le> 1" "tab_pot d \<le> 12"
    "dtable_cap d \<le> 12"
proof -
  obtain d0 h0 where m: "goc_dict_make_internal 0 empty_heap = Some (Inr (d0, h0))"
    "dict_able (\<lambda>p. ''k'') (Suc 50) (d0, h0) []" "alen (dkeys d0) = 0" "tab_pot d0 \<le> max 8 (2 * 0)"
    by (rule make_internal_ok [of empty_heap 0 "Suc 50"]) simp_all
  have "live 8" by (simp add: live_def GOC_DICT_TOMBSTONE_def)
  then obtain d h where s: "goc_dict_set (\<lambda>p. ''k'') d0 8 4 h0 = Some (Inr (d, h))"
    "dict_able (\<lambda>p. ''k'') 50 (d, h) (al_set (\<lambda>p. ''k'') [] 8 4)"
    "alen (dkeys d) \<le> Suc (alen (dkeys d0))" "tab_pot d \<le> tab_pot d0 + 4"
    by (rule set_step [OF m(2)])
  have "al_set (\<lambda>p. ''k'') [] 8 4 = [(8, 4)]" by (simp add: al_set_def al_lookup_def)
  moreover have "dtable_cap d \<le> tab_pot d" by (simp add: tab_pot_def)
  ultimately show ?thesis using that [of d h] s m(3,4) by simp
qed

theorem iteration_in_order_witness:
  "\<exists>d h a h'. dict_rel (\<lambda>p. ''k'') h d [(8, 4)]
     \<and> goc_dict_keys (\<lambda>p. ''k'') d h = Some (Inr (a, h')) \<and> arr_list h' a = [8]"
proof (rule one_entry)
  fix d h assume d: "dict_able (\<lambda>p. ''k'') 50 (d, h) [(8, 4)]" "alen (dkeys d) \<le> 1"
  have "dict_able (\<lambda>p. ''k'') (alen (dkeys d)) (d, h) [(8, 4)]"
    using d(1) by (rule dict_able_mono) (use d(2) in simp)
  moreover have "alen (dkeys d) < 2 ^ 54" using d(2) by simp
  ultimately show ?thesis
    using iteration_in_order [of "\<lambda>p. ''k''" d h "[(8, 4)]"] d(1) by (auto simp: dict_able_def)
qed

text \<open>
  C35: the entries of a dictionary rebuild it. \<open>goc_dict_from_entries\<close> of \<open>goc_dict_entries\<close>
  succeeds and gives a dictionary with the same keys and values in the same order.
\<close>

theorem entries_from_entries:
  assumes "dict_able mem (alen (dkeys d)) (d, h) al" "alen (dkeys d) < 2 ^ 54"
  shows "\<exists>es h1 d2 h2. goc_dict_entries mem d h = Some (Inr (es, h1))
     \<and> goc_dict_from_entries mem es h1 = Some (Inr (d2, h2)) \<and> dict_rel mem h2 d2 al"
proof -
  have rel: "dict_rel mem h d al" using assms(1) by (simp add: dict_able_def)
  note D = dict_relD [OF rel]
  obtain es h1 where e: "goc_dict_entries mem d h = Some (Inr (es, h1))" "dict_rel mem h1 d al"
    "arr_inv h1 es" "heap_good h1" "list_all2 (\<lambda>p e. entries h1 p = Some e) (arr_list h1 es) al"
    using entry.collect_all_ok [OF assms] unfolding goc_dict_entries_def by blast
  have len: "length (arr_list h1 es) = alen es" by (rule length_arr_list [OF e(3)])
  have "length (filter (\<lambda>p. p \<noteq> NULL) (arr_list h (dkeys d))) \<le> length (arr_list h (dkeys d))" by simp
  then have "length al \<le> alen (dkeys d)" using D(8) length_arr_list [OF D(7)] by (metis length_map)
  then have n: "alen es = length al" "alen es < 2 ^ 54"
    using e(5) len assms(2) by (auto dest: list_all2_lengthD)
  have "max 8 (2 * alen es) + 16 * (alen es + 0) < 2 ^ 60" using n by simp
  then obtain d0 h0 where m: "goc_dict_make_internal (alen es) h1 = Some (Inr (d0, h0))"
    "dict_able mem (alen es + 0) (d0, h0) []" "frame {} h1 h0" "adata (dkeys d0) = next_buf h1"
    by (rule make_internal_ok [OF e(4)])
  have es0: "arr_inv h0 es" "arr_list h0 es = arr_list h1 es" using frame_arr [OF m(3) e(3)] by simp_all
  have ne: "adata es \<noteq> adata (dkeys d0)"
    using e(3) heap_ok_fresh [OF heap_goodD(1) [OF e(4)]] m(4) by (auto simp: arr_inv_def)
  have "list_all2 (\<lambda>i e. entries h0 (arr_list h0 es ! i) = Some e \<and> live (fst e)) [0..<alen es] al"
  proof (rule list_all2_all_nthI)
    fix i assume i: "i < length [0..<alen es]"
    then have "entries h1 (arr_list h1 es ! i) = Some (al ! i)"
      using e(5) n(1) len by (auto simp: list_all2_conv_all_nth)
    moreover have "live (fst (al ! i))"
      using dict_key_live [OF rel, of "fst (al ! i)" "snd (al ! i)"] i n(1) by simp
    ultimately show "entries h0 (arr_list h0 es ! ([0..<alen es] ! i)) = Some (al ! i) \<and> live (fst (al ! i))"
      using i es0(2) m(3) by (simp add: frame_def)
  qed (use n in simp)
  then obtain s where s: "from_entries_loop mem es [0..<alen es] d0 h0 = Some (Inr s)"
    "dict_post mem 0 d0 h0 (al_set_all mem [] al) s"
    using from_entries_loop_ok [of mem "[0..<alen es]" 0 d0 h0 "[]" es al] m(2) es0(1) ne by auto
  have "al_set_all mem [] al = al" using al_set_all_distinct [of mem "[]" al] D(6) by simp
  with s e(1) m(1) show ?thesis
    by (cases s) (auto simp: goc_dict_from_entries_def goc_array_len_def dict_post_def dict_able_def)
qed

theorem entries_from_entries_witness:
  "\<exists>d h es h1 d2 h2. goc_dict_entries (\<lambda>p. ''k'') d h = Some (Inr (es, h1))
     \<and> goc_dict_from_entries (\<lambda>p. ''k'') es h1 = Some (Inr (d2, h2))
     \<and> dict_rel (\<lambda>p. ''k'') h2 d2 [(8, 4)]"
proof (rule one_entry)
  fix d h assume d: "dict_able (\<lambda>p. ''k'') 50 (d, h) [(8, 4)]" "alen (dkeys d) \<le> 1"
  have "dict_able (\<lambda>p. ''k'') (alen (dkeys d)) (d, h) [(8, 4)]"
    using d(1) by (rule dict_able_mono) (use d(2) in simp)
  moreover have "alen (dkeys d) < 2 ^ 54" using d(2) by simp
  ultimately show ?thesis using entries_from_entries by blast
qed

text \<open>
  \<open>_goc_dict_merge_many\<close> folds the dictionaries from left to right into a copy of the first:
  a key that is already there keeps its place and takes the later value, a new key is appended.
  The dictionaries that were merged are unchanged, the first one included.
\<close>

theorem merge_is_fold:
  assumes "list_all2 (dict_rel mem h) (d # ds) (al # als)" "dict_able mem m (d, h) al"
    "2 * dtable_cap d + 16 * sum_list (map (\<lambda>d. alen (dkeys d)) (d # ds)) < 2 ^ 59"
    "tab_pot d + 4 * sum_list (map (\<lambda>d. alen (dkeys d)) (d # ds)) < 2 ^ 60"
  shows "\<exists>m' h'. goc_dict_merge_many mem (d # ds) h = Some (Inr (m', h'))
     \<and> dict_rel mem h' m' (foldl (al_set_all mem) al als)
     \<and> list_all2 (dict_rel mem h') (d # ds) (al # als)"
proof -
  let ?n = "sum_list (map (\<lambda>d. alen (dkeys d)) ds)"
  obtain c h1 where c: "goc_dict_copy d h = Some (Inr (c, h1))" "dict_able mem ?n (c, h1) al"
    "frame {} h h1" "bufs h (adata (dkeys c)) = None"
    by (rule copy_dict_ok [OF assms(2), of ?n]) (use assms(3,4) in simp_all)
  have rel1: "dict_rel mem h1 e x" "adata (dkeys e) \<noteq> adata (dkeys c)" if "dict_rel mem h e x" for e x
    using dict_rel_frame [OF that c(3)] dict_relD(7) [OF that] c(4) by (auto simp: arr_inv_def)
  have l: "list_all2 (dict_rel mem h) ds als" using assms(1) by simp
  have l1: "list_all2 (dict_rel mem h1) ds als" using l rel1(1) by (auto elim: list_all2_mono)
  have l2: "\<forall>e \<in> set ds. adata (dkeys e) \<noteq> adata (dkeys c)"
    using l rel1(2) by (metis list_all2_conv_all_nth in_set_conv_nth)
  obtain m' h' where r: "merge_dicts mem ds c h1 = Some (Inr (m', h'))"
    "dict_post mem 0 c h1 (foldl (al_set_all mem) al als) (m', h')"
    using merge_dicts_ok [of mem ds 0 c h1 al als] c(2) l1 l2 by auto
  have "dict_rel mem h' e x" if "dict_rel mem h e x" for e x
    using dict_rel_post(1) [OF rel1(1) [OF that] r(2) rel1(2) [OF that]] .
  then have "list_all2 (dict_rel mem h') (d # ds) (al # als)"
    using assms(1) by (auto elim: list_all2_mono)
  with r c(1) show ?thesis by (auto simp: goc_dict_merge_many_def dict_post_def dict_able_def)
qed

theorem merge_is_fold_witness:
  "\<exists>d h m' h'. goc_dict_merge_many (\<lambda>p. ''k'') [d, d] h = Some (Inr (m', h'))
     \<and> dict_rel (\<lambda>p. ''k'') h' m' [(8, 4)]"
proof (rule one_entry)
  fix d h assume d: "dict_able (\<lambda>p. ''k'') 50 (d, h) [(8, 4)]" "alen (dkeys d) \<le> 1" "tab_pot d \<le> 12"
    "dtable_cap d \<le> 12"
  have "list_all2 (dict_rel (\<lambda>p. ''k'') h) [d, d] [[(8, 4)], [(8, 4)]]"
    using d(1) by (simp add: dict_able_def)
  from merge_is_fold [OF this d(1)] d(2-4) show ?thesis
    by (auto simp: al_set_def al_lookup_def)
qed

text \<open>
  C40: \<open>_goc_dict_zip_impl\<close> pairs the arrays element by element, later duplicates overwriting in
  place, and aborts when the arrays have different lengths.
\<close>

theorem zip_or_abort:
  assumes "heap_good h" "arr_inv h ks" "arr_inv h vs" "alen ks < 2 ^ 54"
    "list_all live (arr_list h ks)"
  shows "if alen ks = alen vs
     then \<exists>d h'. goc_dict_zip_impl mem ks vs h = Some (Inr (d, h'))
            \<and> dict_rel mem h' d (al_set_all mem [] (zip (arr_list h ks) (arr_list h vs)))
     else goc_dict_zip_impl mem ks vs h = Some (Inl (Abort ''goc_dict_zip: key/value length mismatch''))"
proof (cases "alen ks = alen vs")
  case True
  let ?n = "alen ks"
  have "max 8 (2 * ?n) + 16 * (?n + 0) < 2 ^ 60" using assms(4) by simp
  then obtain d0 h0 where m: "goc_dict_make_internal ?n h = Some (Inr (d0, h0))"
    "dict_able mem (?n + 0) (d0, h0) []" "frame {} h h0" "adata (dkeys d0) = next_buf h"
    by (rule make_internal_ok [OF assms(1)])
  have len: "length (arr_list h ks) = ?n" "length (arr_list h vs) = ?n"
    using length_arr_list assms(2,3) True by simp_all
  have a0: "arr_inv h0 ks" "arr_list h0 ks = arr_list h ks" "arr_inv h0 vs" "arr_list h0 vs = arr_list h vs"
    using frame_arr [OF m(3) assms(2)] frame_arr [OF m(3) assms(3)] by simp_all
  have ne: "adata ks \<noteq> adata (dkeys d0)" "adata vs \<noteq> adata (dkeys d0)"
    using assms(2,3) heap_ok_fresh [OF heap_goodD(1) [OF assms(1)]] m(4) by (auto simp: arr_inv_def)
  have lv: "\<forall>i \<in> set [0..<?n]. i < alen ks \<and> i < alen vs \<and> live (arr_list h0 ks ! i)"
    using assms(5) len True a0(2) by (simp add: list_all_length)
  have z: "map (\<lambda>i. (arr_list h ks ! i, arr_list h vs ! i)) [0..<?n] = zip (arr_list h ks) (arr_list h vs)"
    using len by (intro nth_equalityI) simp_all
  obtain s where "zip_loop mem ks vs [0..<?n] d0 h0 = Some (Inr s)"
    "dict_post mem 0 d0 h0 (al_set_all mem [] (zip (arr_list h ks) (arr_list h vs))) s"
    using zip_loop_ok [of mem "[0..<?n]" 0 d0 h0 "[]" ks vs] m(2) a0 ne lv z by auto
  with True m(1) show ?thesis
    by (cases s) (auto simp: goc_dict_zip_impl_def goc_array_len_def dict_post_def dict_able_def)
qed (simp add: goc_dict_zip_impl_def goc_array_len_def)

theorem zip_or_abort_witness:
  "\<exists>h a d h'. arr_list h a = [5, 6, 7] \<and> goc_dict_zip_impl (\<lambda>p. if p = 5 then ''a'' else ''b'') a a h
     = Some (Inr (d, h')) \<and> dict_rel (\<lambda>p. if p = 5 then ''a'' else ''b'') h' d [(5, 5), (6, 7)]"
proof -
  have "list_all live (arr_list (empty_heap\<lparr>bufs := [0 \<mapsto> [5, 6, 7]], next_buf := 1\<rparr>)
      \<lparr>adata = 0, ahead = 0, alen = 3, acap = 3\<rparr>)"
    unfolding three_slots(3) by (simp add: live_def GOC_DICT_TOMBSTONE_def)
  from zip_or_abort [OF three_slots(1,2,2) _ this, of "\<lambda>p. if p = 5 then ''a'' else ''b''"]
    three_slots(3) show ?thesis
    by (fastforce simp: al_set_def al_lookup_def)
qed

end
