(* ===== verification/Goc_Dict_Path.thy ===== *)
theory Goc_Dict_Path
  imports Goc_Dict_Ops
begin

text \<open>
  Lookup along a path (\<open>goc_dict_get_in\<close> of goc_dict.c): the parser of paths such as
  \<open>.items.[1].id\<close>, with the C library's \<open>strtoul\<close> for the indices, walking through nested
  dictionaries and arrays. Reading a printed path is following its steps.
\<close>

section \<open>The code\<close>













section \<open>Paths as steps\<close>



















end
