(* ===== verification/Goc_Channel.thy ===== *)
theory Goc_Channel
  imports Goc_Refine
begin

text \<open>
  Channels, the parts that run under the channel's lock: the waiter entry of \<open>internal.h\<close>, the
  channel record of \<open>chan_type.h\<close>, the ring buffer and the wait-list helpers of
  \<open>channel_internal.h\<close>, and the claiming and waking of a parked waiter (\<open>try_claim_wake\<close>,
  \<open>wake\<close>, \<open>wake_claim\<close>) and the compaction of \<open>channel.c\<close>.

  A waiter is a pointer into the store \<open>ents\<close> of the world; an intrusive list
  (\<open>takers\<close>, \<open>putters\<close>) is the list of the pointers reached from its head, with the tail pointer
  kept as the code keeps it. What the code hands to the scheduler, the event loop or a user
  callback is recorded in \<open>posts\<close>, in order. A load of \<open>fe->parked\<close>, which the pool worker changes
  concurrently, takes its value from the environment: \<open>parked_loads env fe i\<close> is what the \<open>i\<close>-th
  load of a spin sees.
\<close>

section \<open>Data\<close>

datatype goc_entry_kind = GOC_FIBER | GOC_CALLBACK | GOC_SYNC

datatype goc_status = GOC_EMPTY | GOC_CLOSED | GOC_OK

text \<open>Where a delivered value goes: nowhere, a local variable of the parked fiber, or the
  entry's own \<open>cb_result\<close>.\<close>

datatype slot_ref = NoSlot | LocalSlot nat | OwnResult

record goc_entry =
  kind :: goc_entry_kind
  cancelled :: bool
  woken :: bool
  fired :: "nat option"
  pool :: nat
  home_worker_idx :: nat
  coro :: nat
  result_slot :: slot_ref
  ok :: goc_status
  arm_idx :: nat
  cb :: "nat option"
  put_cb :: "nat option"
  ud :: ptr
  cb_result :: ptr
  put_val :: ptr
  pend_ch :: bool
  is_put :: bool
  free_on_drain :: bool
  sync_sem_ptr :: nat
  parked :: "64 word"
  parked_gen :: "64 word"

text \<open>The zero-initialised entry \<open>(goc_entry){ 0 }\<close>.\<close>

definition entry_zero :: goc_entry where
  "entry_zero = \<lparr>kind = GOC_FIBER, cancelled = False, woken = False, fired = None, pool = 0,
     home_worker_idx = 0, coro = 0, result_slot = NoSlot, ok = GOC_CLOSED, arm_idx = 0, cb = None,
     put_cb = None, ud = 0, cb_result = 0, put_val = 0, pend_ch = False, is_put = False,
     free_on_drain = False, sync_sem_ptr = 0, parked = 0, parked_gen = 0\<rparr>"

datatype goc_chan_close_state = GOC_CHAN_OPEN | GOC_CHAN_CLOSE_REQUESTED | GOC_CHAN_CLOSING

record goc_chan =
  buf :: "ptr list"
  buf_size :: nat
  buf_head :: nat
  buf_count :: nat
  item_count :: nat
  takers :: "nat list"
  takers_tail :: "nat option"
  putters :: "nat list"
  putters_tail :: "nat option"
  closed :: bool
  dead_count :: nat
  close_guard :: goc_chan_close_state
  on_close :: "(nat \<times> ptr) option"

text \<open>What leaves the channel code: a fiber posted to its worker or to the run queue of its
  pool, an entry queued for the loop thread, a callback called on the loop thread, the
  on-close callback called, the channel taken off the registry.\<close>

datatype post =
    PostWorker nat nat nat
  | PostRunQueue nat nat
  | PostCallback nat
  | CallCb nat ptr goc_status ptr
  | CallOnClose nat ptr
  | Unregistered

record goc_world =
  ents :: "nat \<Rightarrow> goc_entry"
  next_ent :: nat
  flags :: "nat \<Rightarrow> bool"
  locals :: "nat \<Rightarrow> ptr"
  sems :: "nat \<Rightarrow> bool"
  posts :: "post list"
  freed :: "nat list"

record goc_env =
  user_data :: "nat \<Rightarrow> nat"
  thread_count :: "nat \<Rightarrow> nat"
  parked_loads :: "nat \<Rightarrow> nat \<Rightarrow> 64 word"

definition upd_ent :: "nat \<Rightarrow> (goc_entry \<Rightarrow> goc_entry) \<Rightarrow> goc_world \<Rightarrow> goc_world" where
  "upd_ent p f w = w\<lparr>ents := (ents w)(p := f (ents w p))\<rparr>"

definition log_post :: "post \<Rightarrow> goc_world \<Rightarrow> goc_world" where
  "log_post x w = w\<lparr>posts := posts w @ [x]\<rparr>"

section \<open>Wait lists and the ring buffer\<close>

text \<open>
  \<open>chan_list_append\<close>: with a tail pointer the new entry is linked behind that node, so whatever
  the list held behind it is cut off, and a tail that is not on the list leaves the list as it
  is; without one the list is walked to its end.
\<close>

definition chan_list_append :: "nat list \<Rightarrow> nat option \<Rightarrow> nat \<Rightarrow> nat list \<times> nat option" where
  "chan_list_append xs tail e =
     (case tail of
        Some t \<Rightarrow> (if t \<in> set xs then takeWhile (\<lambda>x. x \<noteq> t) xs @ [t, e] else xs, Some e)
      | None \<Rightarrow> if xs = [] then ([e], Some e) else (xs @ [e], Some e))"

definition append_taker :: "nat \<Rightarrow> goc_chan \<Rightarrow> goc_chan" where
  "append_taker e ch = (case chan_list_append (takers ch) (takers_tail ch) e of
     (xs, t) \<Rightarrow> ch\<lparr>takers := xs, takers_tail := t\<rparr>)"

definition append_putter :: "nat \<Rightarrow> goc_chan \<Rightarrow> goc_chan" where
  "append_putter e ch = (case chan_list_append (putters ch) (putters_tail ch) e of
     (xs, t) \<Rightarrow> ch\<lparr>putters := xs, putters_tail := t\<rparr>)"

definition chan_put_to_buffer :: "ptr \<Rightarrow> goc_chan \<Rightarrow> (bool \<times> goc_chan) res" where
  "chan_put_to_buffer v ch =
     (if buf_size ch \<le> buf_count ch then Inr (False, ch)
      else
        let tail = size_add (buf_head ch) (buf_count ch) mod buf_size ch in
        rbind (lwrite (buf ch) tail v) (\<lambda>b.
        Inr (True, ch\<lparr>buf := b, buf_count := size_add (buf_count ch) 1,
                      item_count := size_add (item_count ch) 1\<rparr>)))"

definition chan_take_from_buffer :: "goc_chan \<Rightarrow> (ptr option \<times> goc_chan) res" where
  "chan_take_from_buffer ch =
     (if buf_count ch = 0 then Inr (None, ch)
      else
        rbind (lread (buf ch) (buf_head ch)) (\<lambda>v.
        Inr (Some v, ch\<lparr>buf_head := size_add (buf_head ch) 1 mod buf_size ch,
                        buf_count := size_sub (buf_count ch) 1,
                        item_count := (if 0 < item_count ch then size_sub (item_count ch) 1
                                       else item_count ch)\<rparr>)))"

section \<open>Claiming and waking\<close>

text \<open>The two compare-and-swap steps of \<open>try_claim_wake\<close>.\<close>

definition claim_woken :: "nat \<Rightarrow> goc_world \<Rightarrow> bool \<times> goc_world" where
  "claim_woken p w =
     (if woken (ents w p) then (False, w) else (True, upd_ent p (\<lambda>e. e\<lparr>woken := True\<rparr>) w))"

definition try_claim_wake :: "nat \<Rightarrow> goc_world \<Rightarrow> bool \<times> goc_world" where
  "try_claim_wake p w =
     (case fired (ents w p) of
        Some f \<Rightarrow> if flags w f then (False, w)
                  else claim_woken p (w\<lparr>flags := (flags w)(f := True)\<rparr>)
      | None \<Rightarrow> claim_woken p w)"

text \<open>\<open>*e->result_slot = value\<close>, when there is a slot.\<close>

definition write_result :: "nat \<Rightarrow> ptr \<Rightarrow> goc_world \<Rightarrow> goc_world" where
  "write_result p v w =
     (case result_slot (ents w p) of
        NoSlot \<Rightarrow> w
      | LocalSlot i \<Rightarrow> w\<lparr>locals := (locals w)(i := v)\<rparr>
      | OwnResult \<Rightarrow> upd_ent p (\<lambda>e. e\<lparr>cb_result := v\<rparr>) w)"

definition POST_CALLBACK :: "nat \<Rightarrow> ptr \<Rightarrow> goc_world \<Rightarrow> goc_world" where
  "POST_CALLBACK p v w = log_post (PostCallback p) (upd_ent p (\<lambda>e. e\<lparr>cb_result := v\<rparr>) w)"

definition goc_sync_init :: "nat \<Rightarrow> goc_world \<Rightarrow> goc_world" where
  "goc_sync_init s w = w\<lparr>sems := (sems w)(s := False)\<rparr>"

definition goc_sync_post :: "nat \<Rightarrow> goc_world \<Rightarrow> goc_world" where
  "goc_sync_post s w = w\<lparr>sems := (sems w)(s := True)\<rparr>"

text \<open>\<open>goc_sync_wait\<close> returns when the semaphore is ready; \<open>None\<close> while the thread is blocked.\<close>

definition goc_sync_wait :: "nat \<Rightarrow> goc_world \<Rightarrow> goc_world option" where
  "goc_sync_wait s w = (if sems w s then Some w else None)"

text \<open>The value of \<open>fe->parked\<close> that says the fiber is suspended in the park the entry records.\<close>

definition want_of :: "goc_entry \<Rightarrow> 64 word" where
  "want_of e = push_bit 1 (parked_gen e) + 2"

partial_function (option) wait_for_fiber_suspended ::
  "(nat \<Rightarrow> 64 word) \<Rightarrow> 64 word \<Rightarrow> nat \<Rightarrow> bool res option" where
  "wait_for_fiber_suspended loads want i =
     (if loads i = want then Some (Inr True)
      else if loads i = 0 \<or> want < loads i then Some (Inr False)
      else wait_for_fiber_suspended loads want (Suc i))"

text \<open>The dispatch of a suspended fiber to its home worker, or to the run queue of its pool.\<close>

definition post_fiber :: "goc_env \<Rightarrow> nat \<Rightarrow> goc_world \<Rightarrow> goc_world" where
  "post_fiber env fe w =
     (let f = ents w fe in
      if home_worker_idx f \<noteq> SIZE_MAX \<and> pool f \<noteq> 0 \<and> home_worker_idx f < thread_count env (pool f)
      then log_post (PostWorker (pool f) (home_worker_idx f) fe) w
      else log_post (PostRunQueue (pool f) fe) w)"

definition bump_dead :: "goc_chan \<Rightarrow> goc_chan" where
  "bump_dead ch = ch\<lparr>dead_count := size_add (dead_count ch) 1\<rparr>"

definition wake ::
  "goc_env \<Rightarrow> nat \<Rightarrow> ptr \<Rightarrow> goc_world \<Rightarrow> goc_chan \<Rightarrow> (bool \<times> goc_world \<times> goc_chan) out" where
  "wake env p v w ch =
     (if cancelled (ents w p) then Some (Inr (False, w, bump_dead ch))
      else case try_claim_wake p w of
        (False, w1) \<Rightarrow> Some (Inr (False, w1, bump_dead ch))
      | (True, w1) \<Rightarrow>
          let w2 = upd_ent p (\<lambda>e. e\<lparr>ok := GOC_OK\<rparr>) (write_result p v w1);
              e = ents w2 p
          in case kind e of
               GOC_FIBER \<Rightarrow>
                 let fe = user_data env (coro e) in
                 obind (wait_for_fiber_suspended (parked_loads env fe) (want_of e) 0) (\<lambda>there.
                 if there then Some (Inr (True, post_fiber env fe w2, ch))
                 else Some (Inr (False, w2, ch)))
             | GOC_CALLBACK \<Rightarrow> Some (Inr (True, POST_CALLBACK p v w2, ch))
             | GOC_SYNC \<Rightarrow> Some (Inr (True, goc_sync_post (sync_sem_ptr e) w2, ch)))"

text \<open>\<open>wake_claim\<close> returns the fiber the caller has to wait for and post, if there is one; its
  look at \<open>fe->parked\<close> is the load numbered 0, the caller's spin starts with the next.\<close>

definition stale_park :: "goc_env \<Rightarrow> goc_entry \<Rightarrow> bool" where
  "stale_park env e =
     (kind e = GOC_FIBER \<and>
      (let p = parked_loads env (user_data env (coro e)) 0 in p = 0 \<or> want_of e < p))"

definition wake_claim ::
  "goc_env \<Rightarrow> nat \<Rightarrow> ptr \<Rightarrow> goc_world \<Rightarrow> goc_chan \<Rightarrow> (nat option option \<times> goc_world \<times> goc_chan)" where
  "wake_claim env p v w ch =
     (if cancelled (ents w p) then (None, w, bump_dead ch)
      else if stale_park env (ents w p) then (None, w, bump_dead ch)
      else case try_claim_wake p w of
        (False, w1) \<Rightarrow> (None, w1, bump_dead ch)
      | (True, w1) \<Rightarrow>
          let w2 = upd_ent p (\<lambda>e. e\<lparr>ok := GOC_OK\<rparr>) (write_result p v w1);
              e = ents w2 p
          in case kind e of
               GOC_FIBER \<Rightarrow> (Some (Some (user_data env (coro e))), w2, ch)
             | GOC_CALLBACK \<Rightarrow> (Some None, POST_CALLBACK p v w2, ch)
             | GOC_SYNC \<Rightarrow> (Some None, goc_sync_post (sync_sem_ptr e) w2, ch))"

text \<open>
  The walk the four wait-list helpers share: an entry that is cancelled is unlinked and skipped,
  every other is offered to \<open>wk\<close>; the walk stops behind the first one that \<open>wk\<close> wakes, the
  entries before it are gone. The result is what \<open>wk\<close> returned and the rest of the list.
\<close>

fun scan_waiters ::
  "(nat \<Rightarrow> goc_world \<Rightarrow> goc_chan \<Rightarrow> ('r option \<times> goc_world \<times> goc_chan) out) \<Rightarrow> nat list \<Rightarrow> goc_world
   \<Rightarrow> goc_chan \<Rightarrow> ('r option \<times> nat list \<times> goc_world \<times> goc_chan) out" where
  "scan_waiters wk [] w ch = Some (Inr (None, [], w, ch))"
| "scan_waiters wk (p # ps) w ch =
     (if cancelled (ents w p) then scan_waiters wk ps w ch
      else obind (wk p w ch) (\<lambda>(r, w1, ch1).
        case r of
          Some x \<Rightarrow> Some (Inr (Some x, ps, w1, ch1))
        | None \<Rightarrow> scan_waiters wk ps w1 ch1))"

definition set_takers :: "nat list \<Rightarrow> goc_chan \<Rightarrow> goc_chan" where
  "set_takers ps ch = ch\<lparr>takers := ps,
     takers_tail := (if takers ch \<noteq> [] \<and> ps = [] then None else takers_tail ch)\<rparr>"

definition set_putters :: "nat list \<Rightarrow> goc_chan \<Rightarrow> goc_chan" where
  "set_putters ps ch = ch\<lparr>putters := ps,
     putters_tail := (if putters ch \<noteq> [] \<and> ps = [] then None else putters_tail ch)\<rparr>"

definition chan_put_to_taker ::
  "goc_env \<Rightarrow> ptr \<Rightarrow> goc_world \<Rightarrow> goc_chan \<Rightarrow> (bool \<times> goc_world \<times> goc_chan) out" where
  "chan_put_to_taker env v w ch =
     obind (scan_waiters (\<lambda>p w ch. obind (wake env p v w ch) (\<lambda>(b, w1, ch1).
              Some (Inr (if b then Some () else None, w1, ch1)))) (takers ch) w ch)
       (\<lambda>(r, ps, w1, ch1). Some (Inr (r \<noteq> None, w1, set_takers ps ch1)))"

definition chan_take_from_putter ::
  "goc_env \<Rightarrow> goc_world \<Rightarrow> goc_chan \<Rightarrow> (ptr option \<times> goc_world \<times> goc_chan) out" where
  "chan_take_from_putter env w ch =
     obind (scan_waiters (\<lambda>p w ch. let v = put_val (ents w p) in
              obind (wake env p NULL w ch) (\<lambda>(b, w1, ch1).
              Some (Inr (if b then Some v else None, w1, ch1)))) (putters ch) w ch)
       (\<lambda>(r, ps, w1, ch1). Some (Inr (r, w1, set_putters ps ch1)))"

text \<open>The \<open>_claim\<close> variants also give the fiber to post and the value of \<open>fe->parked\<close> to wait for.\<close>

definition chan_put_to_taker_claim ::
  "goc_env \<Rightarrow> ptr \<Rightarrow> goc_world \<Rightarrow> goc_chan
   \<Rightarrow> ((nat option \<times> 64 word) option \<times> goc_world \<times> goc_chan) out" where
  "chan_put_to_taker_claim env v w ch =
     obind (scan_waiters (\<lambda>p w ch. case wake_claim env p v w ch of (r, w1, ch1) \<Rightarrow>
              Some (Inr (map_option (\<lambda>fe. (fe, want_of (ents w1 p))) r, w1, ch1))) (takers ch) w ch)
       (\<lambda>(r, ps, w1, ch1). Some (Inr (r, w1, set_takers ps ch1)))"

definition chan_take_from_putter_claim ::
  "goc_env \<Rightarrow> goc_world \<Rightarrow> goc_chan
   \<Rightarrow> ((ptr \<times> nat option \<times> 64 word) option \<times> goc_world \<times> goc_chan) out" where
  "chan_take_from_putter_claim env w ch =
     obind (scan_waiters (\<lambda>p w ch. let v = put_val (ents w p) in
              case wake_claim env p NULL w ch of (r, w1, ch1) \<Rightarrow>
              Some (Inr (map_option (\<lambda>fe. (v, fe, want_of (ents w1 p))) r, w1, ch1))) (putters ch) w ch)
       (\<lambda>(r, ps, w1, ch1). Some (Inr (r, w1, set_putters ps ch1)))"

text \<open>\<open>compact_dead_entries\<close>: the cancelled entries are unlinked, those that are to be freed are
  freed, and both tail pointers are repaired.\<close>

definition GOC_DEAD_COUNT_THRESHOLD :: nat where
  "GOC_DEAD_COUNT_THRESHOLD = 8"

definition last_of :: "nat list \<Rightarrow> nat option" where
  "last_of xs = (if xs = [] then None else Some (last xs))"

definition compact_list :: "goc_world \<Rightarrow> nat list \<Rightarrow> nat list" where
  "compact_list w xs = filter (\<lambda>p. \<not> cancelled (ents w p)) xs"

definition compact_freed :: "goc_world \<Rightarrow> nat list \<Rightarrow> nat list" where
  "compact_freed w xs = filter (\<lambda>p. cancelled (ents w p) \<and> free_on_drain (ents w p)) xs"

definition compact_dead_entries :: "goc_world \<Rightarrow> goc_chan \<Rightarrow> goc_world \<times> goc_chan" where
  "compact_dead_entries w ch =
     (let ts = compact_list w (takers ch); ps = compact_list w (putters ch) in
      (w\<lparr>freed := freed w @ compact_freed w (takers ch) @ compact_freed w (putters ch)\<rparr>,
       ch\<lparr>takers := ts, takers_tail := last_of ts, putters := ps, putters_tail := last_of ps,
          dead_count := 0\<rparr>))"

definition compact_if_due :: "goc_world \<Rightarrow> goc_chan \<Rightarrow> goc_world \<times> goc_chan" where
  "compact_if_due w ch =
     (if GOC_DEAD_COUNT_THRESHOLD \<le> dead_count ch then compact_dead_entries w ch else (w, ch))"

section \<open>The ring buffer as a queue\<close>

definition ring_ok :: "goc_chan \<Rightarrow> bool" where
  "ring_ok ch = (length (buf ch) = buf_size ch \<and> buf_size ch < 2 ^ 61 \<and> buf_count ch \<le> buf_size ch
     \<and> (buf_size ch \<noteq> 0 \<longrightarrow> buf_head ch < buf_size ch) \<and> item_count ch = buf_count ch)"

definition ring_list :: "goc_chan \<Rightarrow> ptr list" where
  "ring_list ch = map (\<lambda>i. buf ch ! ((buf_head ch + i) mod buf_size ch)) [0..<buf_count ch]"

lemma length_ring_list [simp]: "length (ring_list ch) = buf_count ch"
  by (simp add: ring_list_def)

lemma mod_add_inj_le:
  fixes n :: nat
  assumes "i \<le> j" "j < n" "(h + i) mod n = (h + j) mod n"
  shows "i = j"
proof -
  have "n dvd (h + j) - (h + i)"
    using assms by (subst mod_eq_dvd_iff_nat [symmetric]) simp_all
  then have "j - i = 0" using assms nat_dvd_not_less [of "j - i" n] by fastforce
  with assms show ?thesis by simp
qed

lemma mod_add_inj:
  fixes n :: nat
  assumes "i < n" "j < n" "(h + i) mod n = (h + j) mod n"
  shows "i = j"
  using mod_add_inj_le [of i j n h] mod_add_inj_le [of j i n h] assms by linarith

lemma ring_full: "\<lbrakk>ring_ok ch; buf_count ch = buf_size ch\<rbrakk> \<Longrightarrow> chan_put_to_buffer v ch = Inr (False, ch)"
  by (simp add: chan_put_to_buffer_def)

lemma ring_put:
  assumes "ring_ok ch" "buf_count ch < buf_size ch"
  obtains b where "chan_put_to_buffer v ch
      = Inr (True, ch\<lparr>buf := b, buf_count := Suc (buf_count ch), item_count := Suc (item_count ch)\<rparr>)"
    and "ring_ok (ch\<lparr>buf := b, buf_count := Suc (buf_count ch), item_count := Suc (item_count ch)\<rparr>)"
    and "ring_list (ch\<lparr>buf := b, buf_count := Suc (buf_count ch), item_count := Suc (item_count ch)\<rparr>)
      = ring_list ch @ [v]"
proof -
  let ?t = "(buf_head ch + buf_count ch) mod buf_size ch"
  let ?b = "(buf ch)[?t := v]"
  have h: "buf_head ch < buf_size ch" "length (buf ch) = buf_size ch" "buf_size ch < 2 ^ 61"
    using assms by (auto simp: ring_ok_def)
  then have t: "?t < length (buf ch)" by simp
  have "size_add (buf_head ch) (buf_count ch) = buf_head ch + buf_count ch"
    "size_add (buf_count ch) 1 = Suc (buf_count ch)" "size_add (item_count ch) 1 = Suc (item_count ch)"
    using assms h by (simp_all add: size_add_def ring_ok_def)
  then have 1: "chan_put_to_buffer v ch = Inr (True, ch\<lparr>buf := ?b, buf_count := Suc (buf_count ch),
      item_count := Suc (item_count ch)\<rparr>)"
    using assms t by (simp add: chan_put_to_buffer_def)
  have 2: "ring_ok (ch\<lparr>buf := ?b, buf_count := Suc (buf_count ch), item_count := Suc (item_count ch)\<rparr>)"
    using assms by (simp add: ring_ok_def)
  have "?b ! ((buf_head ch + i) mod buf_size ch) = buf ch ! ((buf_head ch + i) mod buf_size ch)"
    if "i < buf_count ch" for i
  proof -
    have "?t \<noteq> (buf_head ch + i) mod buf_size ch"
      using mod_add_inj [of "buf_count ch" "buf_size ch" i "buf_head ch"] assms that by auto
    then show ?thesis by simp
  qed
  then have "ring_list (ch\<lparr>buf := ?b, buf_count := Suc (buf_count ch), item_count := Suc (item_count ch)\<rparr>)
      = ring_list ch @ [v]"
    using t by (simp add: ring_list_def)
  with 1 2 that show thesis by blast
qed

lemma ring_empty: "buf_count ch = 0 \<Longrightarrow> chan_take_from_buffer ch = Inr (None, ch)"
  by (simp add: chan_take_from_buffer_def)

lemma ring_take:
  assumes "ring_ok ch" "ring_list ch = v # vs"
  obtains h where "chan_take_from_buffer ch
      = Inr (Some v, ch\<lparr>buf_head := h, buf_count := buf_count ch - 1, item_count := item_count ch - 1\<rparr>)"
    and "ring_ok (ch\<lparr>buf_head := h, buf_count := buf_count ch - 1, item_count := item_count ch - 1\<rparr>)"
    and "ring_list (ch\<lparr>buf_head := h, buf_count := buf_count ch - 1, item_count := item_count ch - 1\<rparr>) = vs"
proof -
  let ?h = "Suc (buf_head ch) mod buf_size ch"
  obtain n where n: "buf_count ch = Suc n" and sz: "buf_size ch \<noteq> 0"
    using assms by (cases "buf_count ch") (auto simp: ring_list_def ring_ok_def)
  have h: "buf_head ch < buf_size ch" "length (buf ch) = buf_size ch" "buf_size ch < 2 ^ 61"
    "item_count ch = Suc n" "Suc n \<le> buf_size ch"
    using assms sz n by (auto simp: ring_ok_def)
  have "ring_list ch = buf ch ! buf_head ch #
      map (\<lambda>i. buf ch ! ((buf_head ch + Suc i) mod buf_size ch)) [0..<n]"
    using h by (simp add: ring_list_def n upt_conv_Cons map_Suc_upt [symmetric] o_def del: upt_Suc)
  then have v: "v = buf ch ! buf_head ch"
    and vs: "vs = map (\<lambda>i. buf ch ! ((buf_head ch + Suc i) mod buf_size ch)) [0..<n]"
    using assms(2) by simp_all
  have "size_add (buf_head ch) 1 = Suc (buf_head ch)" "size_sub (Suc n) 1 = n"
    using h by (simp_all add: size_add_def size_sub_eq)
  then have 1: "chan_take_from_buffer ch = Inr (Some v, ch\<lparr>buf_head := ?h,
      buf_count := buf_count ch - 1, item_count := item_count ch - 1\<rparr>)"
    using h by (simp add: chan_take_from_buffer_def n v)
  have 2: "ring_ok (ch\<lparr>buf_head := ?h, buf_count := buf_count ch - 1, item_count := item_count ch - 1\<rparr>)"
    using h sz n by (simp add: ring_ok_def)
  have "ring_list (ch\<lparr>buf_head := ?h, buf_count := buf_count ch - 1, item_count := item_count ch - 1\<rparr>) = vs"
    by (simp add: ring_list_def n vs mod_add_left_eq)
  with 1 2 that show thesis by blast
qed

section \<open>Wait lists\<close>

text \<open>The tail pointer is unknown or the last node.\<close>

definition tail_ok :: "nat list \<Rightarrow> nat option \<Rightarrow> bool" where
  "tail_ok xs t = (t = None \<or> xs \<noteq> [] \<and> t = Some (last xs))"

lemma takeWhile_last:
  "\<lbrakk>distinct xs; xs \<noteq> []\<rbrakk> \<Longrightarrow> takeWhile (\<lambda>x. x \<noteq> last xs) xs = butlast xs"
  by (induction xs rule: rev_induct) (auto simp: takeWhile_append)

lemma list_append_ok:
  assumes "tail_ok xs t" "distinct xs"
  shows "chan_list_append xs t e = (xs @ [e], Some e)"
  using assms takeWhile_last [of xs] append_butlast_last_id [of xs]
  by (auto simp: chan_list_append_def tail_ok_def)

lemma tail_ok_simps [simp]:
  "tail_ok (xs @ [e]) (Some e)" "tail_ok xs (last_of xs)" "tail_ok xs None"
  by (simp_all add: tail_ok_def last_of_def)

lemma tail_ok_suffix:
  "\<lbrakk>tail_ok (xs @ ys) t\<rbrakk> \<Longrightarrow> tail_ok ys (if xs @ ys \<noteq> [] \<and> ys = [] then None else t)"
  by (auto simp: tail_ok_def)

section \<open>Claims\<close>

definition claimable :: "goc_world \<Rightarrow> nat \<Rightarrow> bool" where
  "claimable w p = (\<not> cancelled (ents w p) \<and> \<not> woken (ents w p) \<and>
     (case fired (ents w p) of None \<Rightarrow> True | Some f \<Rightarrow> \<not> flags w f))"

text \<open>A woken arm of a select has its shared flag set.\<close>

definition flag_ok :: "goc_world \<Rightarrow> nat \<Rightarrow> bool" where
  "flag_ok w p = (woken (ents w p) \<longrightarrow>
     (case fired (ents w p) of None \<Rightarrow> True | Some f \<Rightarrow> flags w f))"

text \<open>What a successful claim does: both flags are set.\<close>

definition claimed :: "nat \<Rightarrow> goc_world \<Rightarrow> goc_world" where
  "claimed p w = upd_ent p (\<lambda>e. e\<lparr>woken := True\<rparr>)
     (case fired (ents w p) of None \<Rightarrow> w | Some f \<Rightarrow> w\<lparr>flags := (flags w)(f := True)\<rparr>)"

lemma claim_hit: "claimable w p \<Longrightarrow> try_claim_wake p w = (True, claimed p w)"
  by (auto simp: try_claim_wake_def claimable_def claimed_def claim_woken_def split: option.splits)

lemma claim_miss:
  "\<lbrakk>\<not> claimable w p; \<not> cancelled (ents w p); flag_ok w p\<rbrakk> \<Longrightarrow> try_claim_wake p w = (False, w)"
  by (auto simp: try_claim_wake_def claimable_def flag_ok_def claim_woken_def split: option.splits)

text \<open>The waiters that a claim of \<open>p\<close> takes out of the running: \<open>p\<close> and the other arms of its select.\<close>

definition same_group :: "goc_world \<Rightarrow> nat \<Rightarrow> nat \<Rightarrow> bool" where
  "same_group w p q = (p = q \<or> fired (ents w p) \<noteq> None \<and> fired (ents w q) = fired (ents w p))"

text \<open>What an operation may change of the entries: a claimed world differs from the original in
  the claim flags, the delivered results, the posts.\<close>

definition settled_fields :: "goc_entry \<Rightarrow> goc_entry" where
  "settled_fields e = e\<lparr>woken := True, ok := GOC_OK, cb_result := 0\<rparr>"

definition claims :: "nat \<Rightarrow> goc_world \<Rightarrow> goc_world \<Rightarrow> bool" where
  "claims p w w' = (flags w' = flags (claimed p w) \<and> (\<forall>q. q \<noteq> p \<longrightarrow> ents w' q = ents w q)
     \<and> woken (ents w' p) \<and> settled_fields (ents w' p) = settled_fields (ents w p)
     \<and> next_ent w' = next_ent w \<and> freed w' = freed w)"

lemma claims_claimable:
  assumes "claims p w w'"
  shows "claimable w' q \<longleftrightarrow> claimable w q \<and> \<not> same_group w p q"
proof (cases "q = p")
  case True
  with assms show ?thesis by (simp add: claimable_def claims_def same_group_def)
next
  case False
  with assms have "ents w' q = ents w q" "flags w' = flags (claimed p w)" by (simp_all add: claims_def)
  with False show ?thesis
    by (auto simp: claimable_def claimed_def same_group_def upd_ent_def split: option.splits)
qed

lemma settled_fields_eqD:
  "settled_fields a = settled_fields b \<Longrightarrow>
     kind a = kind b \<and> cancelled a = cancelled b \<and> fired a = fired b \<and> pool a = pool b \<and>
     home_worker_idx a = home_worker_idx b \<and> coro a = coro b \<and> result_slot a = result_slot b \<and>
     put_val a = put_val b \<and> sync_sem_ptr a = sync_sem_ptr b \<and> parked_gen a = parked_gen b \<and>
     arm_idx a = arm_idx b \<and> free_on_drain a = free_on_drain b"
  by (cases a; cases b) (simp add: settled_fields_def)

lemma claims_keep:
  assumes "claims p w w'"
  shows "kind (ents w' q) = kind (ents w q)" "cancelled (ents w' q) = cancelled (ents w q)"
    "fired (ents w' q) = fired (ents w q)" "coro (ents w' q) = coro (ents w q)"
    "put_val (ents w' q) = put_val (ents w q)" "parked_gen (ents w' q) = parked_gen (ents w q)"
    "free_on_drain (ents w' q) = free_on_drain (ents w q)"
  using assms settled_fields_eqD [of "ents w' p" "ents w p"]
  by (cases "q = p"; simp add: claims_def)+

lemma claims_flag_ok:
  assumes "claims p w w'" "flag_ok w q"
  shows "flag_ok w' q"
proof (cases "q = p")
  case True
  with assms claims_keep(3) [OF assms(1), of p] show ?thesis
    by (auto simp: flag_ok_def claims_def claimed_def upd_ent_def split: option.splits)
next
  case False
  with assms show ?thesis
    by (auto simp: flag_ok_def claims_def claimed_def upd_ent_def split: option.splits)
qed

section \<open>The park handshake\<close>

text \<open>
  The pool worker's side of the handshake: from some load on the fiber is seen suspended in the
  park the entry records, and until then in that park or an earlier phase of it.
\<close>

definition settles :: "(nat \<Rightarrow> 64 word) \<Rightarrow> 64 word \<Rightarrow> bool" where
  "settles loads want = (\<exists>n > 0. loads n = want \<and> (\<forall>i < n. loads i \<noteq> 0 \<and> loads i \<le> want))"

lemma wait_True:
  assumes "loads (i + n) = want" "\<forall>j < n. loads (i + j) \<noteq> 0 \<and> loads (i + j) \<le> want"
  shows "wait_for_fiber_suspended loads want i = Some (Inr True)"
  using assms
proof (induction n arbitrary: i)
  case 0
  then show ?case by (simp add: wait_for_fiber_suspended.simps)
next
  case (Suc n)
  have "loads i \<noteq> 0 \<and> loads i \<le> want" using Suc.prems(2) by (auto dest: spec [of _ 0])
  moreover have "wait_for_fiber_suspended loads want (Suc i) = Some (Inr True)"
  proof (rule Suc.IH)
    show "\<forall>j<n. loads (Suc i + j) \<noteq> 0 \<and> loads (Suc i + j) \<le> want"
      using Suc.prems(2) by (metis Suc_less_eq add_Suc_shift)
  qed (use Suc.prems(1) in simp)
  ultimately show ?case by (subst wait_for_fiber_suspended.simps) auto
qed

lemma wait_settles:
  assumes "settles loads want"
  shows "wait_for_fiber_suspended loads want 0 = Some (Inr True)"
    and "wait_for_fiber_suspended loads want 1 = Some (Inr True)"
proof -
  from assms obtain n where n: "n > 0" "loads n = want" "\<forall>i<n. loads i \<noteq> 0 \<and> loads i \<le> want"
    by (auto simp: settles_def)
  then show "wait_for_fiber_suspended loads want 0 = Some (Inr True)"
    by (intro wait_True [of _ _ n]) simp_all
  show "wait_for_fiber_suspended loads want 1 = Some (Inr True)"
    using n by (intro wait_True [of _ _ "n - 1"]) auto
qed

definition ready :: "goc_env \<Rightarrow> goc_world \<Rightarrow> nat \<Rightarrow> bool" where
  "ready env w p = (kind (ents w p) = GOC_FIBER \<longrightarrow>
     settles (parked_loads env (user_data env (coro (ents w p)))) (want_of (ents w p)))"

lemma ready_not_stale: "ready env w p \<Longrightarrow> \<not> stale_park env (ents w p)"
  by (auto simp: ready_def stale_park_def settles_def Let_def)

lemma claims_ready: "claims p w w' \<Longrightarrow> ready env w' q = ready env w q"
  by (simp add: ready_def want_of_def claims_keep)

section \<open>Waking the first live waiter\<close>

text \<open>The world after a value was delivered to \<open>p\<close>, and after \<open>p\<close> was dispatched.\<close>

definition delivered :: "nat \<Rightarrow> ptr \<Rightarrow> goc_world \<Rightarrow> goc_world" where
  "delivered p v w = upd_ent p (\<lambda>e. e\<lparr>ok := GOC_OK\<rparr>) (write_result p v (claimed p w))"

definition dispatched :: "goc_env \<Rightarrow> nat \<Rightarrow> ptr \<Rightarrow> goc_world \<Rightarrow> goc_world" where
  "dispatched env p v w =
     (case kind (ents w p) of
        GOC_FIBER \<Rightarrow> post_fiber env (user_data env (coro (ents w p))) w
      | GOC_CALLBACK \<Rightarrow> POST_CALLBACK p v w
      | GOC_SYNC \<Rightarrow> goc_sync_post (sync_sem_ptr (ents w p)) w)"

lemma world_ents_simps [simp]:
  "ents (log_post x w) = ents w" "flags (log_post x w) = flags w"
  "ents (goc_sync_post m w) = ents w" "flags (goc_sync_post m w) = flags w"
  "ents (post_fiber env fe w) = ents w" "flags (post_fiber env fe w) = flags w"
  "flags (upd_ent p f w) = flags w" "ents (upd_ent p f w) = (ents w)(p := f (ents w p))"
  "next_ent (log_post x w) = next_ent w" "freed (log_post x w) = freed w"
  "next_ent (goc_sync_post m w) = next_ent w" "freed (goc_sync_post m w) = freed w"
  "next_ent (post_fiber env fe w) = next_ent w" "freed (post_fiber env fe w) = freed w"
  "next_ent (upd_ent p f w) = next_ent w" "freed (upd_ent p f w) = freed w"
  by (simp_all add: log_post_def goc_sync_post_def post_fiber_def upd_ent_def Let_def)

lemma claimed_simps [simp]:
  "ents (claimed p w) = (ents w)(p := (ents w p)\<lparr>woken := True\<rparr>)"
  "next_ent (claimed p w) = next_ent w" "freed (claimed p w) = freed w"
  by (simp_all add: claimed_def split: option.splits)

lemma write_result_simps [simp]:
  "flags (write_result p v w) = flags w" "next_ent (write_result p v w) = next_ent w"
  "freed (write_result p v w) = freed w"
  "ents (write_result p v w) = (if result_slot (ents w p) = OwnResult
     then (ents w)(p := (ents w p)\<lparr>cb_result := v\<rparr>) else ents w)"
  by (simp_all add: write_result_def split: slot_ref.splits)

lemma claims_delivered: "claims p w (delivered p v w)"
  by (simp add: claims_def delivered_def settled_fields_def)

lemma claims_dispatched: "claims p w (dispatched env p v (delivered p v w))"
  using claims_delivered [of p w v]
  by (auto simp: dispatched_def claims_def POST_CALLBACK_def settled_fields_def
      split: goc_entry_kind.splits)

lemma delivered_entry:
  "ents (delivered p v w) p = (ents w p)\<lparr>woken := True, ok := GOC_OK,
     cb_result := (if result_slot (ents w p) = OwnResult then v else cb_result (ents w p))\<rparr>"
  by (simp add: delivered_def)

lemma wake_hit:
  assumes "claimable w p" "ready env w p"
  shows "wake env p v w ch = Some (Inr (True, dispatched env p v (delivered p v w), ch))"
proof -
  have nc: "\<not> cancelled (ents w p)" using assms(1) by (simp add: claimable_def)
  let ?w = "delivered p v w"
  have k: "kind (ents ?w p) = kind (ents w p)" "coro (ents ?w p) = coro (ents w p)"
    "want_of (ents ?w p) = want_of (ents w p)"
    by (simp_all add: delivered_entry want_of_def)
  show ?thesis
    using assms(2) wait_settles(1) nc k
    by (simp add: wake_def claim_hit [OF assms(1)] delivered_def [symmetric] dispatched_def
        Let_def ready_def del: world_ents_simps write_result_simps claimed_simps
        split: goc_entry_kind.splits)
qed

lemma wake_miss:
  "\<lbrakk>\<not> claimable w p; \<not> cancelled (ents w p); flag_ok w p\<rbrakk>
   \<Longrightarrow> wake env p v w ch = Some (Inr (False, w, bump_dead ch))"
  by (simp add: wake_def claim_miss)

lemma wake_claim_hit:
  assumes "claimable w p" "ready env w p"
  shows "wake_claim env p v w ch =
     (if kind (ents w p) = GOC_FIBER then (Some (Some (user_data env (coro (ents w p)))), delivered p v w, ch)
      else (Some None, dispatched env p v (delivered p v w), ch))"
proof -
  have nc: "\<not> cancelled (ents w p)" using assms(1) by (simp add: claimable_def)
  show ?thesis
    using ready_not_stale [OF assms(2)] nc
    by (simp add: wake_claim_def claim_hit [OF assms(1)] delivered_def [symmetric] dispatched_def
        delivered_entry split: goc_entry_kind.splits)
qed

lemma wake_claim_miss:
  "\<lbrakk>\<not> claimable w p; \<not> cancelled (ents w p); flag_ok w p\<rbrakk>
   \<Longrightarrow> wake_claim env p v w ch = (None, w, bump_dead ch)"
  by (simp add: wake_claim_def claim_miss)

text \<open>
  The contract between the wait-list walk and the function that wakes one entry: a live waiter is
  woken, a dead one is refused and leaves the world alone.
\<close>

locale waker =
  fixes wk :: "nat \<Rightarrow> goc_world \<Rightarrow> goc_chan \<Rightarrow> ('r option \<times> goc_world \<times> goc_chan) out"
    and fit :: "goc_world \<Rightarrow> nat \<Rightarrow> bool"
    and res :: "goc_world \<Rightarrow> nat \<Rightarrow> 'r"
    and eff :: "nat \<Rightarrow> goc_world \<Rightarrow> goc_world"
  assumes hit: "\<lbrakk>claimable w p; fit w p\<rbrakk> \<Longrightarrow> wk p w ch = Some (Inr (Some (res w p), eff p w, ch))"
    and miss: "\<lbrakk>\<not> claimable w p; \<not> cancelled (ents w p); flag_ok w p\<rbrakk>
               \<Longrightarrow> wk p w ch = Some (Inr (None, w, bump_dead ch))"
begin

lemma scan_none:
  "\<lbrakk>\<forall>p \<in> set ps. flag_ok w p; filter (claimable w) ps = []\<rbrakk>
   \<Longrightarrow> \<exists>d. scan_waiters wk ps w ch = Some (Inr (None, [], w, ch\<lparr>dead_count := d\<rparr>))"
proof (induction ps arbitrary: ch)
  case Nil
  show ?case by (intro exI [of _ "dead_count ch"]) simp
next
  case (Cons p ps)
  have p: "\<not> claimable w p" "flag_ok w p" "filter (claimable w) ps = []"
    using Cons.prems by (auto split: if_splits)
  show ?case
  proof (cases "cancelled (ents w p)")
    case True
    then show ?thesis using Cons.IH [of ch] Cons.prems(1) p by simp
  next
    case False
    then show ?thesis using Cons.IH [of "bump_dead ch"] Cons.prems(1) p
      by (simp add: miss bump_dead_def)
  qed
qed

lemma scan_some:
  "\<lbrakk>\<forall>p \<in> set ps. flag_ok w p; filter (claimable w) ps = p # qs; fit w p\<rbrakk>
   \<Longrightarrow> \<exists>d ys zs. ps = ys @ p # zs \<and> filter (claimable w) zs = qs \<and>
         scan_waiters wk ps w ch = Some (Inr (Some (res w p), zs, eff p w, ch\<lparr>dead_count := d\<rparr>))"
proof (induction ps arbitrary: ch)
  case (Cons q ps)
  show ?case
  proof (cases "claimable w q")
    case True
    then have q: "q = p" "filter (claimable w) ps = qs"
      using Cons.prems(2) by simp_all
    moreover have "\<not> cancelled (ents w q)" using True by (simp add: claimable_def)
    ultimately have q: "q = p" "filter (claimable w) ps = qs" "\<not> cancelled (ents w p)"
      by simp_all
    have "scan_waiters wk (p # ps) w ch = Some (Inr (Some (res w p), ps, eff p w, ch\<lparr>dead_count := dead_count ch\<rparr>))"
      using True q Cons.prems(3) by (simp add: hit)
    with q show ?thesis by (metis append_Nil)
  next
    case False
    define ch1 where "ch1 = (if cancelled (ents w q) then ch else bump_dead ch)"
    have step: "scan_waiters wk (q # ps) w ch = scan_waiters wk ps w ch1"
      using False Cons.prems(1) by (simp add: miss ch1_def)
    obtain d ys zs where "ps = ys @ p # zs" "filter (claimable w) zs = qs"
      "scan_waiters wk ps w ch1 = Some (Inr (Some (res w p), zs, eff p w, ch1\<lparr>dead_count := d\<rparr>))"
      using Cons.IH [of ch1] Cons.prems False by (auto split: if_splits)
    moreover have "ch1\<lparr>dead_count := d\<rparr> = ch\<lparr>dead_count := d\<rparr>"
      by (simp add: ch1_def bump_dead_def)
    ultimately show ?thesis unfolding step by (metis append_Cons)
  qed
qed simp

end

interpretation give: waker
  "\<lambda>p w ch. obind (wake env p v w ch) (\<lambda>(b, w1, ch1). Some (Inr (if b then Some () else None, w1, ch1)))"
  "ready env" "\<lambda>w p. ()" "\<lambda>p w. dispatched env p v (delivered p v w)" for env v
  by unfold_locales (simp_all add: wake_hit wake_miss)

interpretation fetch: waker
  "\<lambda>p w ch. let v = put_val (ents w p) in
     obind (wake env p NULL w ch) (\<lambda>(b, w1, ch1). Some (Inr (if b then Some v else None, w1, ch1)))"
  "ready env" "\<lambda>w p. put_val (ents w p)" "\<lambda>p w. dispatched env p NULL (delivered p NULL w)" for env
  by unfold_locales (simp_all add: wake_hit wake_miss)

text \<open>The \<open>_claim\<close> walks leave a fiber undispatched and return it.\<close>

definition claim_effect :: "goc_env \<Rightarrow> ptr \<Rightarrow> nat \<Rightarrow> goc_world \<Rightarrow> goc_world" where
  "claim_effect env v p w = (if kind (ents w p) = GOC_FIBER then delivered p v w
     else dispatched env p v (delivered p v w))"

definition claim_fiber :: "goc_env \<Rightarrow> goc_world \<Rightarrow> nat \<Rightarrow> nat option" where
  "claim_fiber env w p =
     (if kind (ents w p) = GOC_FIBER then Some (user_data env (coro (ents w p))) else None)"

lemma claims_claim_effect: "claims p w (claim_effect env v p w)"
  by (simp add: claim_effect_def claims_delivered claims_dispatched)

lemma want_claim_effect [simp]: "want_of (ents (claim_effect env v p w) q) = want_of (ents w q)"
  using claims_keep(6) [OF claims_claim_effect] by (simp add: want_of_def)

lemma wake_claim_hit':
  "\<lbrakk>claimable w p; ready env w p\<rbrakk>
   \<Longrightarrow> wake_claim env p v w ch = (Some (claim_fiber env w p), claim_effect env v p w, ch)"
  by (simp add: wake_claim_hit claim_fiber_def claim_effect_def)

interpretation give_claim: waker
  "\<lambda>p w ch. case wake_claim env p v w ch of (r, w1, ch1) \<Rightarrow>
     Some (Inr (map_option (\<lambda>fe. (fe, want_of (ents w1 p))) r, w1, ch1))"
  "ready env" "\<lambda>w p. (claim_fiber env w p, want_of (ents w p))" "claim_effect env v" for env v
  by unfold_locales (simp_all add: wake_claim_hit' wake_claim_miss)

interpretation fetch_claim: waker
  "\<lambda>p w ch. let v = put_val (ents w p) in
     case wake_claim env p NULL w ch of (r, w1, ch1) \<Rightarrow>
     Some (Inr (map_option (\<lambda>fe. (v, fe, want_of (ents w1 p))) r, w1, ch1))"
  "ready env" "\<lambda>w p. (put_val (ents w p), claim_fiber env w p, want_of (ents w p))"
  "claim_effect env NULL" for env
  by unfold_locales (simp_all add: wake_claim_hit' wake_claim_miss)

end
