(* ===== verification/Goc_Chan_Ops.thy ===== *)
theory Goc_Chan_Ops
  imports Goc_Channel
begin

text \<open>
  The channel operations of \<open>channel.c\<close> and the loop-thread side of the callback operations
  (\<open>loop_process_pending_put\<close>, \<open>loop_process_pending_take\<close> of \<open>loop.c\<close>). An operation that
  blocks is split where the code yields or waits: the first half ends with \<open>Parked e\<close>, the second
  (\<open>..._resume\<close>) is what the code does when the fiber or thread runs again.
\<close>

section \<open>Making a channel\<close>

definition goc_chan_make :: "nat \<Rightarrow> goc_chan" where
  "goc_chan_make n = \<lparr>buf = replicate (if 0 < n then slots n else 0) NULL, buf_size = n,
     buf_head = 0, buf_count = 0, item_count = 0, takers = [], takers_tail = None, putters = [],
     putters_tail = None, closed = False, dead_count = 0, close_guard = GOC_CHAN_OPEN,
     on_close = None\<rparr>"

definition chan_set_on_close ::
  "(nat \<times> ptr) option \<Rightarrow> goc_world \<Rightarrow> goc_chan \<Rightarrow> goc_world \<times> goc_chan" where
  "chan_set_on_close f w ch =
     (if closed ch
      then (case f of None \<Rightarrow> w | Some (fn, u) \<Rightarrow> log_post (CallOnClose fn u) w, ch)
      else (w, ch\<lparr>on_close := f\<rparr>))"

section \<open>Parking\<close>

datatype outcome = Now ptr goc_status | Parked nat

text \<open>A fresh entry; the local result variable of the call is the one with the entry's number.\<close>

definition alloc_entry :: "goc_entry \<Rightarrow> goc_world \<Rightarrow> nat \<times> goc_world" where
  "alloc_entry e w = (next_ent w, w\<lparr>ents := (ents w)(next_ent w := e), next_ent := Suc (next_ent w),
     locals := (locals w)(next_ent w := NULL)\<rparr>)"

text \<open>The entry of a parking fiber and the handshake: the generation is read from and the odd
  value written to \<open>parked\<close> of the fiber's initial entry.\<close>

definition park_gen :: "64 word \<Rightarrow> 64 word" where
  "park_gen x = drop_bit 1 x + 1"

definition fiber_entry :: "goc_env \<Rightarrow> nat \<Rightarrow> nat option \<Rightarrow> goc_entry \<Rightarrow> goc_world \<Rightarrow> goc_entry" where
  "fiber_entry env c worker e w =
     (let fe = ents w (user_data env c) in
      e\<lparr>kind := GOC_FIBER, coro := c, pool := pool fe,
        home_worker_idx := (case worker of Some i \<Rightarrow> i | None \<Rightarrow> SIZE_MAX),
        ok := GOC_CLOSED, parked_gen := park_gen (parked fe)\<rparr>)"

definition park_fiber ::
  "goc_env \<Rightarrow> nat \<Rightarrow> nat option \<Rightarrow> goc_entry \<Rightarrow> goc_world \<Rightarrow> nat \<times> goc_world" where
  "park_fiber env c worker e w =
     (case alloc_entry (fiber_entry env c worker e w) w of
        (p, w1) \<Rightarrow> (p, upd_ent (user_data env c)
                    (\<lambda>f. f\<lparr>parked := push_bit 1 (park_gen (parked f)) OR 1\<rparr>) w1))"

definition resume_fiber :: "goc_env \<Rightarrow> nat \<Rightarrow> goc_world \<Rightarrow> goc_world" where
  "resume_fiber env c w = upd_ent (user_data env c) (\<lambda>f. f\<lparr>parked := 0\<rparr>) w"

section \<open>Fiber operations\<close>

text \<open>Wait for a claimed fiber outside the lock, then post it; a stale one is skipped.\<close>

definition wait_and ::
  "goc_env \<Rightarrow> nat option \<times> 64 word \<Rightarrow> (nat \<Rightarrow> goc_world \<Rightarrow> goc_world) \<Rightarrow> goc_world \<Rightarrow> goc_world out" where
  "wait_and env claim post w =
     (case claim of
        (None, want) \<Rightarrow> Some (Inr w)
      | (Some fe, want) \<Rightarrow>
          obind (wait_for_fiber_suspended (parked_loads env fe) want 1) (\<lambda>there.
          Some (Inr (if there then post fe w else w))))"

definition post_to_run_queue_of :: "nat \<Rightarrow> goc_world \<Rightarrow> goc_world" where
  "post_to_run_queue_of fe w = log_post (PostRunQueue (pool (ents w fe)) fe) w"

definition goc_take ::
  "goc_env \<Rightarrow> nat option \<Rightarrow> nat option \<Rightarrow> goc_world \<Rightarrow> goc_chan \<Rightarrow> (outcome \<times> goc_world \<times> goc_chan) out" where
  "goc_take env self worker w ch =
     (case self of
        None \<Rightarrow> Some (Inl (Abort ''goc_take: called from OS thread (not in fiber context)''))
      | Some c \<Rightarrow>
          case compact_if_due w ch of (w0, ch0) \<Rightarrow>
          obind (Some (chan_take_from_buffer ch0)) (\<lambda>(v, ch1).
          case v of
            Some x \<Rightarrow> Some (Inr (Now x GOC_OK, w0, ch1))
          | None \<Rightarrow>
              obind (chan_take_from_putter_claim env w0 ch1) (\<lambda>(r, w1, ch2).
              case r of
                Some (x, claim) \<Rightarrow>
                  obind (wait_and env claim post_to_run_queue_of w1) (\<lambda>w2.
                  Some (Inr (Now x GOC_OK, w2, ch2)))
              | None \<Rightarrow>
                  if closed ch2 then Some (Inr (Now NULL GOC_CLOSED, w1, ch2))
                  else case park_fiber env c worker (entry_zero\<lparr>result_slot := LocalSlot (next_ent w1)\<rparr>) w1 of
                         (p, w2) \<Rightarrow> Some (Inr (Parked p, w2, append_taker p ch2)))))"

definition goc_take_resume :: "goc_env \<Rightarrow> nat \<Rightarrow> nat \<Rightarrow> goc_world \<Rightarrow> (ptr \<times> goc_status) \<times> goc_world" where
  "goc_take_resume env c p w =
     (let w1 = resume_fiber env c w in
      ((locals w1 p, ok (ents w1 p)), w1\<lparr>freed := freed w1 @ [p]\<rparr>))"

definition goc_put ::
  "goc_env \<Rightarrow> nat option \<Rightarrow> nat option \<Rightarrow> ptr \<Rightarrow> goc_world \<Rightarrow> goc_chan
   \<Rightarrow> (outcome \<times> goc_world \<times> goc_chan) out" where
  "goc_put env self worker v w ch =
     (case self of
        None \<Rightarrow> Some (Inl (Abort ''goc_put: called from OS thread (not in fiber context)''))
      | Some c \<Rightarrow>
          case compact_if_due w ch of (w0, ch0) \<Rightarrow>
          if closed ch0 then Some (Inr (Now NULL GOC_CLOSED, w0, ch0))
          else
            obind (chan_put_to_taker_claim env v w0 ch0) (\<lambda>(r, w1, ch1).
            case r of
              Some claim \<Rightarrow>
                obind (wait_and env claim (post_fiber env) w1) (\<lambda>w2.
                Some (Inr (Now NULL GOC_OK, w2, ch1)))
            | None \<Rightarrow>
                obind (Some (chan_put_to_buffer v ch1)) (\<lambda>(stored, ch2).
                if stored then Some (Inr (Now NULL GOC_OK, w1, ch2))
                else case park_fiber env c worker (entry_zero\<lparr>put_val := v\<rparr>) w1 of
                       (p, w2) \<Rightarrow> Some (Inr (Parked p, w2, append_putter p ch2)))))"

definition goc_put_resume :: "goc_env \<Rightarrow> nat \<Rightarrow> nat \<Rightarrow> goc_world \<Rightarrow> goc_status \<times> goc_world" where
  "goc_put_resume env c p w =
     (let w1 = resume_fiber env c w in (ok (ents w1 p), w1\<lparr>freed := freed w1 @ [p]\<rparr>))"

definition goc_yield :: "goc_env \<Rightarrow> nat option \<Rightarrow> nat option \<Rightarrow> goc_world \<Rightarrow> goc_world out" where
  "goc_yield env self worker w =
     (case self of
        None \<Rightarrow> Some (Inl (Abort ''goc_yield: called from OS thread (not in fiber context)''))
      | Some c \<Rightarrow>
          let fe = user_data env c; f = ents w fe; n = thread_count env (pool f) in
          if fe \<noteq> 0 \<and> pool f \<noteq> 0
          then let target =
                 (case worker of
                    Some i \<Rightarrow> if 1 < n then (i + 1) mod n
                              else if home_worker_idx f \<noteq> SIZE_MAX then home_worker_idx f else 0
                  | None \<Rightarrow> if home_worker_idx f \<noteq> SIZE_MAX then home_worker_idx f else 0)
               in Some (Inr (log_post (PostWorker (pool f) target fe) w))
          else Some (Inr w))"

section \<open>Operations of OS threads\<close>

definition sync_entry :: "nat \<Rightarrow> goc_entry \<Rightarrow> goc_entry" where
  "sync_entry s e = e\<lparr>kind := GOC_SYNC, ok := GOC_CLOSED, sync_sem_ptr := s\<rparr>"

definition park_sync :: "goc_entry \<Rightarrow> goc_world \<Rightarrow> nat \<times> goc_world" where
  "park_sync e w = (case alloc_entry (sync_entry (next_ent w) e) w of
     (p, w1) \<Rightarrow> (p, goc_sync_init p w1))"

definition goc_take_sync ::
  "goc_env \<Rightarrow> nat option \<Rightarrow> goc_world \<Rightarrow> goc_chan \<Rightarrow> (outcome \<times> goc_world \<times> goc_chan) out" where
  "goc_take_sync env self w ch =
     (case self of
        Some c \<Rightarrow> Some (Inl (Abort ''goc_take_sync: called from fiber context''))
      | None \<Rightarrow>
          obind (Some (chan_take_from_buffer ch)) (\<lambda>(v, ch1).
          case v of
            Some x \<Rightarrow> Some (Inr (Now x GOC_OK, w, ch1))
          | None \<Rightarrow>
              obind (chan_take_from_putter env w ch1) (\<lambda>(r, w1, ch2).
              case r of
                Some x \<Rightarrow> Some (Inr (Now x GOC_OK, w1, ch2))
              | None \<Rightarrow>
                  if closed ch2 then Some (Inr (Now NULL GOC_CLOSED, w1, ch2))
                  else case park_sync (entry_zero\<lparr>result_slot := OwnResult\<rparr>) w1 of
                         (p, w2) \<Rightarrow> Some (Inr (Parked p, w2, append_taker p ch2)))))"

definition goc_put_sync ::
  "goc_env \<Rightarrow> nat option \<Rightarrow> ptr \<Rightarrow> goc_world \<Rightarrow> goc_chan \<Rightarrow> (outcome \<times> goc_world \<times> goc_chan) out" where
  "goc_put_sync env self v w ch =
     (case self of
        Some c \<Rightarrow> Some (Inl (Abort ''goc_put_sync: called from fiber context''))
      | None \<Rightarrow>
          if closed ch then Some (Inr (Now NULL GOC_CLOSED, w, ch))
          else
            obind (chan_put_to_taker env v w ch) (\<lambda>(given, w1, ch1).
            if given then Some (Inr (Now NULL GOC_OK, w1, ch1))
            else
              obind (Some (chan_put_to_buffer v ch1)) (\<lambda>(stored, ch2).
              if stored then Some (Inr (Now NULL GOC_OK, w1, ch2))
              else case park_sync (entry_zero\<lparr>put_val := v\<rparr>) w1 of
                     (p, w2) \<Rightarrow> Some (Inr (Parked p, w2, append_putter p ch2)))))"

text \<open>The thread behind \<open>goc_sync_wait\<close>: blocked (\<open>None\<close>) until the semaphore is posted.\<close>

definition goc_take_sync_resume :: "nat \<Rightarrow> goc_world \<Rightarrow> (ptr \<times> goc_status) option" where
  "goc_take_sync_resume p w =
     map_option (\<lambda>w1. (cb_result (ents w1 p), ok (ents w1 p))) (goc_sync_wait (sync_sem_ptr (ents w p)) w)"

definition goc_put_sync_resume :: "nat \<Rightarrow> goc_world \<Rightarrow> goc_status option" where
  "goc_put_sync_resume p w =
     map_option (\<lambda>w1. ok (ents w1 p)) (goc_sync_wait (sync_sem_ptr (ents w p)) w)"

definition goc_take_try ::
  "goc_env \<Rightarrow> goc_world \<Rightarrow> goc_chan \<Rightarrow> (outcome \<times> goc_world \<times> goc_chan) out" where
  "goc_take_try env w ch =
     obind (Some (chan_take_from_buffer ch)) (\<lambda>(v, ch1).
     case v of
       Some x \<Rightarrow> Some (Inr (Now x GOC_OK, w, ch1))
     | None \<Rightarrow>
         obind (chan_take_from_putter env w ch1) (\<lambda>(r, w1, ch2).
         case r of
           Some x \<Rightarrow> Some (Inr (Now x GOC_OK, w1, ch2))
         | None \<Rightarrow>
             if closed ch2 then Some (Inr (Now NULL GOC_CLOSED, w1, ch2))
             else Some (Inr (Now NULL GOC_EMPTY, w1, ch2))))"

section \<open>Callback operations\<close>

definition goc_loop_submit_callback_if_running :: "bool \<Rightarrow> nat \<Rightarrow> goc_world \<Rightarrow> bool \<times> goc_world" where
  "goc_loop_submit_callback_if_running running p w =
     (if \<not> running then (False, w) else (True, POST_CALLBACK p NULL w))"

definition take_cb_entry :: "nat \<Rightarrow> ptr \<Rightarrow> goc_entry" where
  "take_cb_entry f u = entry_zero\<lparr>kind := GOC_CALLBACK, pend_ch := True, is_put := False,
     cb := Some f, ud := u, result_slot := OwnResult, free_on_drain := True\<rparr>"

definition put_cb_entry :: "ptr \<Rightarrow> nat option \<Rightarrow> ptr \<Rightarrow> goc_entry" where
  "put_cb_entry v f u = entry_zero\<lparr>kind := GOC_CALLBACK, pend_ch := True, is_put := True,
     put_val := v, put_cb := f, ud := u, free_on_drain := True\<rparr>"

definition goc_take_cb :: "bool \<Rightarrow> nat option \<Rightarrow> ptr \<Rightarrow> goc_world \<Rightarrow> goc_world res" where
  "goc_take_cb running f u w =
     (case f of
        None \<Rightarrow> Inl (Abort ''goc_take_cb: cb must not be NULL'')
      | Some g \<Rightarrow>
          case alloc_entry (take_cb_entry g u) w of (p, w1) \<Rightarrow>
          case goc_loop_submit_callback_if_running running p w1 of (sent, w2) \<Rightarrow>
          Inr (if sent then w2 else w2\<lparr>freed := freed w2 @ [p]\<rparr>))"

definition goc_put_cb :: "bool \<Rightarrow> ptr \<Rightarrow> nat option \<Rightarrow> ptr \<Rightarrow> goc_world \<Rightarrow> goc_world" where
  "goc_put_cb running v f u w =
     (case alloc_entry (put_cb_entry v f u) w of (p, w1) \<Rightarrow>
      case goc_loop_submit_callback_if_running running p w1 of (sent, w2) \<Rightarrow>
      if sent then w2 else w2\<lparr>freed := freed w2 @ [p]\<rparr>)"

text \<open>The loop thread waits for exactly the suspended value; it has no exit for a stale park.\<close>

partial_function (option) spin_until :: "(nat \<Rightarrow> 64 word) \<Rightarrow> 64 word \<Rightarrow> nat \<Rightarrow> unit res option" where
  "spin_until loads want i =
     (if loads i = want then Some (Inr ()) else spin_until loads want (Suc i))"

definition spin_and_post ::
  "goc_env \<Rightarrow> nat option \<times> 64 word \<Rightarrow> goc_world \<Rightarrow> goc_world out" where
  "spin_and_post env claim w =
     (case claim of
        (None, want) \<Rightarrow> Some (Inr w)
      | (Some fe, want) \<Rightarrow>
          obind (spin_until (parked_loads env fe) want 1) (\<lambda>_. Some (Inr (post_fiber env fe w))))"

text \<open>The callback of a resolved entry, then \<open>free\<close> when the entry says so.\<close>

definition finish_entry :: "nat \<Rightarrow> nat option \<Rightarrow> ptr \<Rightarrow> goc_status \<Rightarrow> goc_world \<Rightarrow> goc_world" where
  "finish_entry p f v st w =
     (let w1 = (case f of None \<Rightarrow> w | Some g \<Rightarrow> log_post (CallCb g v st (ud (ents w p))) w) in
      if free_on_drain (ents w1 p) then w1\<lparr>freed := freed w1 @ [p]\<rparr> else w1)"

definition loop_process_pending_put ::
  "goc_env \<Rightarrow> nat \<Rightarrow> goc_world \<Rightarrow> goc_chan \<Rightarrow> (goc_world \<times> goc_chan) out" where
  "loop_process_pending_put env p w ch =
     (case compact_if_due (upd_ent p (\<lambda>e. e\<lparr>pend_ch := False\<rparr>) w) ch of (w0, ch0) \<Rightarrow>
      let v = put_val (ents w0 p); f = put_cb (ents w0 p) in
      if closed ch0
      then Some (Inr (finish_entry p f v GOC_CLOSED (upd_ent p (\<lambda>e. e\<lparr>ok := GOC_CLOSED\<rparr>) w0), ch0))
      else
        obind (chan_put_to_taker_claim env v w0 ch0) (\<lambda>(r, w1, ch1).
        case r of
          Some claim \<Rightarrow>
            obind (spin_and_post env claim (upd_ent p (\<lambda>e. e\<lparr>ok := GOC_OK\<rparr>) w1)) (\<lambda>w2.
            Some (Inr (finish_entry p f v GOC_OK w2, ch1)))
        | None \<Rightarrow>
            obind (Some (chan_put_to_buffer v ch1)) (\<lambda>(stored, ch2).
            if stored
            then Some (Inr (finish_entry p f v GOC_OK (upd_ent p (\<lambda>e. e\<lparr>ok := GOC_OK\<rparr>) w1), ch2))
            else Some (Inr (w1, append_putter p ch2)))))"

definition loop_process_pending_take ::
  "goc_env \<Rightarrow> nat \<Rightarrow> goc_world \<Rightarrow> goc_chan \<Rightarrow> (goc_world \<times> goc_chan) out" where
  "loop_process_pending_take env p w ch =
     (case compact_if_due (upd_ent p (\<lambda>e. e\<lparr>pend_ch := False\<rparr>) w) ch of (w0, ch0) \<Rightarrow>
      let f = cb (ents w0 p) in
      obind (Some (chan_take_from_buffer ch0)) (\<lambda>(b, ch1).
      case b of
        Some v \<Rightarrow>
          Some (Inr (finish_entry p f v GOC_OK (upd_ent p (\<lambda>e. e\<lparr>cb_result := v, ok := GOC_OK\<rparr>) w0), ch1))
      | None \<Rightarrow>
          obind (chan_take_from_putter_claim env w0 ch1) (\<lambda>(r, w1, ch2).
          case r of
            Some (v, claim) \<Rightarrow>
              obind (spin_and_post env claim (upd_ent p (\<lambda>e. e\<lparr>cb_result := v, ok := GOC_OK\<rparr>) w1)) (\<lambda>w2.
              Some (Inr (finish_entry p f v GOC_OK w2, ch2)))
          | None \<Rightarrow>
              if closed ch2
              then Some (Inr (finish_entry p f NULL GOC_CLOSED
                     (upd_ent p (\<lambda>e. e\<lparr>ok := GOC_CLOSED\<rparr>) w1), ch2))
              else Some (Inr (w1, append_taker p ch2)))))"

section \<open>Closing\<close>

text \<open>The guard: one caller moves the channel from open or requested to closing.\<close>

definition close_claim :: "goc_chan \<Rightarrow> goc_chan option" where
  "close_claim ch =
     (case close_guard ch of
        GOC_CHAN_CLOSE_REQUESTED \<Rightarrow> Some (ch\<lparr>close_guard := GOC_CHAN_CLOSING\<rparr>)
      | GOC_CHAN_OPEN \<Rightarrow> Some (ch\<lparr>close_guard := GOC_CHAN_CLOSING\<rparr>)
      | GOC_CHAN_CLOSING \<Rightarrow> None)"

definition waiter_count :: "goc_world \<Rightarrow> goc_chan \<Rightarrow> nat" where
  "waiter_count w ch = length (filter (\<lambda>p. \<not> cancelled (ents w p)) (takers ch @ putters ch))"

text \<open>One waiter of the wake loop: the fibers to post are collected with the value to wait for;
  a callback with a shared flag is posted only if the flag was clear.\<close>

definition close_wake ::
  "goc_env \<Rightarrow> nat \<Rightarrow> goc_world \<Rightarrow> (nat \<times> 64 word) option \<times> goc_world" where
  "close_wake env p w =
     (case try_claim_wake p w of
        (False, w1) \<Rightarrow> (None, w1)
      | (True, w1) \<Rightarrow>
          let w2 = upd_ent p (\<lambda>e. e\<lparr>ok := GOC_CLOSED\<rparr>) w1; e = ents w2 p in
          case kind e of
            GOC_FIBER \<Rightarrow> (Some (user_data env (coro e), want_of e), w2)
          | GOC_CALLBACK \<Rightarrow>
              (case fired e of
                 None \<Rightarrow> (None, POST_CALLBACK p NULL w2)
               | Some f \<Rightarrow>
                   let old_fired = flags w2 f; w3 = w2\<lparr>flags := (flags w2)(f := True)\<rparr> in
                   (None, if \<not> old_fired then POST_CALLBACK p NULL w3 else w3))
          | GOC_SYNC \<Rightarrow> (None, goc_sync_post (sync_sem_ptr e) w2))"

fun close_wake_loop ::
  "goc_env \<Rightarrow> nat list \<Rightarrow> goc_world \<Rightarrow> (nat \<times> 64 word) list \<times> bool \<times> goc_world" where
  "close_wake_loop env [] w = ([], False, w)"
| "close_wake_loop env (p # ps) w =
     (if cancelled (ents w p)
      then (case close_wake_loop env ps w of (fs, c, w1) \<Rightarrow> (fs, True, w1))
      else case close_wake env p w of
        (r, w1) \<Rightarrow> (case close_wake_loop env ps w1 of
          (fs, c, w2) \<Rightarrow> ((case r of Some f \<Rightarrow> f # fs | None \<Rightarrow> fs), c, w2)))"

fun close_post_loop :: "goc_env \<Rightarrow> (nat \<times> 64 word) list \<Rightarrow> goc_world \<Rightarrow> goc_world out" where
  "close_post_loop env [] w = Some (Inr w)"
| "close_post_loop env ((fe, want) # fs) w =
     obind (wait_for_fiber_suspended (parked_loads env fe) want 0) (\<lambda>there.
     close_post_loop env fs (if there then post_fiber env fe w else w))"

definition close_clear :: "goc_chan \<Rightarrow> goc_chan" where
  "close_clear ch = ch\<lparr>takers := [], takers_tail := None, putters := [], putters_tail := None,
     dead_count := 0\<rparr>"

definition goc_close_internal ::
  "goc_env \<Rightarrow> goc_world \<Rightarrow> goc_chan \<Rightarrow> (goc_world \<times> goc_chan) out" where
  "goc_close_internal env w ch =
     (case close_claim ch of
        None \<Rightarrow> Some (Inr (w, ch))
      | Some ch0 \<Rightarrow>
          let ch1 = ch0\<lparr>closed := True\<rparr> in
          case close_wake_loop env (takers ch1 @ putters ch1) w of (to_post, cancelled_found, w1) \<Rightarrow>
          case (if cancelled_found then compact_dead_entries w1 ch1 else (w1, ch1)) of (w2, ch2) \<Rightarrow>
          let ch3 = close_clear ch2 in
          obind (close_post_loop env to_post w2) (\<lambda>w3.
          let w4 = log_post Unregistered w3 in
          Some (Inr (case on_close ch3 of
                       None \<Rightarrow> w4
                     | Some (f, u) \<Rightarrow> log_post (CallOnClose f u) w4, ch3))))"

definition on_close_dispatch ::
  "goc_env \<Rightarrow> goc_world \<Rightarrow> goc_chan option \<Rightarrow> (goc_world \<times> goc_chan option) out" where
  "on_close_dispatch env w arg =
     (case arg of
        None \<Rightarrow> Some (Inr (w, None))
      | Some ch \<Rightarrow>
          if close_guard ch = GOC_CHAN_CLOSING then Some (Inr (w, Some ch))
          else obind (goc_close_internal env w ch) (\<lambda>(w1, ch1). Some (Inr (w1, Some ch1))))"

text \<open>
  \<open>goc_close\<close>: on the loop thread the channel is closed at once, elsewhere the close is posted to
  the loop (\<open>True\<close> in the result) or, when the loop refuses, the process aborts.
\<close>

definition goc_close ::
  "goc_env \<Rightarrow> bool \<Rightarrow> bool \<Rightarrow> goc_world \<Rightarrow> goc_chan option \<Rightarrow> (bool \<times> goc_world \<times> goc_chan option) out" where
  "goc_close env on_loop running w arg =
     (case arg of
        None \<Rightarrow> Some (Inr (False, w, None))
      | Some ch \<Rightarrow>
          if close_guard ch \<noteq> GOC_CHAN_OPEN then Some (Inr (False, w, Some ch))
          else
            let ch1 = ch\<lparr>close_guard := GOC_CHAN_CLOSE_REQUESTED\<rparr> in
            if on_loop
            then obind (goc_close_internal env w ch1) (\<lambda>(w1, ch2). Some (Inr (False, w1, Some ch2)))
            else if running then Some (Inr (True, w, Some ch1))
            else Some (Inl (Abort ''goc_close: failed to dispatch on loop'')))"

end
