(* ===== verification/Goc_Chan_Spec.thy ===== *)
theory Goc_Chan_Spec
  imports Goc_Chan_Ops
begin

text \<open>
  What a channel promises, without rings, tail pointers, dead entries and compaction: a queue of
  stored values, the live takers and the live putters in the order they came, each with the select
  it belongs to (if any). Every operation of \<open>channel.c\<close> implements the corresponding transition
  of this view.
\<close>

section \<open>The specification\<close>

text \<open>A waiter: its entry, the shared flag of its select, and what it offers.\<close>

type_synonym 'b waiter = "nat \<times> nat option \<times> 'b"

record chan_view =
  cap :: nat
  items :: "ptr list"
  vtakers :: "unit waiter list"
  vputters :: "ptr waiter list"
  vclosed :: bool
  vguard :: goc_chan_close_state

text \<open>When an arm of a select fires, its other arms are no longer waiting.\<close>

definition ungroup :: "nat option \<Rightarrow> 'b waiter list \<Rightarrow> 'b waiter list" where
  "ungroup g xs = filter (\<lambda>(p, h, b). g = None \<or> h \<noteq> g) xs"

datatype put_result = PutClosed | PutTo nat | PutStored | PutParks

datatype take_result = TakeItem ptr | TakeFrom nat ptr | TakeClosed | TakeParks

definition spec_put :: "nat \<Rightarrow> ptr \<Rightarrow> chan_view \<Rightarrow> put_result \<times> chan_view" where
  "spec_put p v x =
     (if vclosed x then (PutClosed, x)
      else case vtakers x of
        (q, g, _) # ts \<Rightarrow> (PutTo q, x\<lparr>vtakers := ungroup g ts, vputters := ungroup g (vputters x)\<rparr>)
      | [] \<Rightarrow>
          if length (items x) < cap x then (PutStored, x\<lparr>items := items x @ [v]\<rparr>)
          else (PutParks, x\<lparr>vputters := vputters x @ [(p, None, v)]\<rparr>))"

definition spec_take :: "nat \<Rightarrow> chan_view \<Rightarrow> take_result \<times> chan_view" where
  "spec_take p x =
     (case items x of
        v # vs \<Rightarrow> (TakeItem v, x\<lparr>items := vs\<rparr>)
      | [] \<Rightarrow>
          case vputters x of
            (q, g, v) # ps \<Rightarrow> (TakeFrom q v, x\<lparr>vtakers := ungroup g (vtakers x), vputters := ungroup g ps\<rparr>)
          | [] \<Rightarrow>
              if vclosed x then (TakeClosed, x)
              else (TakeParks, x\<lparr>vtakers := vtakers x @ [(p, None, ())]\<rparr>))"

text \<open>\<open>goc_take_try\<close> never parks.\<close>

definition spec_take_try :: "chan_view \<Rightarrow> take_result \<times> chan_view" where
  "spec_take_try x = (case spec_take 0 x of (r, y) \<Rightarrow> (r, if r = TakeParks then x else y))"

definition put_outcome :: "nat \<Rightarrow> put_result \<Rightarrow> outcome" where
  "put_outcome p r = (case r of PutClosed \<Rightarrow> Now NULL GOC_CLOSED | PutTo q \<Rightarrow> Now NULL GOC_OK
     | PutStored \<Rightarrow> Now NULL GOC_OK | PutParks \<Rightarrow> Parked p)"

definition take_outcome :: "nat \<Rightarrow> take_result \<Rightarrow> outcome" where
  "take_outcome p r = (case r of TakeItem v \<Rightarrow> Now v GOC_OK | TakeFrom q v \<Rightarrow> Now v GOC_OK
     | TakeClosed \<Rightarrow> Now NULL GOC_CLOSED | TakeParks \<Rightarrow> Parked p)"

definition try_outcome :: "take_result \<Rightarrow> outcome" where
  "try_outcome r = (if r = TakeParks then Now NULL GOC_EMPTY else take_outcome 0 r)"

section \<open>The view of a channel\<close>

definition waiters :: "goc_world \<Rightarrow> (goc_entry \<Rightarrow> 'b) \<Rightarrow> nat list \<Rightarrow> 'b waiter list" where
  "waiters w f xs = map (\<lambda>p. (p, fired (ents w p), f (ents w p))) (filter (claimable w) xs)"

definition view :: "goc_world \<Rightarrow> goc_chan \<Rightarrow> chan_view" where
  "view w ch = \<lparr>cap = buf_size ch, items = ring_list ch,
     vtakers = waiters w (\<lambda>_. ()) (takers ch), vputters = waiters w put_val (putters ch),
     vclosed = closed ch, vguard = close_guard ch\<rparr>"

text \<open>The invariant: a proper ring, no entry on the lists twice, good tail pointers, and only
  allocated entries whose flags are consistent.\<close>

definition entry_ok :: "goc_world \<Rightarrow> nat \<Rightarrow> bool" where
  "entry_ok w p = (flag_ok w p \<and> p < next_ent w \<and> p \<notin> set (freed w))"

definition world_ok :: "goc_world \<Rightarrow> bool" where
  "world_ok w = (\<forall>p \<in> set (freed w). p < next_ent w)"

definition chan_ok :: "goc_world \<Rightarrow> goc_chan \<Rightarrow> bool" where
  "chan_ok w ch = (world_ok w \<and> ring_ok ch \<and> distinct (takers ch @ putters ch) \<and>
     tail_ok (takers ch) (takers_tail ch) \<and> tail_ok (putters ch) (putters_tail ch) \<and>
     (\<forall>p \<in> set (takers ch @ putters ch). entry_ok w p))"

text \<open>Every live fiber on the lists reaches the suspension its waker waits for.\<close>

definition all_ready :: "goc_env \<Rightarrow> goc_world \<Rightarrow> goc_chan \<Rightarrow> bool" where
  "all_ready env w ch = (\<forall>p \<in> set (takers ch @ putters ch). claimable w p \<longrightarrow> ready env w p)"

text \<open>What waking \<open>q\<close> with value \<open>v\<close> amounts to: the value in its slot, success in its status, and
  the waiter handed on, once, to whoever runs it.\<close>

definition post_target :: "post \<Rightarrow> nat option" where
  "post_target x = (case x of PostWorker a i f \<Rightarrow> Some f | PostRunQueue a f \<Rightarrow> Some f | _ \<Rightarrow> None)"

definition handed :: "goc_env \<Rightarrow> goc_world \<Rightarrow> goc_world \<Rightarrow> nat \<Rightarrow> ptr \<Rightarrow> bool" where
  "handed env w w' q v =
     (woken (ents w' q) \<and> ok (ents w' q) = GOC_OK \<and>
      (case result_slot (ents w q) of
         NoSlot \<Rightarrow> True | LocalSlot i \<Rightarrow> locals w' i = v | OwnResult \<Rightarrow> cb_result (ents w' q) = v) \<and>
      (case kind (ents w q) of
         GOC_FIBER \<Rightarrow> (\<exists>x. posts w' = posts w @ [x] \<and> post_target x = Some (user_data env (coro (ents w q))))
       | GOC_CALLBACK \<Rightarrow> posts w' = posts w @ [PostCallback q]
       | GOC_SYNC \<Rightarrow> posts w' = posts w \<and> sems w' (sync_sem_ptr (ents w q))))"

section \<open>Frame lemmas\<close>

lemma view_simps [simp]:
  "cap (view w ch) = buf_size ch" "items (view w ch) = ring_list ch"
  "vtakers (view w ch) = waiters w (\<lambda>_. ()) (takers ch)"
  "vputters (view w ch) = waiters w put_val (putters ch)" "vclosed (view w ch) = closed ch"
  "vguard (view w ch) = close_guard ch"
  by (simp_all add: view_def)

lemma ring_list_frame [simp]:
  "ring_list (ch\<lparr>takers := a\<rparr>) = ring_list ch" "ring_list (ch\<lparr>putters := a\<rparr>) = ring_list ch"
  "ring_list (ch\<lparr>takers_tail := t\<rparr>) = ring_list ch" "ring_list (ch\<lparr>putters_tail := t\<rparr>) = ring_list ch"
  "ring_list (ch\<lparr>dead_count := d\<rparr>) = ring_list ch" "ring_list (ch\<lparr>closed := c\<rparr>) = ring_list ch"
  "ring_list (ch\<lparr>close_guard := g\<rparr>) = ring_list ch"
  by (simp_all add: ring_list_def)

lemma ring_ok_frame [simp]:
  "ring_ok (ch\<lparr>takers := a\<rparr>) = ring_ok ch" "ring_ok (ch\<lparr>putters := a\<rparr>) = ring_ok ch"
  "ring_ok (ch\<lparr>takers_tail := t\<rparr>) = ring_ok ch" "ring_ok (ch\<lparr>putters_tail := t\<rparr>) = ring_ok ch"
  "ring_ok (ch\<lparr>dead_count := d\<rparr>) = ring_ok ch" "ring_ok (ch\<lparr>closed := c\<rparr>) = ring_ok ch"
  "ring_ok (ch\<lparr>close_guard := g\<rparr>) = ring_ok ch"
  by (simp_all add: ring_ok_def)

lemma waiters_simps [simp]:
  "waiters w f [] = []" "waiters w f (xs @ ys) = waiters w f xs @ waiters w f ys"
  by (simp_all add: waiters_def)

lemma waiters_Nil_iff: "waiters w f xs = [] \<longleftrightarrow> filter (claimable w) xs = []"
  by (simp add: waiters_def)

lemma waiters_ConsE:
  assumes "waiters w f xs = (p, g, b) # ts"
  obtains qs where "filter (claimable w) xs = p # qs" "g = fired (ents w p)" "b = f (ents w p)"
    "ts = map (\<lambda>p. (p, fired (ents w p), f (ents w p))) qs"
  using assms unfolding waiters_def by (auto simp: map_eq_Cons_conv)

lemma waiters_claims:
  assumes "claims p w w'" "p \<notin> set xs" "\<And>q. f (ents w' q) = f (ents w q)"
  shows "waiters w' f xs = ungroup (fired (ents w p)) (waiters w f xs)"
proof -
  have "filter (claimable w') xs = filter (\<lambda>q. \<not> same_group w p q) (filter (claimable w) xs)"
    unfolding filter_filter by (intro filter_cong) (simp_all add: claims_claimable [OF assms(1)])
  also have "\<dots> = filter (\<lambda>q. fired (ents w p) = None \<or> fired (ents w q) \<noteq> fired (ents w p))
      (filter (claimable w) xs)"
    using assms(2) by (intro filter_cong) (auto simp: same_group_def)
  finally show ?thesis
    using assms(3) claims_keep(3) [OF assms(1)]
    by (simp add: waiters_def ungroup_def filter_map o_def)
qed

text \<open>A world that agrees with another on what the lists see.\<close>

definition agree :: "goc_world \<Rightarrow> goc_world \<Rightarrow> nat set \<Rightarrow> bool" where
  "agree w w' A = ((\<forall>p \<in> A. \<forall>f. fired (ents w p) = Some f \<longrightarrow> flags w' f = flags w f) \<and> next_ent w \<le> next_ent w' \<and>
     (world_ok w \<longrightarrow> world_ok w') \<and> (\<forall>p \<in> A. p \<notin> set (freed w) \<longrightarrow> p \<notin> set (freed w')) \<and>
     (\<forall>p \<in> A. cancelled (ents w' p) = cancelled (ents w p) \<and> woken (ents w' p) = woken (ents w p) \<and>
        fired (ents w' p) = fired (ents w p) \<and> put_val (ents w' p) = put_val (ents w p)))"

lemma agree_waiters:
  assumes "agree w w' A" "set xs \<subseteq> A"
  shows "waiters w' put_val xs = waiters w put_val xs" "waiters w' (\<lambda>_. ()) xs = waiters w (\<lambda>_. ()) xs"
proof -
  have f: "filter (claimable w') xs = filter (claimable w) xs"
    using assms by (intro filter_cong) (auto simp: claimable_def agree_def subset_iff split: option.splits)
  show "waiters w' put_val xs = waiters w put_val xs" "waiters w' (\<lambda>_. ()) xs = waiters w (\<lambda>_. ()) xs"
    unfolding waiters_def f using assms by (auto simp: agree_def)
qed

lemma agree_view:
  assumes "agree w w' (set (takers ch @ putters ch))"
  shows "view w' ch = view w ch" "chan_ok w ch \<Longrightarrow> chan_ok w' ch"
proof -
  show "view w' ch = view w ch"
    using agree_waiters [OF assms, of "takers ch"] agree_waiters [OF assms, of "putters ch"]
    by (simp add: view_def)
  have "entry_ok w' p" if "entry_ok w p" "p \<in> set (takers ch @ putters ch)" for p
  proof -
    have "flag_ok w' p" using that assms by (auto simp: agree_def entry_ok_def flag_ok_def split: option.splits)
    with that assms show ?thesis by (auto simp: agree_def entry_ok_def intro: order_less_le_trans)
  qed
  with assms show "chan_ok w' ch" if "chan_ok w ch"
    using that by (simp add: chan_ok_def agree_def)
qed

lemma world_ok_simps [simp]:
  "world_ok (log_post x w) = world_ok w" "world_ok (goc_sync_init s w) = world_ok w"
  "world_ok (post_fiber env fe w) = world_ok w" "world_ok (upd_ent p f w) = world_ok w"
  by (simp_all add: world_ok_def goc_sync_init_def)

lemma agree_posts [simp]:
  "agree w (log_post x w') A = agree w w' A" "agree w (goc_sync_init s w') A = agree w w' A"
  "agree w (post_fiber env fe w') A = agree w w' A"
  by (simp_all add: agree_def) (simp_all add: goc_sync_init_def)

lemma agree_refl [simp]: "agree w w A"
  by (simp add: agree_def)

section \<open>Wait lists in the view\<close>

lemma freed_frame [simp]:
  "claimable (w\<lparr>freed := xs\<rparr>) p = claimable w p" "flag_ok (w\<lparr>freed := xs\<rparr>) p = flag_ok w p"
  by (simp_all add: claimable_def flag_ok_def split: option.splits)

lemma compact_ok:
  assumes "chan_ok w ch" "compact_if_due w ch = (w', ch')"
  shows "chan_ok w' ch'" "view w' ch' = view w ch" "ents w' = ents w" "flags w' = flags w"
    "posts w' = posts w" "next_ent w' = next_ent w" "locals w' = locals w" "sems w' = sems w"
    "set (takers ch' @ putters ch') \<subseteq> set (takers ch @ putters ch)" "closed ch' = closed ch"
    "on_close ch' = on_close ch" "close_guard ch' = close_guard ch"
proof -
  have f: "filter (claimable w) (compact_list w xs) = filter (claimable w) xs" for xs
    by (auto simp: compact_list_def claimable_def intro!: filter_cong)
  have "chan_ok w' ch' \<and> view w' ch' = view w ch \<and> ents w' = ents w \<and> flags w' = flags w \<and>
    posts w' = posts w \<and> next_ent w' = next_ent w \<and> locals w' = locals w \<and> sems w' = sems w \<and>
    set (takers ch' @ putters ch') \<subseteq> set (takers ch @ putters ch) \<and> closed ch' = closed ch \<and>
    on_close ch' = on_close ch \<and> close_guard ch' = close_guard ch"
  proof (cases "GOC_DEAD_COUNT_THRESHOLD \<le> dead_count ch")
    case False
    with assms show ?thesis by (auto simp: compact_if_due_def)
  next
    case True
    then have w': "w' = w\<lparr>freed := freed w @ compact_freed w (takers ch) @ compact_freed w (putters ch)\<rparr>"
      and ch': "ch' = ch\<lparr>takers := compact_list w (takers ch), takers_tail := last_of (compact_list w (takers ch)),
        putters := compact_list w (putters ch), putters_tail := last_of (compact_list w (putters ch)),
        dead_count := 0\<rparr>"
      using assms(2) by (simp_all add: compact_if_due_def compact_dead_entries_def Let_def)
    have cl: "claimable w' = claimable w"
      by (rule ext) (simp add: w')
    have "view w' ch' = view w ch"
      by (simp add: view_def waiters_def ch' cl f) (simp add: w')
    moreover have "chan_ok w' ch'"
      using assms(1)
      by (auto simp: chan_ok_def world_ok_def ch' w' entry_ok_def compact_list_def compact_freed_def)
    moreover have "set (takers ch' @ putters ch') \<subseteq> set (takers ch @ putters ch)"
      by (auto simp: ch' compact_list_def)
    ultimately show ?thesis by (simp add: w' ch')
  qed
  then show "chan_ok w' ch'" "view w' ch' = view w ch" "ents w' = ents w" "flags w' = flags w"
    "posts w' = posts w" "next_ent w' = next_ent w" "locals w' = locals w" "sems w' = sems w"
    "set (takers ch' @ putters ch') \<subseteq> set (takers ch @ putters ch)" "closed ch' = closed ch"
    "on_close ch' = on_close ch" "close_guard ch' = close_guard ch"
    by simp_all
qed

lemma put_buffer_view:
  assumes "chan_ok w ch" "length (items (view w ch)) < cap (view w ch)"
  obtains ch' where "chan_put_to_buffer v ch = Inr (True, ch')" "chan_ok w ch'"
    "view w ch' = (view w ch)\<lparr>items := items (view w ch) @ [v]\<rparr>"
    "set (takers ch' @ putters ch') \<subseteq> set (takers ch @ putters ch)"
proof -
  have r: "ring_ok ch" "buf_count ch < buf_size ch" using assms by (simp_all add: chan_ok_def)
  obtain b where b: "chan_put_to_buffer v ch
      = Inr (True, ch\<lparr>buf := b, buf_count := Suc (buf_count ch), item_count := Suc (item_count ch)\<rparr>)"
    "ring_ok (ch\<lparr>buf := b, buf_count := Suc (buf_count ch), item_count := Suc (item_count ch)\<rparr>)"
    "ring_list (ch\<lparr>buf := b, buf_count := Suc (buf_count ch), item_count := Suc (item_count ch)\<rparr>)
      = ring_list ch @ [v]"
    by (rule ring_put [OF r])
  show thesis
  proof (rule that [OF b(1)])
    show "chan_ok w (ch\<lparr>buf := b, buf_count := Suc (buf_count ch), item_count := Suc (item_count ch)\<rparr>)"
      using assms(1) b(2) by (simp add: chan_ok_def)
  qed (simp_all add: view_def b(3))
qed

lemma put_buffer_full:
  assumes "chan_ok w ch" "\<not> length (items (view w ch)) < cap (view w ch)"
  shows "chan_put_to_buffer v ch = Inr (False, ch)"
  using assms ring_full [of ch v] by (simp add: chan_ok_def ring_ok_def)

lemma take_buffer_view:
  assumes "chan_ok w ch" "items (view w ch) = v # vs"
  obtains ch' where "chan_take_from_buffer ch = Inr (Some v, ch')" "chan_ok w ch'"
    "view w ch' = (view w ch)\<lparr>items := vs\<rparr>"
    "set (takers ch' @ putters ch') \<subseteq> set (takers ch @ putters ch)"
proof -
  have r: "ring_ok ch" "ring_list ch = v # vs" using assms by (simp_all add: chan_ok_def)
  obtain h where b: "chan_take_from_buffer ch
      = Inr (Some v, ch\<lparr>buf_head := h, buf_count := buf_count ch - 1, item_count := item_count ch - 1\<rparr>)"
    "ring_ok (ch\<lparr>buf_head := h, buf_count := buf_count ch - 1, item_count := item_count ch - 1\<rparr>)"
    "ring_list (ch\<lparr>buf_head := h, buf_count := buf_count ch - 1, item_count := item_count ch - 1\<rparr>) = vs"
    by (rule ring_take [OF r])
  show thesis
  proof (rule that [OF b(1)])
    show "chan_ok w (ch\<lparr>buf_head := h, buf_count := buf_count ch - 1, item_count := item_count ch - 1\<rparr>)"
      using assms(1) b(2) by (simp add: chan_ok_def)
  qed (simp_all add: view_def b(3) [unfolded One_nat_def])
qed

lemma take_buffer_empty:
  assumes "items (view w ch) = []"
  shows "chan_take_from_buffer ch = Inr (None, ch)"
proof -
  have "length (ring_list ch) = 0" using assms by simp
  then show ?thesis by (intro ring_empty) simp
qed

section \<open>Waking in the view\<close>

lemma set_takers_ok:
  assumes "chan_ok w ch" "takers ch = ys @ zs" "\<And>p. p \<in> set (zs @ putters ch) \<Longrightarrow> entry_ok w' p"
  and "world_ok w'"
  shows "chan_ok w' (set_takers zs (ch\<lparr>dead_count := d\<rparr>))"
  using assms tail_ok_suffix [of ys zs "takers_tail ch"]
  by (auto simp: chan_ok_def set_takers_def ring_ok_def)

lemma set_putters_ok:
  assumes "chan_ok w ch" "putters ch = ys @ zs" "\<And>p. p \<in> set (takers ch @ zs) \<Longrightarrow> entry_ok w' p"
  and "world_ok w'"
  shows "chan_ok w' (set_putters zs (ch\<lparr>dead_count := d\<rparr>))"
  using assms tail_ok_suffix [of ys zs "putters_tail ch"]
  by (auto simp: chan_ok_def set_putters_def ring_ok_def)

lemma claims_entry_ok: "\<lbrakk>claims p w w'; entry_ok w q\<rbrakk> \<Longrightarrow> entry_ok w' q"
  using claims_flag_ok [of p w w' q] by (simp add: entry_ok_def claims_def)

lemma claims_world_ok: "\<lbrakk>claims p w w'; chan_ok w ch\<rbrakk> \<Longrightarrow> world_ok w'"
  by (simp add: world_ok_def claims_def chan_ok_def)

lemma chan_ok_flag_ok:
  "chan_ok w ch \<Longrightarrow> \<forall>p \<in> set (takers ch). flag_ok w p"
  "chan_ok w ch \<Longrightarrow> \<forall>p \<in> set (putters ch). flag_ok w p"
  by (simp_all add: chan_ok_def entry_ok_def)

locale claimer = waker +
  assumes eff_claims: "claims p w (eff p w)"
begin

lemma takers_none:
  assumes "chan_ok w ch" "vtakers (view w ch) = []"
  shows "\<exists>ch'. obind (scan_waiters wk (takers ch) w ch)
             (\<lambda>(r, ps, w1, ch1). Some (Inr (F r, w1, set_takers ps ch1))) = Some (Inr (F None, w, ch'))
           \<and> chan_ok w ch' \<and> view w ch' = view w ch \<and> set (takers ch' @ putters ch') \<subseteq> set (takers ch @ putters ch)"
proof -
  have f: "filter (claimable w) (takers ch) = []" using assms(2) by (simp add: waiters_Nil_iff)
  obtain d where d: "scan_waiters wk (takers ch) w ch = Some (Inr (None, [], w, ch\<lparr>dead_count := d\<rparr>))"
    using scan_none [OF chan_ok_flag_ok(1) [OF assms(1)] f] by blast
  have "chan_ok w (set_takers [] (ch\<lparr>dead_count := d\<rparr>))"
    using assms(1) by (intro set_takers_ok [where ys = "takers ch"]) (auto simp: chan_ok_def)
  moreover have "view w (set_takers [] (ch\<lparr>dead_count := d\<rparr>)) = view w ch"
    using f by (simp add: view_def set_takers_def waiters_def)
  ultimately show ?thesis unfolding d by (auto simp: set_takers_def)
qed

lemma putters_none:
  assumes "chan_ok w ch" "vputters (view w ch) = []"
  shows "\<exists>ch'. obind (scan_waiters wk (putters ch) w ch)
             (\<lambda>(r, ps, w1, ch1). Some (Inr (F r, w1, set_putters ps ch1))) = Some (Inr (F None, w, ch'))
           \<and> chan_ok w ch' \<and> view w ch' = view w ch \<and> set (takers ch' @ putters ch') \<subseteq> set (takers ch @ putters ch)"
proof -
  have f: "filter (claimable w) (putters ch) = []" using assms(2) by (simp add: waiters_Nil_iff)
  obtain d where d: "scan_waiters wk (putters ch) w ch = Some (Inr (None, [], w, ch\<lparr>dead_count := d\<rparr>))"
    using scan_none [OF chan_ok_flag_ok(2) [OF assms(1)] f] by blast
  have "chan_ok w (set_putters [] (ch\<lparr>dead_count := d\<rparr>))"
    using assms(1) by (intro set_putters_ok [where ys = "putters ch"]) (auto simp: chan_ok_def)
  moreover have "view w (set_putters [] (ch\<lparr>dead_count := d\<rparr>)) = view w ch"
    using f by (simp add: view_def set_putters_def waiters_def)
  ultimately show ?thesis unfolding d by (auto simp: set_putters_def)
qed

lemma takers_some:
  assumes "chan_ok w ch" "vtakers (view w ch) = (p, g, u) # ts" "fit w p"
  shows "\<exists>ch'. obind (scan_waiters wk (takers ch) w ch)
             (\<lambda>(r, ps, w1, ch1). Some (Inr (F r, w1, set_takers ps ch1)))
               = Some (Inr (F (Some (res w p)), eff p w, ch'))
           \<and> chan_ok (eff p w) ch' \<and> view (eff p w) ch'
               = (view w ch)\<lparr>vtakers := ungroup g ts, vputters := ungroup g (vputters (view w ch))\<rparr>
           \<and> set (takers ch' @ putters ch') \<subseteq> set (takers ch @ putters ch)"
proof -
  obtain qs where q: "filter (claimable w) (takers ch) = p # qs" "g = fired (ents w p)"
    "ts = map (\<lambda>p. (p, fired (ents w p), ())) qs"
    using assms(2) by (auto elim: waiters_ConsE)
  obtain d ys zs where d: "takers ch = ys @ p # zs" "filter (claimable w) zs = qs"
    "scan_waiters wk (takers ch) w ch = Some (Inr (Some (res w p), zs, eff p w, ch\<lparr>dead_count := d\<rparr>))"
    using scan_some [OF chan_ok_flag_ok(1) [OF assms(1)] q(1) assms(3)] by blast
  have np: "p \<notin> set zs" "p \<notin> set (putters ch)" using assms(1) d(1) by (auto simp: chan_ok_def)
  have "chan_ok (eff p w) (set_takers zs (ch\<lparr>dead_count := d\<rparr>))"
    using assms(1) d(1) claims_entry_ok [OF eff_claims] claims_world_ok [OF eff_claims assms(1)]
    by (intro set_takers_ok [where ys = "ys @ [p]"]) (auto simp: chan_ok_def)
  moreover have "waiters w (\<lambda>_. ()) zs = ts" by (simp add: waiters_def d(2) q(3))
  then have "view (eff p w) (set_takers zs (ch\<lparr>dead_count := d\<rparr>))
      = (view w ch)\<lparr>vtakers := ungroup g ts, vputters := ungroup g (vputters (view w ch))\<rparr>"
    using np by (simp add: view_def set_takers_def q(2) waiters_claims [OF eff_claims]
        claims_keep(5) [OF eff_claims])
  moreover have "set zs \<subseteq> set (takers ch)" using d(1) by auto
  ultimately show ?thesis unfolding d(3) by (auto simp: set_takers_def)
qed

lemma putters_some:
  assumes "chan_ok w ch" "vputters (view w ch) = (p, g, u) # ts" "fit w p"
  shows "\<exists>ch'. obind (scan_waiters wk (putters ch) w ch)
             (\<lambda>(r, ps, w1, ch1). Some (Inr (F r, w1, set_putters ps ch1)))
               = Some (Inr (F (Some (res w p)), eff p w, ch'))
           \<and> chan_ok (eff p w) ch' \<and> view (eff p w) ch'
               = (view w ch)\<lparr>vtakers := ungroup g (vtakers (view w ch)), vputters := ungroup g ts\<rparr>
           \<and> set (takers ch' @ putters ch') \<subseteq> set (takers ch @ putters ch)"
proof -
  obtain qs where q: "filter (claimable w) (putters ch) = p # qs" "g = fired (ents w p)"
    "ts = map (\<lambda>p. (p, fired (ents w p), put_val (ents w p))) qs"
    using assms(2) by (auto elim: waiters_ConsE)
  obtain d ys zs where d: "putters ch = ys @ p # zs" "filter (claimable w) zs = qs"
    "scan_waiters wk (putters ch) w ch = Some (Inr (Some (res w p), zs, eff p w, ch\<lparr>dead_count := d\<rparr>))"
    using scan_some [OF chan_ok_flag_ok(2) [OF assms(1)] q(1) assms(3)] by blast
  have np: "p \<notin> set zs" "p \<notin> set (takers ch)" using assms(1) d(1) by (auto simp: chan_ok_def)
  have "chan_ok (eff p w) (set_putters zs (ch\<lparr>dead_count := d\<rparr>))"
    using assms(1) d(1) claims_entry_ok [OF eff_claims] claims_world_ok [OF eff_claims assms(1)]
    by (intro set_putters_ok [where ys = "ys @ [p]"]) (auto simp: chan_ok_def)
  moreover have "waiters w put_val zs = ts" by (simp add: waiters_def d(2) q(3))
  then have "view (eff p w) (set_putters zs (ch\<lparr>dead_count := d\<rparr>))
      = (view w ch)\<lparr>vtakers := ungroup g (vtakers (view w ch)), vputters := ungroup g ts\<rparr>"
    using np by (simp add: view_def set_putters_def q(2) waiters_claims [OF eff_claims]
        claims_keep(5) [OF eff_claims])
  moreover have "set zs \<subseteq> set (putters ch)" using d(1) by auto
  ultimately show ?thesis unfolding d(3) by (auto simp: set_putters_def)
qed

end

interpretation give: claimer
  "\<lambda>p w ch. obind (wake env p v w ch) (\<lambda>(b, w1, ch1). Some (Inr (if b then Some () else None, w1, ch1)))"
  "ready env" "\<lambda>w p. ()" "\<lambda>p w. dispatched env p v (delivered p v w)" for env v
  by unfold_locales (rule claims_dispatched)

interpretation fetch: claimer
  "\<lambda>p w ch. let v = put_val (ents w p) in
     obind (wake env p NULL w ch) (\<lambda>(b, w1, ch1). Some (Inr (if b then Some v else None, w1, ch1)))"
  "ready env" "\<lambda>w p. put_val (ents w p)" "\<lambda>p w. dispatched env p NULL (delivered p NULL w)" for env
  by unfold_locales (rule claims_dispatched)

interpretation give_claim: claimer
  "\<lambda>p w ch. case wake_claim env p v w ch of (r, w1, ch1) \<Rightarrow>
     Some (Inr (map_option (\<lambda>fe. (fe, want_of (ents w1 p))) r, w1, ch1))"
  "ready env" "\<lambda>w p. (claim_fiber env w p, want_of (ents w p))" "claim_effect env v" for env v
  by unfold_locales (rule claims_claim_effect)

interpretation fetch_claim: claimer
  "\<lambda>p w ch. let v = put_val (ents w p) in
     case wake_claim env p NULL w ch of (r, w1, ch1) \<Rightarrow>
     Some (Inr (map_option (\<lambda>fe. (v, fe, want_of (ents w1 p))) r, w1, ch1))"
  "ready env" "\<lambda>w p. (put_val (ents w p), claim_fiber env w p, want_of (ents w p))"
  "claim_effect env NULL" for env
  by unfold_locales (rule claims_claim_effect)

lemma view_ready:
  assumes "all_ready env w ch"
  shows "vtakers (view w ch) = (p, g, u) # ts \<Longrightarrow> ready env w p"
    and "vputters (view w ch) = (q, h, a) # ps \<Longrightarrow> ready env w q \<and> a = put_val (ents w q)"
proof -
  have r: "ready env w x" if "filter (claimable w) xs = x # ys" "set xs \<subseteq> set (takers ch @ putters ch)" for x xs ys
  proof -
    have "x \<in> set (filter (claimable w) xs)" using that(1) by simp
    then have "x \<in> set xs" "claimable w x" by simp_all
    with assms that(2) show ?thesis by (auto simp: all_ready_def)
  qed
  show "vtakers (view w ch) = (p, g, u) # ts \<Longrightarrow> ready env w p"
    by (auto elim!: waiters_ConsE intro: r [of "takers ch"])
  show "vputters (view w ch) = (q, h, a) # ps \<Longrightarrow> ready env w q \<and> a = put_val (ents w q)"
    by (auto elim!: waiters_ConsE intro: r [of "putters ch"])
qed

end
