(* ===== verification/Goc_Chan_Refine.thy ===== *)
theory Goc_Chan_Refine
  imports Goc_Chan_Spec
begin

text \<open>
  The channel operations implement the specification: for each of the fiber, the thread and the
  callback variants of put and take, on every branch.
\<close>

section \<open>Handing a value on\<close>

lemma post_fiber_posts:
  "\<exists>x. posts (post_fiber env fe w) = posts w @ [x] \<and> post_target x = Some fe"
  "locals (post_fiber env fe w) = locals w"
  by (simp_all add: post_fiber_def log_post_def post_target_def Let_def)

lemma delivered_result:
  "posts (delivered p v w) = posts w" "sems (delivered p v w) = sems w"
  "result_slot (ents w p) = LocalSlot i \<Longrightarrow> locals (delivered p v w) i = v"
  by (auto simp: delivered_def upd_ent_def write_result_def claimed_def split: slot_ref.splits option.splits)

lemma handed_dispatched: "handed env w (dispatched env p v (delivered p v w)) p v"
proof -
  have k: "kind (ents (delivered p v w) p) = kind (ents w p)"
    "coro (ents (delivered p v w) p) = coro (ents w p)"
    "sync_sem_ptr (ents (delivered p v w) p) = sync_sem_ptr (ents w p)"
    by (simp_all add: delivered_entry)
  show ?thesis
  proof (cases "kind (ents w p)")
    case GOC_FIBER
    then show ?thesis
      using post_fiber_posts(1) [of env "user_data env (coro (ents w p))" "delivered p v w"]
      by (auto simp: handed_def dispatched_def k delivered_entry delivered_result post_fiber_posts(2)
          split: slot_ref.splits)
  next
    case GOC_CALLBACK
    then show ?thesis
      by (auto simp: handed_def dispatched_def k delivered_entry delivered_result POST_CALLBACK_def
          log_post_def upd_ent_def split: slot_ref.splits)
  next
    case GOC_SYNC
    then show ?thesis
      by (auto simp: handed_def dispatched_def k delivered_entry delivered_result goc_sync_post_def
          split: slot_ref.splits)
  qed
qed

lemma spin_until_settles:
  assumes "settles loads want"
  shows "spin_until loads want 1 = Some (Inr ())"
proof -
  have *: "loads (i + n) = want \<Longrightarrow> spin_until loads want i = Some (Inr ())" for i n
  proof (induction n arbitrary: i)
    case 0
    then show ?case by (simp add: spin_until.simps)
  next
    case (Suc n)
    then show ?case using Suc.IH [of "Suc i"] by (subst spin_until.simps) simp
  qed
  from assms obtain n where "n > 0" "loads n = want" by (auto simp: settles_def)
  then show ?thesis by (intro * [of _ "n - 1"]) simp
qed

lemma wait_and_ok:
  assumes "ready env w p"
  shows "wait_and env (claim_fiber env w p, want_of (ents w p)) (post_fiber env) (claim_effect env v p w)
      = Some (Inr (dispatched env p v (delivered p v w)))"
  using assms wait_settles(2)
  by (auto simp: wait_and_def claim_fiber_def claim_effect_def ready_def dispatched_def delivered_entry)

lemma spin_and_post_ok:
  assumes "ready env w p" "user_data env (coro (ents w p)) \<noteq> q"
  shows "spin_and_post env (claim_fiber env w p, want_of (ents w p))
      (upd_ent q f (claim_effect env v p w)) = Some (Inr (upd_ent q f (dispatched env p v (delivered p v w))))"
  using assms spin_until_settles
  by (auto simp: spin_and_post_def claim_fiber_def claim_effect_def ready_def dispatched_def
      delivered_entry post_fiber_def log_post_def upd_ent_def Let_def)

lemma wait_and_queue_ok:
  assumes "ready env w p"
  shows "\<exists>w'. wait_and env (claim_fiber env w p, want_of (ents w p)) post_to_run_queue_of
           (claim_effect env v p w) = Some (Inr w') \<and> handed env w w' p v
         \<and> (\<forall>A. agree (claim_effect env v p w) w' A)"
proof (cases "kind (ents w p) = GOC_FIBER")
  case True
  then show ?thesis
    using assms wait_settles(2)
    by (auto simp: wait_and_def claim_fiber_def claim_effect_def ready_def post_to_run_queue_of_def
        handed_def log_post_def post_target_def delivered_entry delivered_result agree_def world_ok_def
        split: slot_ref.splits)
next
  case False
  then have "claim_effect env v p w = dispatched env p v (delivered p v w)" by (simp add: claim_effect_def)
  with False handed_dispatched [of env w p v] show ?thesis by (auto simp: wait_and_def claim_fiber_def)
qed

section \<open>Parking in the view\<close>

lemma append_taker_ok:
  assumes "chan_ok w ch" "p \<notin> set (takers ch @ putters ch)" "claimable w p" "entry_ok w p"
  shows "chan_ok w (append_taker p ch)"
    "view w (append_taker p ch) = (view w ch)\<lparr>vtakers := vtakers (view w ch) @ [(p, fired (ents w p), ())]\<rparr>"
proof -
  have a: "append_taker p ch = ch\<lparr>takers := takers ch @ [p], takers_tail := Some p\<rparr>"
    using assms(1) by (simp add: append_taker_def list_append_ok chan_ok_def)
  show "chan_ok w (append_taker p ch)"
    using assms(1,2,4) by (auto simp: a chan_ok_def)
  show "view w (append_taker p ch) = (view w ch)\<lparr>vtakers := vtakers (view w ch) @ [(p, fired (ents w p), ())]\<rparr>"
    using assms(3) by (simp add: a view_def waiters_def)
qed

lemma append_putter_ok:
  assumes "chan_ok w ch" "p \<notin> set (takers ch @ putters ch)" "claimable w p" "entry_ok w p"
  shows "chan_ok w (append_putter p ch)"
    "view w (append_putter p ch) = (view w ch)\<lparr>vputters := vputters (view w ch) @ [(p, fired (ents w p), put_val (ents w p))]\<rparr>"
proof -
  have a: "append_putter p ch = ch\<lparr>putters := putters ch @ [p], putters_tail := Some p\<rparr>"
    using assms(1) by (simp add: append_putter_def list_append_ok chan_ok_def)
  show "chan_ok w (append_putter p ch)"
    using assms(1,2,4) by (auto simp: a chan_ok_def)
  show "view w (append_putter p ch) = (view w ch)\<lparr>vputters := vputters (view w ch) @ [(p, fired (ents w p), put_val (ents w p))]\<rparr>"
    using assms(3) by (simp add: a view_def waiters_def)
qed

text \<open>A freshly parked entry is live and the world is otherwise the one before.\<close>

definition parks :: "goc_world \<Rightarrow> goc_entry \<Rightarrow> goc_world \<Rightarrow> bool" where
  "parks w e w' = (agree w w' {..<next_ent w} \<and> flags w' = flags w \<and> ents w' (next_ent w) = e \<and>
     next_ent w' = Suc (next_ent w) \<and> freed w' = freed w \<and> \<not> cancelled e \<and> \<not> woken e \<and> fired e = None \<and>
     (\<forall>q < next_ent w. kind (ents w' q) = kind (ents w q) \<and> coro (ents w' q) = coro (ents w q) \<and>
        parked_gen (ents w' q) = parked_gen (ents w q)))"

lemma park_fiber_parks:
  assumes "user_data env c < next_ent w" "\<not> cancelled e" "\<not> woken e" "fired e = None"
  obtains w' where "park_fiber env c worker e w = (next_ent w, w')"
    "parks w (fiber_entry env c worker e w) w'"
proof -
  let ?w = "upd_ent (user_data env c) (\<lambda>f. f\<lparr>parked := push_bit 1 (park_gen (parked f)) OR 1\<rparr>)
    (snd (alloc_entry (fiber_entry env c worker e w) w))"
  have f: "\<not> cancelled (fiber_entry env c worker e w)" "\<not> woken (fiber_entry env c worker e w)"
    "fired (fiber_entry env c worker e w) = None"
    using assms by (simp_all add: fiber_entry_def Let_def)
  then have "parks w (fiber_entry env c worker e w) ?w"
    using assms(1) unfolding parks_def agree_def world_ok_def by (auto simp: alloc_entry_def)
  moreover have "park_fiber env c worker e w = (next_ent w, ?w)"
    by (simp add: park_fiber_def alloc_entry_def)
  ultimately show thesis using that by blast
qed

lemma park_sync_parks:
  assumes "\<not> cancelled e" "\<not> woken e" "fired e = None"
  obtains w' where "park_sync e w = (next_ent w, w')" "parks w (sync_entry (next_ent w) e) w'"
proof -
  let ?w = "goc_sync_init (next_ent w) (snd (alloc_entry (sync_entry (next_ent w) e) w))"
  have "parks w (sync_entry (next_ent w) e) ?w"
    using assms unfolding parks_def agree_def world_ok_def
    by (auto simp: alloc_entry_def goc_sync_init_def sync_entry_def)
  moreover have "park_sync e w = (next_ent w, ?w)"
    by (simp add: park_sync_def alloc_entry_def)
  ultimately show thesis using that by blast
qed

lemma zero_put:
  "\<not> cancelled (entry_zero\<lparr>put_val := v\<rparr>)"
  "\<not> woken (entry_zero\<lparr>put_val := v\<rparr>)"
  "fired (entry_zero\<lparr>put_val := v\<rparr>) = None"
  by (simp_all add: entry_zero_def)

lemma zero_slot:
  "\<not> cancelled (entry_zero\<lparr>result_slot := sl\<rparr>)"
  "\<not> woken (entry_zero\<lparr>result_slot := sl\<rparr>)"
  "fired (entry_zero\<lparr>result_slot := sl\<rparr>) = None"
  by (simp_all add: entry_zero_def)

lemma parks_ok:
  assumes "chan_ok w ch" "parks w e w'"
  shows "chan_ok w' ch" "view w' ch = view w ch" "next_ent w \<notin> set (takers ch @ putters ch)"
    "claimable w' (next_ent w)" "entry_ok w' (next_ent w)"
proof -
  have sub: "set (takers ch @ putters ch) \<subseteq> {..<next_ent w}"
    using assms(1) by (auto simp: chan_ok_def entry_ok_def)
  then have "agree w w' (set (takers ch @ putters ch))"
    using assms(2) unfolding parks_def agree_def by blast
  from agree_view [OF this] assms(1) show "chan_ok w' ch" "view w' ch = view w ch" by simp_all
  show "next_ent w \<notin> set (takers ch @ putters ch)" using sub by blast
  show "claimable w' (next_ent w)" "entry_ok w' (next_ent w)"
    using assms by (auto simp: claimable_def entry_ok_def flag_ok_def parks_def chan_ok_def world_ok_def)
qed

lemma park_taker:
  assumes "chan_ok w ch" "parks w e w'"
  shows "chan_ok w' (append_taker (next_ent w) ch)"
    "view w' (append_taker (next_ent w) ch)
       = (view w ch)\<lparr>vtakers := vtakers (view w ch) @ [(next_ent w, None, ())]\<rparr>"
  using append_taker_ok [of w' ch "next_ent w"] parks_ok [OF assms] assms(2)
  by (simp_all add: parks_def)

lemma park_putter:
  assumes "chan_ok w ch" "parks w e w'" "put_val e = v"
  shows "chan_ok w' (append_putter (next_ent w) ch)"
    "view w' (append_putter (next_ent w) ch)
       = (view w ch)\<lparr>vputters := vputters (view w ch) @ [(next_ent w, None, v)]\<rparr>"
  using append_putter_ok [of w' ch "next_ent w"] parks_ok [OF assms(1,2)] assms(2,3)
  by (simp_all add: parks_def)

text \<open>The waiters stay ready when one is woken, and when an OS thread parks.\<close>

lemma all_ready_sub:
  "\<lbrakk>all_ready env w ch; set (takers ch' @ putters ch') \<subseteq> set (takers ch @ putters ch)\<rbrakk> \<Longrightarrow> all_ready env w ch'"
  by (auto simp: all_ready_def)

lemma all_ready_claims:
  "\<lbrakk>all_ready env w ch; claims p w w'; set (takers ch' @ putters ch') \<subseteq> set (takers ch @ putters ch)\<rbrakk>
   \<Longrightarrow> all_ready env w' ch'"
  by (auto simp: all_ready_def claims_claimable claims_ready)

lemma all_ready_parks:
  assumes "all_ready env w ch" "chan_ok w ch" "parks w e w'" "kind e \<noteq> GOC_FIBER"
    "set (takers ch' @ putters ch') \<subseteq> insert (next_ent w) (set (takers ch @ putters ch))"
  shows "all_ready env w' ch'"
  unfolding all_ready_def
proof (intro ballI impI)
  fix q assume q: "q \<in> set (takers ch' @ putters ch')" "claimable w' q"
  show "ready env w' q"
  proof (cases "q = next_ent w")
    case True
    with assms(3,4) show ?thesis by (simp add: parks_def ready_def)
  next
    case False
    then have m: "q \<in> set (takers ch @ putters ch)" using q(1) assms(5) by auto
    then have lt: "q < next_ent w" using assms(2) by (auto simp: chan_ok_def entry_ok_def)
    then have s: "cancelled (ents w' q) = cancelled (ents w q)" "woken (ents w' q) = woken (ents w q)"
      "fired (ents w' q) = fired (ents w q)" "flags w' = flags w" "kind (ents w' q) = kind (ents w q)"
      "coro (ents w' q) = coro (ents w q)" "parked_gen (ents w' q) = parked_gen (ents w q)"
      using assms(3) by (simp_all add: parks_def agree_def)
    have "claimable w q" using q(2) unfolding claimable_def s .
    with assms(1) m have "ready env w q" by (auto simp: all_ready_def)
    then show ?thesis unfolding ready_def want_of_def s .
  qed
qed

lemma claims_next: "claims p w w' \<Longrightarrow> next_ent w' = next_ent w"
  by (simp add: claims_def)

lemma append_taker_set:
  "chan_ok w ch \<Longrightarrow> set (takers (append_taker p ch) @ putters (append_taker p ch)) = insert p (set (takers ch @ putters ch))"
  by (simp add: append_taker_def list_append_ok chan_ok_def)

lemma append_putter_set:
  "chan_ok w ch \<Longrightarrow> set (takers (append_putter p ch) @ putters (append_putter p ch)) = insert p (set (takers ch @ putters ch))"
  by (simp add: append_putter_def list_append_ok chan_ok_def)

section \<open>Put\<close>

lemma compact_prep:
  assumes "chan_ok w ch" "all_ready env w ch"
  obtains w0 ch0 where "compact_if_due w ch = (w0, ch0)" "chan_ok w0 ch0" "view w0 ch0 = view w ch"
    "all_ready env w0 ch0" "ents w0 = ents w" "next_ent w0 = next_ent w" "flags w0 = flags w"
    "set (takers ch0 @ putters ch0) \<subseteq> set (takers ch @ putters ch)"
    "handed env w0 = handed env w" "posts w0 = posts w"
proof -
  obtain w0 ch0 where c: "compact_if_due w ch = (w0, ch0)" by (cases "compact_if_due w ch")
  note k = compact_ok [OF assms(1) c]
  have "claimable w0 = claimable w" "ready env w0 = ready env w" "handed env w0 = handed env w"
    by (intro ext; simp only: claimable_def ready_def handed_def k(3,4,5))+
  moreover from this have "all_ready env w0 ch0"
    using assms(2) k(9) unfolding all_ready_def by auto
  ultimately show thesis using c k that by blast
qed

lemma claim_taker_none:
  "\<lbrakk>chan_ok w ch; vtakers (view w ch) = []\<rbrakk>
   \<Longrightarrow> \<exists>ch'. chan_put_to_taker_claim env v w ch = Some (Inr (None, w, ch')) \<and> chan_ok w ch' \<and>
         view w ch' = view w ch \<and> set (takers ch' @ putters ch') \<subseteq> set (takers ch @ putters ch)"
  unfolding chan_put_to_taker_claim_def by (rule give_claim.takers_none)

lemma claim_taker_some:
  "\<lbrakk>chan_ok w ch; vtakers (view w ch) = (p, g, u) # ts; ready env w p\<rbrakk>
   \<Longrightarrow> \<exists>ch'. chan_put_to_taker_claim env v w ch
         = Some (Inr (Some (claim_fiber env w p, want_of (ents w p)), claim_effect env v p w, ch')) \<and>
         chan_ok (claim_effect env v p w) ch' \<and> view (claim_effect env v p w) ch'
           = (view w ch)\<lparr>vtakers := ungroup g ts, vputters := ungroup g (vputters (view w ch))\<rparr> \<and>
         set (takers ch' @ putters ch') \<subseteq> set (takers ch @ putters ch)"
  unfolding chan_put_to_taker_claim_def by (rule give_claim.takers_some)

lemma give_taker_none:
  "\<lbrakk>chan_ok w ch; vtakers (view w ch) = []\<rbrakk>
   \<Longrightarrow> \<exists>ch'. chan_put_to_taker env v w ch = Some (Inr (False, w, ch')) \<and> chan_ok w ch' \<and>
         view w ch' = view w ch \<and> set (takers ch' @ putters ch') \<subseteq> set (takers ch @ putters ch)"
  unfolding chan_put_to_taker_def using give.takers_none [where F = "\<lambda>r. r \<noteq> None"] by simp

lemma give_taker_some:
  "\<lbrakk>chan_ok w ch; vtakers (view w ch) = (p, g, u) # ts; ready env w p\<rbrakk>
   \<Longrightarrow> \<exists>ch'. chan_put_to_taker env v w ch
         = Some (Inr (True, dispatched env p v (delivered p v w), ch')) \<and>
         chan_ok (dispatched env p v (delivered p v w)) ch' \<and> view (dispatched env p v (delivered p v w)) ch'
           = (view w ch)\<lparr>vtakers := ungroup g ts, vputters := ungroup g (vputters (view w ch))\<rparr> \<and>
         set (takers ch' @ putters ch') \<subseteq> set (takers ch @ putters ch)"
  unfolding chan_put_to_taker_def using give.takers_some [where F = "\<lambda>r. r \<noteq> None"] by simp

text \<open>The posts after a claim do not concern the lists.\<close>

lemma claim_effect_dispatched:
  "view (dispatched env p v (delivered p v w)) ch = view (claim_effect env v p w) ch"
  "chan_ok (claim_effect env v p w) ch \<Longrightarrow> chan_ok (dispatched env p v (delivered p v w)) ch"
proof -
  have "agree (claim_effect env v p w) (dispatched env p v (delivered p v w)) A" for A
    by (auto simp: claim_effect_def dispatched_def delivered_entry)
  from agree_view [OF this] show
    "view (dispatched env p v (delivered p v w)) ch = view (claim_effect env v p w) ch"
    "chan_ok (claim_effect env v p w) ch \<Longrightarrow> chan_ok (dispatched env p v (delivered p v w)) ch"
    by auto
qed

text \<open>The four ways a put goes, for the callers that claim under the lock and post after it.\<close>

lemma view_head:
  "vtakers (view w ch) = (q, g, u) # ts \<Longrightarrow> q \<in> set (takers ch @ putters ch)"
  "vputters (view w ch) = (q, h, a) # ps \<Longrightarrow> q \<in> set (takers ch @ putters ch)"
  by (auto elim!: waiters_ConsE dest!: filter_eq_ConsD)

lemma put_claim_cases:
  assumes "chan_ok w ch" "all_ready env w ch" "spec_put n v (view w ch) = (r, y)"
  obtains
    (Closed) "closed ch" "r = PutClosed" "y = view w ch"
  | (Taker) q ch1 where "\<not> closed ch" "r = PutTo q" "ready env w q" "q \<in> set (takers ch @ putters ch)"
      "chan_put_to_taker_claim env v w ch
         = Some (Inr (Some (claim_fiber env w q, want_of (ents w q)), claim_effect env v q w, ch1))"
      "chan_ok (dispatched env q v (delivered q v w)) ch1" "view (dispatched env q v (delivered q v w)) ch1 = y"
      "set (takers ch1 @ putters ch1) \<subseteq> set (takers ch @ putters ch)"
  | (Stored) ch1 ch2 where "\<not> closed ch" "r = PutStored"
      "chan_put_to_taker_claim env v w ch = Some (Inr (None, w, ch1))" "chan_put_to_buffer v ch1 = Inr (True, ch2)"
      "chan_ok w ch2" "view w ch2 = y" "set (takers ch2 @ putters ch2) \<subseteq> set (takers ch @ putters ch)"
  | (Full) ch1 where "\<not> closed ch" "r = PutParks"
      "chan_put_to_taker_claim env v w ch = Some (Inr (None, w, ch1))" "chan_put_to_buffer v ch1 = Inr (False, ch1)"
      "chan_ok w ch1" "view w ch1 = view w ch" "y = (view w ch)\<lparr>vputters := vputters (view w ch) @ [(n, None, v)]\<rparr>"
      "set (takers ch1 @ putters ch1) \<subseteq> set (takers ch @ putters ch)"
proof (cases "closed ch")
  case True
  with Closed assms(3) show thesis by (simp add: spec_put_def)
next
  case nc: False
  show thesis
  proof (cases "vtakers (view w ch)")
    case (Cons t ts)
    obtain q g u where t: "t = (q, g, u)" by (cases t)
    note rd = view_ready(1) [OF assms(2) Cons [unfolded t]]
    obtain ch1 where c1: "chan_put_to_taker_claim env v w ch
        = Some (Inr (Some (claim_fiber env w q, want_of (ents w q)), claim_effect env v q w, ch1))"
      "chan_ok (claim_effect env v q w) ch1" "view (claim_effect env v q w) ch1
         = (view w ch)\<lparr>vtakers := ungroup g ts, vputters := ungroup g (vputters (view w ch))\<rparr>"
      "set (takers ch1 @ putters ch1) \<subseteq> set (takers ch @ putters ch)"
      using claim_taker_some [OF assms(1) Cons [unfolded t] rd] by blast
    have "r = PutTo q" "view (dispatched env q v (delivered q v w)) ch1 = y"
      using assms(3) nc Cons t c1(3) by (simp_all add: spec_put_def claim_effect_dispatched(1))
    with Taker nc rd view_head(1) [OF Cons [unfolded t]] c1 claim_effect_dispatched(2) [OF c1(2)]
    show thesis by blast
  next
    case Nil
    obtain ch1 where c1: "chan_put_to_taker_claim env v w ch = Some (Inr (None, w, ch1))"
      "chan_ok w ch1" "view w ch1 = view w ch" "set (takers ch1 @ putters ch1) \<subseteq> set (takers ch @ putters ch)"
      using claim_taker_none [OF assms(1) Nil] by blast
    show thesis
    proof (cases "length (items (view w ch1)) < cap (view w ch1)")
      case True
      obtain ch2 where c2: "chan_put_to_buffer v ch1 = Inr (True, ch2)" "chan_ok w ch2"
        "view w ch2 = (view w ch1)\<lparr>items := items (view w ch1) @ [v]\<rparr>"
        "set (takers ch2 @ putters ch2) \<subseteq> set (takers ch1 @ putters ch1)"
        by (rule put_buffer_view [OF c1(2) True])
      have "r = PutStored" "view w ch2 = y"
        using assms(3) nc Nil True c2(3) by (simp_all add: spec_put_def c1(3))
      with Stored nc c1 c2 show thesis by blast
    next
      case False
      have "r = PutParks" "y = (view w ch)\<lparr>vputters := vputters (view w ch) @ [(n, None, v)]\<rparr>"
        using assms(3) nc Nil False by (simp_all add: spec_put_def c1(3))
      with Full nc c1 put_buffer_full [OF c1(2) False] show thesis by blast
    qed
  qed
qed

text \<open>C10:
  \<open>goc_put\<close> called by a fiber on a well-formed channel whose live waiters reach their
  suspension always returns, and is exactly the put of the specification, whatever the ring, the
  tail pointers, dead entries and a due compaction look like: closed, handed to the oldest live
  taker (who gets the value and is posted once), stored, or parked; the invariant is kept.
\<close>

theorem put_refines:
  assumes "chan_ok w ch" "all_ready env w ch" "user_data env c < next_ent w"
    and "spec_put (next_ent w) v (view w ch) = (r, y)"
  shows "\<exists>w' ch'. goc_put env (Some c) worker v w ch = Some (Inr (put_outcome (next_ent w) r, w', ch'))
      \<and> chan_ok w' ch' \<and> view w' ch' = y \<and> (\<forall>q. r = PutTo q \<longrightarrow> handed env w w' q v)"
proof -
  obtain w0 ch0 where k: "compact_if_due w ch = (w0, ch0)" "chan_ok w0 ch0" "view w0 ch0 = view w ch"
    "all_ready env w0 ch0" "ents w0 = ents w" "next_ent w0 = next_ent w" "flags w0 = flags w"
    "set (takers ch0 @ putters ch0) \<subseteq> set (takers ch @ putters ch)"
    "handed env w0 = handed env w" "posts w0 = posts w"
    by (rule compact_prep [OF assms(1,2)])
  have "spec_put (next_ent w0) v (view w0 ch0) = (r, y)" using assms(4) k by simp
  from k(2,4) this show ?thesis
  proof (cases rule: put_claim_cases)
    case Closed
    with k(1,2) show ?thesis by (simp add: goc_put_def put_outcome_def)
  next
    case (Taker q ch1)
    then show ?thesis using handed_dispatched [of env w0 q v] k(9)
      by (auto simp: goc_put_def k(1) wait_and_ok put_outcome_def)
  next
    case (Stored ch1 ch2)
    then show ?thesis by (simp add: goc_put_def k(1) put_outcome_def)
  next
    case (Full ch1)
    have ud0: "user_data env c < next_ent w0" using assms(3) k(6) by simp
    obtain w2 where w2: "park_fiber env c worker (entry_zero\<lparr>put_val := v\<rparr>) w0 = (next_ent w0, w2)"
      "parks w0 (fiber_entry env c worker (entry_zero\<lparr>put_val := v\<rparr>) w0) w2"
      by (rule park_fiber_parks [OF ud0 zero_put])
    have "put_val (fiber_entry env c worker (entry_zero\<lparr>put_val := v\<rparr>) w0) = v"
      by (simp add: fiber_entry_def Let_def)
    from park_putter [OF Full(5) w2(2) this] Full w2(1) k(6) show ?thesis
      by (simp add: goc_put_def k(1) put_outcome_def)
  qed
qed

lemma put_sync_parks:
  assumes "chan_ok w ch" "all_ready env w ch"
  obtains w2 where "park_sync (entry_zero\<lparr>put_val := v\<rparr>) w = (next_ent w, w2)"
    "chan_ok w2 (append_putter (next_ent w) ch)" "all_ready env w2 (append_putter (next_ent w) ch)"
    "view w2 (append_putter (next_ent w) ch)
       = (view w ch)\<lparr>vputters := vputters (view w ch) @ [(next_ent w, None, v)]\<rparr>"
    "next_ent w2 = Suc (next_ent w)"
proof -
  obtain w2 where w2: "park_sync (entry_zero\<lparr>put_val := v\<rparr>) w = (next_ent w, w2)"
    "parks w (sync_entry (next_ent w) (entry_zero\<lparr>put_val := v\<rparr>)) w2"
    by (rule park_sync_parks [OF zero_put])
  have "put_val (sync_entry (next_ent w) (entry_zero\<lparr>put_val := v\<rparr>)) = v" by (simp add: sync_entry_def)
  note pk = park_putter [OF assms(1) w2(2) this]
  have "all_ready env w2 (append_putter (next_ent w) ch)"
    using append_putter_set [OF assms(1)]
    by (intro all_ready_parks [OF assms(2,1) w2(2)]) (simp_all add: sync_entry_def)
  moreover have "next_ent w2 = Suc (next_ent w)" using w2(2) by (simp add: parks_def)
  ultimately show thesis using that [OF w2(1) pk(1) _ pk(2)] by blast
qed

lemma put_sync_refines:
  assumes "chan_ok w ch" "all_ready env w ch" "spec_put (next_ent w) v (view w ch) = (r, y)"
  shows "\<exists>w' ch'. goc_put_sync env None v w ch = Some (Inr (put_outcome (next_ent w) r, w', ch'))
      \<and> chan_ok w' ch' \<and> view w' ch' = y \<and> (\<forall>q. r = PutTo q \<longrightarrow> handed env w w' q v)
      \<and> all_ready env w' ch' \<and> next_ent w' = (if r = PutParks then Suc (next_ent w) else next_ent w)"
proof (cases "closed ch")
  case True
  then have "r = PutClosed" "y = view w ch" using assms(3) by (simp_all add: spec_put_def)
  with True assms(1,2) show ?thesis by (simp add: goc_put_sync_def put_outcome_def)
next
  case nc: False
  show ?thesis
  proof (cases "vtakers (view w ch)")
    case (Cons t ts)
    obtain p g u where t: "t = (p, g, u)" by (cases t)
    note rd = view_ready(1) [OF assms(2) Cons [unfolded t]]
    obtain ch1 where c1: "chan_put_to_taker env v w ch
        = Some (Inr (True, dispatched env p v (delivered p v w), ch1))"
      "chan_ok (dispatched env p v (delivered p v w)) ch1" "view (dispatched env p v (delivered p v w)) ch1
         = (view w ch)\<lparr>vtakers := ungroup g ts, vputters := ungroup g (vputters (view w ch))\<rparr>"
      "set (takers ch1 @ putters ch1) \<subseteq> set (takers ch @ putters ch)"
      using give_taker_some [OF assms(1) Cons [unfolded t] rd] by blast
    moreover have "r = PutTo p" "y = view (dispatched env p v (delivered p v w)) ch1"
      using assms(3) nc Cons t c1(3) by (simp_all add: spec_put_def)
    ultimately show ?thesis
      using nc handed_dispatched [of env w p v] all_ready_claims [OF assms(2) claims_dispatched c1(4)]
        claims_next [OF claims_dispatched] by (auto simp: goc_put_sync_def put_outcome_def)
  next
    case Nil
    obtain ch1 where c1: "chan_put_to_taker env v w ch = Some (Inr (False, w, ch1))"
      "chan_ok w ch1" "view w ch1 = view w ch"
      "set (takers ch1 @ putters ch1) \<subseteq> set (takers ch @ putters ch)"
      using give_taker_none [OF assms(1) Nil] by blast
    note rd1 = all_ready_sub [OF assms(2) c1(4)]
    show ?thesis
    proof (cases "length (items (view w ch1)) < cap (view w ch1)")
      case True
      obtain ch2 where c2: "chan_put_to_buffer v ch1 = Inr (True, ch2)" "chan_ok w ch2"
        "view w ch2 = (view w ch1)\<lparr>items := items (view w ch1) @ [v]\<rparr>"
          "set (takers ch2 @ putters ch2) \<subseteq> set (takers ch1 @ putters ch1)"
        by (rule put_buffer_view [OF c1(2) True])
      have "r = PutStored" "y = view w ch2"
        using assms(3) nc Nil True c2(3) by (simp_all add: spec_put_def c1(3))
      then show ?thesis using nc c2 all_ready_sub [OF rd1 c2(4)] by (simp add: goc_put_sync_def c1(1) put_outcome_def)
    next
      case False
      obtain w2 where "park_sync (entry_zero\<lparr>put_val := v\<rparr>) w = (next_ent w, w2)"
        "chan_ok w2 (append_putter (next_ent w) ch1)" "all_ready env w2 (append_putter (next_ent w) ch1)"
        "view w2 (append_putter (next_ent w) ch1)
           = (view w ch1)\<lparr>vputters := vputters (view w ch1) @ [(next_ent w, None, v)]\<rparr>"
        "next_ent w2 = Suc (next_ent w)"
        by (rule put_sync_parks [OF c1(2) rd1])
      then show ?thesis using assms(3) nc Nil False c1(3)
        by (simp add: goc_put_sync_def c1(1) put_buffer_full [OF c1(2) False] put_outcome_def spec_put_def)
    qed
  qed
qed

section \<open>Take\<close>

lemma claim_putter_none:
  "\<lbrakk>chan_ok w ch; vputters (view w ch) = []\<rbrakk>
   \<Longrightarrow> \<exists>ch'. chan_take_from_putter_claim env w ch = Some (Inr (None, w, ch')) \<and> chan_ok w ch' \<and>
         view w ch' = view w ch \<and> set (takers ch' @ putters ch') \<subseteq> set (takers ch @ putters ch)"
  unfolding chan_take_from_putter_claim_def by (rule fetch_claim.putters_none)

lemma claim_putter_some:
  "\<lbrakk>chan_ok w ch; vputters (view w ch) = (p, g, u) # ts; ready env w p\<rbrakk>
   \<Longrightarrow> \<exists>ch'. chan_take_from_putter_claim env w ch
         = Some (Inr (Some (put_val (ents w p), claim_fiber env w p, want_of (ents w p)),
                      claim_effect env NULL p w, ch')) \<and>
         chan_ok (claim_effect env NULL p w) ch' \<and> view (claim_effect env NULL p w) ch'
           = (view w ch)\<lparr>vtakers := ungroup g (vtakers (view w ch)), vputters := ungroup g ts\<rparr> \<and>
         set (takers ch' @ putters ch') \<subseteq> set (takers ch @ putters ch)"
  unfolding chan_take_from_putter_claim_def by (rule fetch_claim.putters_some)

lemma fetch_putter_none:
  "\<lbrakk>chan_ok w ch; vputters (view w ch) = []\<rbrakk>
   \<Longrightarrow> \<exists>ch'. chan_take_from_putter env w ch = Some (Inr (None, w, ch')) \<and> chan_ok w ch' \<and>
         view w ch' = view w ch \<and> set (takers ch' @ putters ch') \<subseteq> set (takers ch @ putters ch)"
  unfolding chan_take_from_putter_def by (rule fetch.putters_none)

lemma fetch_putter_some:
  "\<lbrakk>chan_ok w ch; vputters (view w ch) = (p, g, u) # ts; ready env w p\<rbrakk>
   \<Longrightarrow> \<exists>ch'. chan_take_from_putter env w ch
         = Some (Inr (Some (put_val (ents w p)), dispatched env p NULL (delivered p NULL w), ch')) \<and>
         chan_ok (dispatched env p NULL (delivered p NULL w)) ch' \<and>
         view (dispatched env p NULL (delivered p NULL w)) ch'
           = (view w ch)\<lparr>vtakers := ungroup g (vtakers (view w ch)), vputters := ungroup g ts\<rparr> \<and>
         set (takers ch' @ putters ch') \<subseteq> set (takers ch @ putters ch)"
  unfolding chan_take_from_putter_def by (rule fetch.putters_some)

text \<open>The four ways a take goes, for the callers that claim under the lock.\<close>

lemma take_claim_cases:
  assumes "chan_ok w ch" "all_ready env w ch" "spec_take n (view w ch) = (r, y)"
  obtains
    (Item) v ch1 where "r = TakeItem v" "chan_take_from_buffer ch = Inr (Some v, ch1)" "chan_ok w ch1" "view w ch1 = y"
      "set (takers ch1 @ putters ch1) \<subseteq> set (takers ch @ putters ch)"
  | (Putter) q ch1 where "chan_take_from_buffer ch = Inr (None, ch)" "r = TakeFrom q (put_val (ents w q))"
      "ready env w q" "q \<in> set (takers ch @ putters ch)"
      "chan_take_from_putter_claim env w ch
         = Some (Inr (Some (put_val (ents w q), claim_fiber env w q, want_of (ents w q)), claim_effect env NULL q w, ch1))"
      "chan_ok (claim_effect env NULL q w) ch1" "view (claim_effect env NULL q w) ch1 = y"
      "set (takers ch1 @ putters ch1) \<subseteq> set (takers ch @ putters ch)"
  | (Closed) ch1 where "chan_take_from_buffer ch = Inr (None, ch)" "r = TakeClosed" "closed ch1"
      "chan_take_from_putter_claim env w ch = Some (Inr (None, w, ch1))" "chan_ok w ch1" "view w ch1 = y"
      "set (takers ch1 @ putters ch1) \<subseteq> set (takers ch @ putters ch)"
  | (Empty) ch1 where "chan_take_from_buffer ch = Inr (None, ch)" "r = TakeParks" "\<not> closed ch1"
      "chan_take_from_putter_claim env w ch = Some (Inr (None, w, ch1))" "chan_ok w ch1" "view w ch1 = view w ch"
      "y = (view w ch)\<lparr>vtakers := vtakers (view w ch) @ [(n, None, ())]\<rparr>"
      "set (takers ch1 @ putters ch1) \<subseteq> set (takers ch @ putters ch)"
proof (cases "items (view w ch)")
  case (Cons v vs)
  obtain ch1 where c1: "chan_take_from_buffer ch = Inr (Some v, ch1)" "chan_ok w ch1"
    "view w ch1 = (view w ch)\<lparr>items := vs\<rparr>"
    "set (takers ch1 @ putters ch1) \<subseteq> set (takers ch @ putters ch)"
    by (rule take_buffer_view [OF assms(1) Cons])
  have "r = TakeItem v" "view w ch1 = y" using assms(3) Cons c1(3) by (simp_all add: spec_take_def)
  with Item c1 show thesis by blast
next
  case empty: Nil
  note c1 = take_buffer_empty [OF empty]
  show thesis
  proof (cases "vputters (view w ch)")
    case (Cons t ts)
    obtain q g u where t: "t = (q, g, u)" by (cases t)
    note rd = view_ready(2) [OF assms(2) Cons [unfolded t]]
    obtain ch1 where c2: "chan_take_from_putter_claim env w ch
        = Some (Inr (Some (put_val (ents w q), claim_fiber env w q, want_of (ents w q)), claim_effect env NULL q w, ch1))"
      "chan_ok (claim_effect env NULL q w) ch1" "view (claim_effect env NULL q w) ch1
         = (view w ch)\<lparr>vtakers := ungroup g (vtakers (view w ch)), vputters := ungroup g ts\<rparr>"
      "set (takers ch1 @ putters ch1) \<subseteq> set (takers ch @ putters ch)"
      using claim_putter_some [OF assms(1) Cons [unfolded t]] rd by blast
    have "r = TakeFrom q (put_val (ents w q))" "view (claim_effect env NULL q w) ch1 = y"
      using assms(3) empty Cons t rd c2(3) by (simp_all add: spec_take_def)
    with Putter c1 rd view_head(2) [OF Cons [unfolded t]] c2 show thesis by blast
  next
    case Nil
    obtain ch1 where c2: "chan_take_from_putter_claim env w ch = Some (Inr (None, w, ch1))"
      "chan_ok w ch1" "view w ch1 = view w ch" "set (takers ch1 @ putters ch1) \<subseteq> set (takers ch @ putters ch)"
      using claim_putter_none [OF assms(1) Nil] by blast
    have cl: "closed ch1 = vclosed (view w ch)" using c2(3) view_simps(5) [of w ch1] by simp
    show thesis
    proof (cases "vclosed (view w ch)")
      case True
      then have "r = TakeClosed" "view w ch1 = y" using assms(3) empty Nil c2(3) by (simp_all add: spec_take_def)
      with Closed c1 c2 cl True show thesis by blast
    next
      case False
      then have "r = TakeParks" "y = (view w ch)\<lparr>vtakers := vtakers (view w ch) @ [(n, None, ())]\<rparr>"
        using assms(3) empty Nil by (simp_all add: spec_take_def)
      with Empty c1 c2 cl False show thesis by blast
    qed
  qed
qed

text \<open>C11:
  \<open>goc_take\<close> called by a fiber is exactly the take of the specification: the oldest
  stored value, else the value of the oldest live putter (who is woken with success and posted
  once), else closed, else parked; the invariant is kept.
\<close>

theorem take_refines:
  assumes "chan_ok w ch" "all_ready env w ch" "user_data env c < next_ent w"
    and "spec_take (next_ent w) (view w ch) = (r, y)"
  shows "\<exists>w' ch'. goc_take env (Some c) worker w ch = Some (Inr (take_outcome (next_ent w) r, w', ch'))
      \<and> chan_ok w' ch' \<and> view w' ch' = y \<and> (\<forall>q v. r = TakeFrom q v \<longrightarrow> handed env w w' q NULL)"
proof -
  obtain w0 ch0 where k: "compact_if_due w ch = (w0, ch0)" "chan_ok w0 ch0" "view w0 ch0 = view w ch"
    "all_ready env w0 ch0" "ents w0 = ents w" "next_ent w0 = next_ent w" "flags w0 = flags w"
    "set (takers ch0 @ putters ch0) \<subseteq> set (takers ch @ putters ch)"
    "handed env w0 = handed env w" "posts w0 = posts w"
    by (rule compact_prep [OF assms(1,2)])
  have "spec_take (next_ent w0) (view w0 ch0) = (r, y)" using assms(4) k by simp
  from k(2,4) this show ?thesis
  proof (cases rule: take_claim_cases)
    case (Item v ch1)
    then show ?thesis by (simp add: goc_take_def k(1) take_outcome_def)
  next
    case (Putter q ch1)
    obtain w2 where w2: "wait_and env (claim_fiber env w0 q, want_of (ents w0 q)) post_to_run_queue_of
        (claim_effect env NULL q w0) = Some (Inr w2)" "handed env w0 w2 q NULL"
      "agree (claim_effect env NULL q w0) w2 (set (takers ch1 @ putters ch1))"
      using wait_and_queue_ok [OF Putter(3)] by blast
    with agree_view [OF w2(3)] Putter show ?thesis
      by (simp add: goc_take_def k(1) take_outcome_def k(9) [symmetric])
  next
    case (Closed ch1)
    then show ?thesis by (simp add: goc_take_def k(1) take_outcome_def)
  next
    case (Empty ch1)
    have ud0: "user_data env c < next_ent w0" using assms(3) k(6) by simp
    let ?e = "entry_zero\<lparr>result_slot := LocalSlot (next_ent w0)\<rparr>"
    obtain w2 where w2: "park_fiber env c worker ?e w0 = (next_ent w0, w2)"
      "parks w0 (fiber_entry env c worker ?e w0) w2"
      by (rule park_fiber_parks [OF ud0 zero_slot])
    from park_taker [OF Empty(5) w2(2)] Empty w2(1) show ?thesis
      by (simp add: goc_take_def k(1) take_outcome_def k(6) [symmetric])
  qed
qed

text \<open>\<open>goc_take_sync\<close> and \<open>goc_take_try\<close> differ only in what they do when nothing is there.\<close>

lemma take_fast:
  assumes "chan_ok w ch" "all_ready env w ch" "spec_take n (view w ch) = (r, y)" "r \<noteq> TakeParks"
  shows "\<exists>w' ch'. goc_take_try env w ch = Some (Inr (take_outcome n r, w', ch'))
      \<and> goc_take_sync env None w ch = Some (Inr (take_outcome n r, w', ch'))
      \<and> chan_ok w' ch' \<and> view w' ch' = y \<and> (\<forall>q v. r = TakeFrom q v \<longrightarrow> handed env w w' q NULL)
      \<and> all_ready env w' ch' \<and> next_ent w' = next_ent w"
proof (cases "items (view w ch)")
  case (Cons v vs)
  obtain ch1 where c1: "chan_take_from_buffer ch = Inr (Some v, ch1)" "chan_ok w ch1"
    "view w ch1 = (view w ch)\<lparr>items := vs\<rparr>"
    "set (takers ch1 @ putters ch1) \<subseteq> set (takers ch @ putters ch)"
    by (rule take_buffer_view [OF assms(1) Cons])
  have "r = TakeItem v" "y = view w ch1" using assms(3) Cons c1(3) by (simp_all add: spec_take_def)
  with c1 all_ready_sub [OF assms(2) c1(4)] show ?thesis
    by (simp add: goc_take_try_def goc_take_sync_def take_outcome_def)
next
  case empty: Nil
  note c1 = take_buffer_empty [OF empty]
  show ?thesis
  proof (cases "vputters (view w ch)")
    case (Cons t ts)
    obtain p g u where t: "t = (p, g, u)" by (cases t)
    note rd = view_ready(2) [OF assms(2) Cons [unfolded t]]
    obtain ch1 where c2: "chan_take_from_putter env w ch
        = Some (Inr (Some (put_val (ents w p)), dispatched env p NULL (delivered p NULL w), ch1))"
      "chan_ok (dispatched env p NULL (delivered p NULL w)) ch1"
      "view (dispatched env p NULL (delivered p NULL w)) ch1
         = (view w ch)\<lparr>vtakers := ungroup g (vtakers (view w ch)), vputters := ungroup g ts\<rparr>"
      "set (takers ch1 @ putters ch1) \<subseteq> set (takers ch @ putters ch)"
      using fetch_putter_some [OF assms(1) Cons [unfolded t]] rd by blast
    have "r = TakeFrom p (put_val (ents w p))" "y = view (dispatched env p NULL (delivered p NULL w)) ch1"
      using assms(3) empty Cons t rd c2(3) by (simp_all add: spec_take_def)
    with c2(2) handed_dispatched [of env w p NULL] all_ready_claims [OF assms(2) claims_dispatched c2(4)]
      claims_next [OF claims_dispatched]
    show ?thesis
      by (simp add: goc_take_try_def goc_take_sync_def c1 c2(1) take_outcome_def)
  next
    case Nil
    obtain ch1 where c2: "chan_take_from_putter env w ch = Some (Inr (None, w, ch1))"
      "chan_ok w ch1" "view w ch1 = view w ch"
      "set (takers ch1 @ putters ch1) \<subseteq> set (takers ch @ putters ch)"
      using fetch_putter_none [OF assms(1) Nil] by blast
    have cl: "closed ch1 = closed ch" using c2(3) view_simps(5) [of w] by metis
    have "closed ch" "r = TakeClosed" "y = view w ch1"
      using assms(3,4) empty Nil c2(3) by (auto simp: spec_take_def split: if_splits)
    with c2(2) cl all_ready_sub [OF assms(2) c2(4)] show ?thesis
      by (simp add: goc_take_try_def goc_take_sync_def c1 c2(1) take_outcome_def)
  qed
qed

lemma take_slow:
  assumes "chan_ok w ch" "spec_take n (view w ch) = (TakeParks, y)"
  obtains ch1 where "chan_take_from_buffer ch = Inr (None, ch)"
    "chan_take_from_putter env w ch = Some (Inr (None, w, ch1))" "\<not> closed ch1" "chan_ok w ch1"
    "view w ch1 = view w ch" "y = (view w ch)\<lparr>vtakers := vtakers (view w ch) @ [(n, None, ())]\<rparr>"
    "set (takers ch1 @ putters ch1) \<subseteq> set (takers ch @ putters ch)"
proof -
  have e: "items (view w ch) = []" "vputters (view w ch) = []" "\<not> vclosed (view w ch)"
    "y = (view w ch)\<lparr>vtakers := vtakers (view w ch) @ [(n, None, ())]\<rparr>"
    using assms(2) unfolding spec_take_def by (auto split: list.splits if_splits)
  obtain ch1 where c2: "chan_take_from_putter env w ch = Some (Inr (None, w, ch1))"
    "chan_ok w ch1" "view w ch1 = view w ch"
    "set (takers ch1 @ putters ch1) \<subseteq> set (takers ch @ putters ch)"
    using fetch_putter_none [OF assms(1) e(2)] by blast
  moreover have "\<not> closed ch1" using c2(3) e(3) view_simps(5) [of w ch1] by simp
  ultimately show thesis using that take_buffer_empty [OF e(1)] e(4) by blast
qed

lemma take_try_refines:
  assumes "chan_ok w ch" "all_ready env w ch" "spec_take_try (view w ch) = (r, y)"
  shows "\<exists>w' ch'. goc_take_try env w ch = Some (Inr (try_outcome r, w', ch'))
      \<and> chan_ok w' ch' \<and> view w' ch' = y \<and> (\<forall>q v. r = TakeFrom q v \<longrightarrow> handed env w w' q NULL)
      \<and> all_ready env w' ch' \<and> next_ent w' = next_ent w"
proof -
  obtain z where z: "spec_take 0 (view w ch) = (r, z)" "y = (if r = TakeParks then view w ch else z)"
    using assms(3) by (auto simp: spec_take_try_def split: prod.splits)
  show ?thesis
  proof (cases "r = TakeParks")
    case True
    obtain ch1 where c: "chan_take_from_buffer ch = Inr (None, ch)"
      "chan_take_from_putter env w ch = Some (Inr (None, w, ch1))" "\<not> closed ch1" "chan_ok w ch1"
      "view w ch1 = view w ch" "z = (view w ch)\<lparr>vtakers := vtakers (view w ch) @ [(0, None, ())]\<rparr>"
      "set (takers ch1 @ putters ch1) \<subseteq> set (takers ch @ putters ch)"
      by (rule take_slow [OF assms(1) z(1) [unfolded True]])
    with True z(2) all_ready_sub [OF assms(2) c(7)] show ?thesis by (simp add: goc_take_try_def try_outcome_def)
  next
    case False
    with take_fast [OF assms(1,2) z(1) False] z(2) show ?thesis by (auto simp: try_outcome_def)
  qed
qed

lemma take_sync_refines:
  assumes "chan_ok w ch" "all_ready env w ch" "spec_take (next_ent w) (view w ch) = (r, y)"
  shows "\<exists>w' ch'. goc_take_sync env None w ch = Some (Inr (take_outcome (next_ent w) r, w', ch'))
      \<and> chan_ok w' ch' \<and> view w' ch' = y \<and> (\<forall>q v. r = TakeFrom q v \<longrightarrow> handed env w w' q NULL)
      \<and> all_ready env w' ch' \<and> next_ent w' = (if r = TakeParks then Suc (next_ent w) else next_ent w)"
proof (cases "r = TakeParks")
  case True
  obtain ch1 where c: "chan_take_from_buffer ch = Inr (None, ch)"
    "chan_take_from_putter env w ch = Some (Inr (None, w, ch1))" "\<not> closed ch1" "chan_ok w ch1"
    "view w ch1 = view w ch" "y = (view w ch)\<lparr>vtakers := vtakers (view w ch) @ [(next_ent w, None, ())]\<rparr>"
    "set (takers ch1 @ putters ch1) \<subseteq> set (takers ch @ putters ch)"
    by (rule take_slow [OF assms(1) assms(3) [unfolded True]])
  obtain w2 where w2: "park_sync (entry_zero\<lparr>result_slot := OwnResult\<rparr>) w = (next_ent w, w2)"
    "parks w (sync_entry (next_ent w) (entry_zero\<lparr>result_slot := OwnResult\<rparr>)) w2"
    by (rule park_sync_parks [OF zero_slot])
  have "all_ready env w2 (append_taker (next_ent w) ch1)"
    using append_taker_set [OF c(4)]
    by (intro all_ready_parks [OF all_ready_sub [OF assms(2) c(7)] c(4) w2(2)]) (simp_all add: sync_entry_def)
  moreover have "next_ent w2 = Suc (next_ent w)" using w2(2) by (simp add: parks_def)
  ultimately show ?thesis using True c park_taker [OF c(4) w2(2)]
    by (simp add: goc_take_sync_def w2(1) take_outcome_def)
next
  case False
  with take_fast [OF assms False] show ?thesis by auto
qed

section \<open>The loop thread's half of the callback operations\<close>

lemma agree_trans: "\<lbrakk>agree w w1 A; agree w1 w2 A\<rbrakk> \<Longrightarrow> agree w w2 A"
  unfolding agree_def by auto

lemma agree_upd:
  assumes "\<And>e. cancelled (f e) = cancelled e \<and> woken (f e) = woken e \<and> fired (f e) = fired e \<and> put_val (f e) = put_val e"
  shows "agree w (upd_ent p f w) A"
  using assms by (auto simp: agree_def)

lemma agree_finish: "\<lbrakk>p \<notin> A; p < next_ent w\<rbrakk> \<Longrightarrow> agree w (finish_entry p f v st w) A"
  by (auto simp: agree_def finish_entry_def Let_def log_post_def world_ok_def split: option.splits)

text \<open>The entry of a callback operation that the loop thread is about to process.\<close>

definition pending :: "goc_env \<Rightarrow> goc_world \<Rightarrow> goc_chan \<Rightarrow> nat \<Rightarrow> bool" where
  "pending env w ch p = (kind (ents w p) = GOC_CALLBACK \<and> fired (ents w p) = None \<and> claimable w p \<and>
     entry_ok w p \<and> p \<notin> set (takers ch @ putters ch) \<and> (\<forall>c. user_data env c \<noteq> p))"

text \<open>How a resolved callback operation ends: nothing but the waking of the partner (if any)
  happens before the user's callback is called with the status and the entry is freed.\<close>

definition resolved ::
  "goc_env \<Rightarrow> goc_world \<Rightarrow> nat \<Rightarrow> nat option \<Rightarrow> ptr \<Rightarrow> goc_status \<Rightarrow> (nat \<times> ptr) option \<Rightarrow> goc_world \<Rightarrow> bool" where
  "resolved env w p f v st partner w' =
     (\<exists>w2. w' = finish_entry p f v st w2 \<and> ok (ents w2 p) = st \<and> ud (ents w2 p) = ud (ents w p) \<and>
        free_on_drain (ents w2 p) = free_on_drain (ents w p) \<and>
        (case partner of None \<Rightarrow> posts w2 = posts w | Some (q, x) \<Rightarrow> handed env w w2 q x))"

lemma resolvedI:
  assumes "ok (ents w2 p) = st" "ud (ents w2 p) = ud (ents w p)"
    "free_on_drain (ents w2 p) = free_on_drain (ents w p)"
    "case partner of None \<Rightarrow> posts w2 = posts w | Some (q, x) \<Rightarrow> handed env w w2 q x"
  shows "resolved env w p f v st partner (finish_entry p f v st w2)"
  unfolding resolved_def using assms by blast

lemma handed_upd:
  "\<lbrakk>q \<noteq> p\<rbrakk> \<Longrightarrow> handed env w (upd_ent p f w') q v = handed env w w' q v"
  by (auto simp: handed_def upd_ent_def split: slot_ref.splits goc_entry_kind.splits)

lemma handed_cong:
  "\<lbrakk>ents w0 q = ents w q; posts w0 = posts w\<rbrakk> \<Longrightarrow> handed env w0 w1 q v = handed env w w1 q v"
  by (simp only: handed_def)

lemma pending_prep:
  assumes "chan_ok w ch" "all_ready env w ch" "pending env w ch p"
  obtains w0 ch0 where "compact_if_due (upd_ent p (\<lambda>e. e\<lparr>pend_ch := False\<rparr>) w) ch = (w0, ch0)"
    "chan_ok w0 ch0" "view w0 ch0 = view w ch" "all_ready env w0 ch0"
    "ents w0 = (ents w)(p := (ents w p)\<lparr>pend_ch := False\<rparr>)" "posts w0 = posts w" "pending env w0 ch0 p"
    "next_ent w0 = next_ent w"
proof -
  let ?w = "upd_ent p (\<lambda>e. e\<lparr>pend_ch := False\<rparr>) w"
  have ag: "agree w ?w A" for A by (rule agree_upd) simp
  have cl: "claimable ?w = claimable w" and rd: "ready env ?w = ready env w"
    by (intro ext; simp add: claimable_def ready_def want_of_def split: option.splits)+
  have "all_ready env ?w ch" using assms(2) by (simp add: all_ready_def cl rd)
  then obtain w0 ch0 where k: "compact_if_due ?w ch = (w0, ch0)" "chan_ok w0 ch0"
    "view w0 ch0 = view ?w ch" "all_ready env w0 ch0" "ents w0 = ents ?w" "next_ent w0 = next_ent ?w"
    "flags w0 = flags ?w" "set (takers ch0 @ putters ch0) \<subseteq> set (takers ch @ putters ch)"
    "handed env w0 = handed env ?w" "posts w0 = posts ?w"
    using compact_prep agree_view(2) [OF ag assms(1)] by metis
  have fr: "p \<notin> set (freed w0)"
  proof (cases "GOC_DEAD_COUNT_THRESHOLD \<le> dead_count ch")
    case True
    then have "set (freed w0) \<subseteq> set (freed w) \<union> set (takers ch @ putters ch)"
      using k(1) by (auto simp: compact_if_due_def compact_dead_entries_def Let_def compact_freed_def)
    then show ?thesis using assms(3) by (auto simp: pending_def entry_ok_def)
  next
    case False
    then have "w0 = ?w" using k(1) by (simp add: compact_if_due_def)
    then show ?thesis using assms(3) by (simp add: pending_def entry_ok_def)
  qed
  have "claimable w0 p" "flag_ok w0 p"
    using assms(3) k(5,7) unfolding pending_def claimable_def entry_ok_def flag_ok_def by auto
  then have pd: "pending env w0 ch0 p"
    using assms(3) fr k(5,6,8) by (auto simp: pending_def entry_ok_def)
  have vw: "view w0 ch0 = view w ch" using k(3) agree_view(1) [OF ag] by simp
  have ps: "posts w0 = posts w" using k(10) by (simp add: upd_ent_def)
  show thesis
    using that [OF k(1,2) vw k(4) _ ps pd] k(5,6) by simp
qed

lemma agree_into:
  assumes "agree w w' (set (takers ch @ putters ch))" "chan_ok w ch" "view w ch = y"
  shows "chan_ok w' ch \<and> view w' ch = y"
  using agree_view [OF assms(1)] assms(2,3) by simp

lemma claimed_entry_kept:
  "\<lbrakk>q \<noteq> p\<rbrakk> \<Longrightarrow> ents (dispatched env q v (delivered q v w)) p = ents w p"
  using claims_dispatched [of q w env v] by (simp add: claims_def)

lemma finish_ok:
  assumes "pending env w0 ch0 p" "next_ent w2 = next_ent w0" "chan_ok w2 ch2"
    "set (takers ch2 @ putters ch2) \<subseteq> set (takers ch0 @ putters ch0)"
    "\<And>e. cancelled (g e) = cancelled e \<and> woken (g e) = woken e \<and> fired (g e) = fired e \<and> put_val (g e) = put_val e"
  shows "chan_ok (finish_entry p f v st (upd_ent p g w2)) ch2
    \<and> view (finish_entry p f v st (upd_ent p g w2)) ch2 = view w2 ch2"
proof (rule agree_into [OF _ assms(3) refl])
  have "p \<notin> set (takers ch2 @ putters ch2)" "p < next_ent (upd_ent p g w2)"
    using assms(1,2,4) by (auto simp: pending_def entry_ok_def)
  from agree_finish [OF this] agree_upd [OF assms(5)]
  show "agree w2 (finish_entry p f v st (upd_ent p g w2)) (set (takers ch2 @ putters ch2))"
    by (rule agree_trans [rotated])
qed


text \<open>
  The loop thread's half of \<open>goc_take_cb\<close> makes the same transition as \<open>goc_take\<close>:
  it parks the entry, or resolves it by calling the user's callback once with the value taken (or
  NULL when the channel is closed) and the right status.
\<close>

theorem pending_take_refines:
  assumes "chan_ok w ch" "all_ready env w ch" "pending env w ch p"
    and "spec_take p (view w ch) = (r, y)"
  shows "\<exists>w' ch'. loop_process_pending_take env p w ch = Some (Inr (w', ch')) \<and> chan_ok w' ch' \<and> view w' ch' = y
      \<and> (if r = TakeParks then posts w' = posts w
         else resolved env w p (cb (ents w p)) (case r of TakeItem v \<Rightarrow> v | TakeFrom q v \<Rightarrow> v | _ \<Rightarrow> NULL)
                (if r = TakeClosed then GOC_CLOSED else GOC_OK)
                (case r of TakeFrom q v \<Rightarrow> Some (q, NULL) | _ \<Rightarrow> None) w')"
proof -
  obtain w0 ch0 where k: "compact_if_due (upd_ent p (\<lambda>e. e\<lparr>pend_ch := False\<rparr>) w) ch = (w0, ch0)"
    "chan_ok w0 ch0" "view w0 ch0 = view w ch" "all_ready env w0 ch0"
    "ents w0 = (ents w)(p := (ents w p)\<lparr>pend_ch := False\<rparr>)" "posts w0 = posts w" "pending env w0 ch0 p"
    "next_ent w0 = next_ent w"
    by (rule pending_prep [OF assms(1,2,3)])
  have hd: "handed env w0 w1 q x = handed env w w1 q x" if "q \<noteq> p" for q w1 x
    using that by (intro handed_cong) (simp_all add: k(5,6))
  let ?f = "cb (ents w p)"
  have e0: "cb (ents w0 p) = ?f" "ud (ents w0 p) = ud (ents w p)"
    "free_on_drain (ents w0 p) = free_on_drain (ents w p)"
    by (simp_all add: k(5))
  have sp: "spec_take p (view w0 ch0) = (r, y)" using assms(4) k by simp
  have rs: "resolved env w p ?f v st None (finish_entry p ?f v st (upd_ent p g w0))"
    if "ok (g (ents w0 p)) = st" "ud (g (ents w0 p)) = ud (ents w0 p)"
      "free_on_drain (g (ents w0 p)) = free_on_drain (ents w0 p)" for v st g
    using that by (intro resolvedI) (simp_all add: e0 k(6) upd_ent_def)
  from k(2,4) sp show ?thesis
  proof (cases rule: take_claim_cases)
    case (Item v ch1)
    then show ?thesis using finish_ok [OF k(7) refl Item(3,5)]
      by (auto simp: loop_process_pending_take_def k(1) e0 intro!: rs)
  next
    case (Putter q ch1)
    have qp: "q \<noteq> p" and fe: "user_data env (coro (ents w0 q)) \<noteq> p"
      using Putter(4) k(7) by (auto simp: pending_def)
    let ?v = "put_val (ents w0 q)" and ?w1 = "dispatched env q NULL (delivered q NULL w0)"
    have "resolved env w p ?f ?v GOC_OK (Some (q, NULL))
        (finish_entry p ?f ?v GOC_OK (upd_ent p (\<lambda>e. e\<lparr>cb_result := ?v, ok := GOC_OK\<rparr>) ?w1))"
      using handed_dispatched [of env w0 q NULL]
      by (intro resolvedI) (simp_all add: claimed_entry_kept [OF qp] e0 hd [OF qp] handed_upd [OF qp])
    then show ?thesis using Putter claim_effect_dispatched(1) [of env q NULL w0 ch1]
        finish_ok [OF k(7) claims_next [OF claims_dispatched] claim_effect_dispatched(2) [OF Putter(6)] Putter(8)]
      by (simp add: loop_process_pending_take_def k(1) e0 spin_and_post_ok [OF Putter(3) fe])
  next
    case (Closed ch1)
    then show ?thesis using finish_ok [OF k(7) refl Closed(5,7)]
      by (auto simp: loop_process_pending_take_def k(1) e0 intro!: rs)
  next
    case (Empty ch1)
    have np: "p \<notin> set (takers ch1 @ putters ch1)" using k(7) Empty(8) by (auto simp: pending_def)
    have pe: "claimable w0 p" "entry_ok w0 p" "fired (ents w0 p) = None" using k(7) by (simp_all add: pending_def)
    show ?thesis using Empty append_taker_ok [OF Empty(5) np pe(1,2)]
      by (simp add: loop_process_pending_take_def k(1,6) e0 pe(3))
  qed
qed

section \<open>A channel with one parked fiber\<close>

definition demo_env :: goc_env where
  "demo_env = \<lparr>user_data = \<lambda>c. 1, thread_count = \<lambda>_. 4, parked_loads = \<lambda>_ _. 4\<rparr>"

definition demo_world :: goc_world where
  "demo_world = \<lparr>ents = (\<lambda>_. entry_zero)(2 := entry_zero\<lparr>coro := 5, result_slot := LocalSlot 2,
       put_val := 9, parked_gen := 1\<rparr>, 3 := put_cb_entry 8 (Some 6) 0),
     next_ent = 4, flags = \<lambda>_. False, locals = \<lambda>_. 0, sems = \<lambda>_. False, posts = [], freed = []\<rparr>"

definition demo_taker :: goc_chan where
  "demo_taker = (goc_chan_make 3)\<lparr>takers := [2], takers_tail := Some 2\<rparr>"

definition demo_putter :: goc_chan where
  "demo_putter = (goc_chan_make 3)\<lparr>putters := [2], putters_tail := Some 2\<rparr>"

lemma demo_facts:
  "chan_ok demo_world demo_taker" "chan_ok demo_world demo_putter"
  "all_ready demo_env demo_world demo_taker" "all_ready demo_env demo_world demo_putter"
  "user_data demo_env 5 < next_ent demo_world"
  "pending demo_env demo_world demo_taker 3" "pending demo_env demo_world demo_putter 3"
proof -
  have "settles (\<lambda>_. 4 :: 64 word) 4" by (auto simp: settles_def intro: exI [of _ 1])
  then show "all_ready demo_env demo_world demo_taker" "all_ready demo_env demo_world demo_putter"
    by (simp_all add: all_ready_def demo_env_def demo_world_def demo_taker_def demo_putter_def
        goc_chan_make_def ready_def want_of_def)
qed (simp_all add: demo_env_def demo_world_def demo_taker_def demo_putter_def goc_chan_make_def
      chan_ok_def world_ok_def ring_ok_def slots_eq tail_ok_def entry_ok_def flag_ok_def pending_def
      claimable_def put_cb_entry_def entry_zero_def)

lemma demo_spec:
  "spec_put 4 7 (view demo_world demo_taker) = (PutTo 2, (view demo_world demo_taker)\<lparr>vtakers := []\<rparr>)"
  "spec_put 3 8 (view demo_world demo_taker) = (PutTo 2, (view demo_world demo_taker)\<lparr>vtakers := []\<rparr>)"
  "spec_take 4 (view demo_world demo_putter) = (TakeFrom 2 9, (view demo_world demo_putter)\<lparr>vputters := []\<rparr>)"
  "spec_take 3 (view demo_world demo_putter) = (TakeFrom 2 9, (view demo_world demo_putter)\<lparr>vputters := []\<rparr>)"
  by (simp_all add: spec_put_def spec_take_def view_def waiters_def demo_world_def demo_taker_def
      demo_putter_def goc_chan_make_def claimable_def entry_zero_def ungroup_def ring_list_def)

theorem put_refines_witness:
  "\<exists>w' ch'. goc_put demo_env (Some 5) (Some 1) 7 demo_world demo_taker
      = Some (Inr (Now 0 GOC_OK, w', ch')) \<and> chan_ok w' ch' \<and> handed demo_env demo_world w' 2 7"
proof -
  have "next_ent demo_world = 4" by (simp add: demo_world_def)
  with put_refines [OF demo_facts(1,3,5), of 7 "PutTo 2" _ "Some 1"] demo_spec(1)
  show ?thesis by (auto simp: put_outcome_def)
qed

theorem take_refines_witness:
  "\<exists>w' ch'. goc_take demo_env (Some 5) (Some 1) demo_world demo_putter
      = Some (Inr (Now 9 GOC_OK, w', ch')) \<and> chan_ok w' ch' \<and> handed demo_env demo_world w' 2 0"
proof -
  have "next_ent demo_world = 4" by (simp add: demo_world_def)
  with take_refines [OF demo_facts(2,4,5), of "TakeFrom 2 9" _ "Some 1"] demo_spec(3)
  show ?thesis by (auto simp: take_outcome_def)
qed


theorem pending_take_refines_witness:
  "\<exists>w' ch'. loop_process_pending_take demo_env 3 demo_world demo_putter = Some (Inr (w', ch')) \<and>
      resolved demo_env demo_world 3 None 9 GOC_OK (Some (2, 0)) w'"
proof -
  have "cb (ents demo_world 3) = None" by (simp add: demo_world_def put_cb_entry_def entry_zero_def)
  with pending_take_refines [OF demo_facts(2,4,7), of "TakeFrom 2 9"] demo_spec(4)
  show ?thesis by auto
qed

end
