(* ===== verification/Goc_Close.thy ===== *)
theory Goc_Close
  imports Goc_Chan_Refine
begin

text \<open>
  Closing a channel (\<open>goc_close_internal\<close>): which waiters it wakes and how, and that it implements
  the closing step of the specification.
\<close>

definition spec_close :: "chan_view \<Rightarrow> chan_view" where
  "spec_close x = x\<lparr>vtakers := [], vputters := [], vclosed := True, vguard := GOC_CHAN_CLOSING\<rparr>"

text \<open>The waiters the wake loop claims: of several arms of one select only the first.\<close>

fun winners :: "goc_world \<Rightarrow> nat list \<Rightarrow> nat list" where
  "winners w [] = []"
| "winners w (p # ps) = (if claimable w p then p # winners (claimed p w) ps else winners w ps)"

definition closed_ent :: "goc_entry \<Rightarrow> goc_entry \<Rightarrow> bool" where
  "closed_ent e e' = (woken e' \<and> ok e' = GOC_CLOSED \<and> cancelled e' = cancelled e \<and> kind e' = kind e \<and>
     fired e' = fired e \<and> coro e' = coro e \<and> put_val e' = put_val e \<and> sync_sem_ptr e' = sync_sem_ptr e \<and>
     result_slot e' = result_slot e \<and> free_on_drain e' = free_on_drain e \<and>
     parked_gen e' = parked_gen e \<and> pool e' = pool e \<and> home_worker_idx e' = home_worker_idx e)"

section \<open>The wake loop\<close>

definition cb_posts :: "goc_world \<Rightarrow> nat list \<Rightarrow> post list" where
  "cb_posts w ps = map PostCallback (filter (\<lambda>p. kind (ents w p) = GOC_CALLBACK \<and> fired (ents w p) = None) ps)"

definition fiber_waits :: "goc_env \<Rightarrow> goc_world \<Rightarrow> nat list \<Rightarrow> (nat \<times> 64 word) list" where
  "fiber_waits env w ps = map (\<lambda>p. (user_data env (coro (ents w p)), want_of (ents w p)))
     (filter (\<lambda>p. kind (ents w p) = GOC_FIBER) ps)"

lemma fiber_waits_Cons:
  "fiber_waits env w (p # ps) = (if kind (ents w p) = GOC_FIBER
     then [(user_data env (coro (ents w p)), want_of (ents w p))] else []) @ fiber_waits env w ps"
  by (simp add: fiber_waits_def)

text \<open>One claimed waiter.\<close>

lemma close_wake_hit:
  assumes "claimable w p"
  obtains w' where "close_wake env p w = ((if kind (ents w p) = GOC_FIBER
        then Some (user_data env (coro (ents w p)), want_of (ents w p)) else None), w')"
    "closed_ent (ents w p) (ents w' p)" "\<forall>q. q \<noteq> p \<longrightarrow> ents w' q = ents w q"
    "flags w' = flags (claimed p w)" "next_ent w' = next_ent w" "freed w' = freed w"
    "posts w' = posts w @ cb_posts w [p]"
    "\<forall>s. sems w' s \<longleftrightarrow> sems w s \<or> kind (ents w p) = GOC_SYNC \<and> s = sync_sem_ptr (ents w p)"
proof -
  have c: "\<not> cancelled (ents w p)" "try_claim_wake p w = (True, claimed p w)"
    using assms by (simp_all add: claimable_def claim_hit)
  let ?w = "upd_ent p (\<lambda>e. e\<lparr>ok := GOC_CLOSED\<rparr>) (claimed p w)"
  have base: "ents ?w p = (ents w p)\<lparr>woken := True, ok := GOC_CLOSED\<rparr>" "posts ?w = posts w" "sems ?w = sems w"
    by (simp_all add: claimed_def upd_ent_def split: option.splits)
  have w: "want_of ((ents w p)\<lparr>woken := True, ok := GOC_CLOSED\<rparr>) = want_of (ents w p)"
    by (simp add: want_of_def)
  have fl: "flags (claimed p w) f" if "fired (ents w p) = Some f" for f
    using that by (simp add: claimed_def)
  show thesis
  proof (cases "kind (ents w p)")
    case GOC_FIBER
    then show thesis
      using that [of ?w] by (simp add: close_wake_def c base w closed_ent_def cb_posts_def)
  next
    case GOC_CALLBACK
    show thesis
    proof (cases "fired (ents w p)")
      case None
      then show thesis using GOC_CALLBACK that [of "POST_CALLBACK p NULL ?w"]
        by (simp add: close_wake_def c base closed_ent_def cb_posts_def POST_CALLBACK_def log_post_def
            upd_ent_def Let_def)
          (simp add: claimed_def upd_ent_def)
    next
      case (Some f)
      have "(flags (claimed p w))(f := True) = flags (claimed p w)" by (rule fun_upd_idem) (simp add: fl [OF Some])
      then have "?w\<lparr>flags := (flags ?w)(f := True)\<rparr> = ?w" by simp
      then show thesis using GOC_CALLBACK Some fl [OF Some] that [of ?w] base
        by (simp add: close_wake_def c closed_ent_def cb_posts_def Let_def)
    qed
  next
    case GOC_SYNC
    then show thesis
      using that [of "goc_sync_post (sync_sem_ptr (ents w p)) ?w"]
      by (auto simp: close_wake_def c base closed_ent_def cb_posts_def goc_sync_post_def)
  qed
qed

lemma close_wake_miss:
  "\<lbrakk>\<not> claimable w p; \<not> cancelled (ents w p); flag_ok w p\<rbrakk> \<Longrightarrow> close_wake env p w = (None, w)"
  by (simp add: close_wake_def claim_miss)

text \<open>Claimability does not look at the fields the loop changes otherwise.\<close>

lemma winners_cong:
  assumes "flags w' = flags w" "\<And>q. q \<in> set ps \<Longrightarrow> cancelled (ents w' q) = cancelled (ents w q) \<and>
      woken (ents w' q) = woken (ents w q) \<and> fired (ents w' q) = fired (ents w q)"
  shows "winners w' ps = winners w ps"
  using assms
proof (induction ps arbitrary: w w')
  case (Cons p ps)
  have "claimable w' p = claimable w p"
    using Cons.prems by (simp add: claimable_def split: option.splits)
  moreover have "flags (claimed p w') = flags (claimed p w)"
    using Cons.prems by (simp add: claimed_def split: option.splits)
  then have "winners (claimed p w') ps = winners (claimed p w) ps"
    using Cons.prems by (intro Cons.IH) auto
  moreover have "winners w' ps = winners w ps" using Cons.prems by (intro Cons.IH) auto
  ultimately show ?case by simp
qed simp

lemma winners_sub: "set (winners w ps) \<subseteq> set ps"
  by (induction w ps rule: winners.induct) auto

lemma winners_distinct: "distinct ps \<Longrightarrow> distinct (winners w ps)"
  using winners_sub by (induction w ps rule: winners.induct) auto

definition closes :: "nat list \<Rightarrow> goc_world \<Rightarrow> goc_world \<Rightarrow> bool" where
  "closes W w w' = ((\<forall>q. q \<notin> set W \<longrightarrow> ents w' q = ents w q) \<and>
     (\<forall>q \<in> set W. closed_ent (ents w q) (ents w' q)) \<and> next_ent w' = next_ent w \<and> freed w' = freed w \<and>
     (\<forall>f. flags w f \<longrightarrow> flags w' f) \<and>
     (\<forall>q \<in> set W. \<forall>f. fired (ents w q) = Some f \<longrightarrow> flags w' f) \<and>
     posts w' = posts w @ cb_posts w W \<and>
     (\<forall>s. sems w' s \<longleftrightarrow> sems w s \<or> (\<exists>q \<in> set W. kind (ents w q) = GOC_SYNC \<and> s = sync_sem_ptr (ents w q))))"

lemma flags_claimed: "flags w f \<Longrightarrow> flags (claimed p w) f"
  by (simp add: claimed_def split: option.splits)

lemma close_step_flag_ok:
  assumes "closed_ent (ents w p) (ents w' p)" "\<forall>q. q \<noteq> p \<longrightarrow> ents w' q = ents w q"
    "flags w' = flags (claimed p w)" "flag_ok w q"
  shows "flag_ok w' q"
proof (cases "q = p")
  case True
  then show ?thesis using assms
    by (auto simp: flag_ok_def closed_ent_def claimed_def split: option.splits)
next
  case False
  then show ?thesis using assms flags_claimed [of w _ p] by (auto simp: flag_ok_def split: option.splits)
qed

lemma closes_Cons:
  assumes h: "closed_ent (ents w p) (ents w1 p)" "\<forall>q. q \<noteq> p \<longrightarrow> ents w1 q = ents w q"
    "flags w1 = flags (claimed p w)" "next_ent w1 = next_ent w" "freed w1 = freed w"
    "posts w1 = posts w @ cb_posts w [p]"
    "\<forall>s. sems w1 s \<longleftrightarrow> sems w s \<or> kind (ents w p) = GOC_SYNC \<and> s = sync_sem_ptr (ents w p)"
    and r: "closes W w1 w2" and np: "p \<notin> set W"
  shows "closes (p # W) w w2"
proof -
  have e: "ents w1 q = ents w q" if "q \<in> set W" for q using that np h(2) by auto
  have cb: "cb_posts w1 W = cb_posts w W" unfolding cb_posts_def
    by (intro arg_cong [where f = "map PostCallback"] filter_cong refl) (simp add: e)
  have "posts w2 = posts w @ cb_posts w (p # W)"
    using r h(6) cb by (simp add: closes_def cb_posts_def)
  moreover have "\<forall>f. flags w f \<longrightarrow> flags w2 f" using r h(3) flags_claimed unfolding closes_def by metis
  moreover have "flags w2 f" if "fired (ents w p) = Some f" for f
    using r h(3) that by (simp add: closes_def claimed_def)
  ultimately show ?thesis
    using r h(1,2,4,5,7) e np unfolding closes_def by auto
qed

lemma close_wake_loop_ok:
  assumes "\<forall>p \<in> set ps. flag_ok w p" "distinct ps"
  shows "\<exists>c w'. close_wake_loop env ps w = (fiber_waits env w (winners w ps), c, w') \<and> closes (winners w ps) w w'"
  using assms
proof (induction ps arbitrary: w)
  case Nil
  show ?case by (intro exI [of _ False] exI [of _ w]) (simp add: fiber_waits_def closes_def cb_posts_def)
next
  case (Cons p ps)
  show ?case
  proof (cases "claimable w p")
    case False
    obtain c w' where ih: "close_wake_loop env ps w = (fiber_waits env w (winners w ps), c, w')"
      "closes (winners w ps) w w'"
      using Cons.IH [of w] Cons.prems by auto
    show ?thesis
    proof (cases "cancelled (ents w p)")
      case True
      with False ih show ?thesis by auto
    next
      case nc: False
      have "close_wake env p w = (None, w)" using False nc Cons.prems(1) by (simp add: close_wake_miss)
      with False nc ih show ?thesis by auto
    qed
  next
    case True
    then have nc: "\<not> cancelled (ents w p)" by (simp add: claimable_def)
    obtain w1 where h: "close_wake env p w = ((if kind (ents w p) = GOC_FIBER
        then Some (user_data env (coro (ents w p)), want_of (ents w p)) else None), w1)"
      "closed_ent (ents w p) (ents w1 p)" "\<forall>q. q \<noteq> p \<longrightarrow> ents w1 q = ents w q"
      "flags w1 = flags (claimed p w)" "next_ent w1 = next_ent w" "freed w1 = freed w"
      "posts w1 = posts w @ cb_posts w [p]"
      "\<forall>s. sems w1 s \<longleftrightarrow> sems w s \<or> kind (ents w p) = GOC_SYNC \<and> s = sync_sem_ptr (ents w p)"
      by (rule close_wake_hit [OF True])
    let ?W = "winners (claimed p w) ps"
    have np: "p \<notin> set ps" "p \<notin> set ?W" using Cons.prems(2) winners_sub by auto
    have ws: "winners w1 ps = ?W"
      using h(3,4) np(1) by (intro winners_cong) auto
    have "\<forall>q \<in> set ps. flag_ok w1 q" using close_step_flag_ok [OF h(2,3,4)] Cons.prems(1) by simp
    then obtain c w' where ih: "close_wake_loop env ps w1 = (fiber_waits env w1 ?W, c, w')" "closes ?W w1 w'"
      using Cons.IH [of w1] Cons.prems(2) ws by auto
    have fw: "fiber_waits env w1 ?W = fiber_waits env w ?W"
      unfolding fiber_waits_def using h(3) np(2) by (intro map_cong filter_cong) auto
    have "closes (p # ?W) w w'" by (rule closes_Cons [OF h(2-8) ih(2) np(2)])
    moreover have "close_wake_loop env (p # ps) w = (fiber_waits env w (p # ?W), c, w')"
      using nc by (simp add: h(1) ih(1) fw fiber_waits_Cons)
    ultimately show ?thesis using True by simp
  qed
qed

text \<open>The collected fibers are posted one by one, after the lock is released.\<close>

lemma close_post_loop_ok:
  assumes "\<forall>(fe, want) \<in> set fs. settles (parked_loads env fe) want"
  shows "\<exists>w' xs. close_post_loop env fs w = Some (Inr w') \<and> posts w' = posts w @ xs \<and>
      map post_target xs = map (\<lambda>(fe, want). Some fe) fs \<and>
      ents w' = ents w \<and> flags w' = flags w \<and> sems w' = sems w \<and> freed w' = freed w \<and>
      next_ent w' = next_ent w \<and> locals w' = locals w"
  using assms
proof (induction fs arbitrary: w)
  case (Cons f fs)
  obtain fe want where f: "f = (fe, want)" by (cases f)
  have s: "wait_for_fiber_suspended (parked_loads env fe) want 0 = Some (Inr True)"
    using Cons.prems f by (simp add: wait_settles)
  obtain x where x: "posts (post_fiber env fe w) = posts w @ [x]" "post_target x = Some fe"
    using post_fiber_posts(1) by blast
  obtain w' xs where "close_post_loop env fs (post_fiber env fe w) = Some (Inr w')"
    "posts w' = posts (post_fiber env fe w) @ xs" "map post_target xs = map (\<lambda>(fe, want). Some fe) fs"
    "ents w' = ents w" "flags w' = flags w" "sems w' = sems (post_fiber env fe w)" "freed w' = freed w"
    "next_ent w' = next_ent w" "locals w' = locals w"
    using Cons.IH [of "post_fiber env fe w"] Cons.prems by (auto simp: post_fiber_posts(2))
  moreover have "sems (post_fiber env fe w) = sems w" by (simp add: post_fiber_def log_post_def Let_def)
  ultimately show ?case using x by (intro exI [of _ w'] exI [of _ "x # xs"]) (simp add: f s)
qed simp

section \<open>The whole close\<close>

text \<open>What a woken waiter of a closed channel sees.\<close>

definition told_closed :: "goc_env \<Rightarrow> goc_world \<Rightarrow> goc_world \<Rightarrow> nat \<Rightarrow> bool" where
  "told_closed env w w' p =
     (woken (ents w' p) \<and> ok (ents w' p) = GOC_CLOSED \<and>
      (case kind (ents w p) of
         GOC_FIBER \<Rightarrow> Some (user_data env (coro (ents w p))) \<in> post_target ` set (drop (length (posts w)) (posts w'))
       | GOC_CALLBACK \<Rightarrow> fired (ents w p) = None \<longrightarrow> PostCallback p \<in> set (drop (length (posts w)) (posts w'))
       | GOC_SYNC \<Rightarrow> sems w' (sync_sem_ptr (ents w p))))"

definition on_close_posts :: "goc_chan \<Rightarrow> post list" where
  "on_close_posts ch = Unregistered # (case on_close ch of None \<Rightarrow> [] | Some (f, u) \<Rightarrow> [CallOnClose f u])"

lemma winners_ready:
  assumes "all_ready env w ch"
  shows "\<forall>(fe, want) \<in> set (fiber_waits env w (winners w (takers ch @ putters ch))). settles (parked_loads env fe) want"
proof -
  have sub: "set (winners w ps) \<subseteq> set (filter (claimable w) ps)" for ps
  proof (induction w ps rule: winners.induct)
    case (2 w p ps)
    have "claimable w q" if "claimable (claimed p w) q" for q
      using that by (auto simp: claimable_def claimed_def upd_ent_def split: option.splits if_splits)
    with 2 show ?case by auto
  qed simp
  have "ready env w p" if "p \<in> set (winners w (takers ch @ putters ch))" for p
    using assms sub [of "takers ch @ putters ch"] that unfolding all_ready_def by auto
  then show ?thesis by (auto simp: fiber_waits_def ready_def)
qed

lemma close_refines:
  assumes "chan_ok w ch" "all_ready env w ch" "close_guard ch \<noteq> GOC_CHAN_CLOSING"
  shows "\<exists>w' ch' xs. goc_close_internal env w ch = Some (Inr (w', ch')) \<and> chan_ok w' ch' \<and>
      view w' ch' = spec_close (view w ch) \<and> next_ent w' = next_ent w \<and> takers ch' = [] \<and> putters ch' = [] \<and>
      posts w' = posts w @ cb_posts w (winners w (takers ch @ putters ch)) @ xs @ on_close_posts ch \<and>
      map post_target xs = map (\<lambda>(fe, want). Some fe) (fiber_waits env w (winners w (takers ch @ putters ch))) \<and>
      (\<forall>p \<in> set (winners w (takers ch @ putters ch)). told_closed env w w' p)"
proof -
  let ?L = "takers ch @ putters ch" and ?ch0 = "ch\<lparr>close_guard := GOC_CHAN_CLOSING, closed := True\<rparr>"
  let ?W = "winners w ?L"
  have cc: "close_claim ch = Some (ch\<lparr>close_guard := GOC_CHAN_CLOSING\<rparr>)"
    using assms(3) by (simp add: close_claim_def split: goc_chan_close_state.splits)
  have ok: "\<forall>p \<in> set ?L. flag_ok w p" "distinct ?L" "\<forall>p \<in> set ?L. p < next_ent w" "world_ok w" "ring_ok ch"
    using assms(1) by (auto simp: chan_ok_def entry_ok_def)
  obtain c w1 where l: "close_wake_loop env ?L w = (fiber_waits env w ?W, c, w1)" "closes ?W w w1"
    using close_wake_loop_ok [OF ok(1,2)] by blast
  obtain w2 ch2 where c2: "(if c then compact_dead_entries w1 ?ch0 else (w1, ?ch0)) = (w2, ch2)" by fastforce
  have "set (freed w2) \<subseteq> set (freed w1) \<union> set ?L"
    using c2 by (auto simp: compact_dead_entries_def Let_def compact_freed_def split: if_splits)
  then have fr: "\<forall>p \<in> set (freed w2). p < next_ent w1"
    using l(2) ok(3,4) by (auto simp: closes_def world_ok_def)
  have w2: "ents w2 = ents w1" "posts w2 = posts w1" "sems w2 = sems w1" "next_ent w2 = next_ent w1"
    and ch2: "close_clear ch2 = close_clear ?ch0" "on_close (close_clear ?ch0) = on_close ch"
    using c2 by (auto simp: compact_dead_entries_def Let_def close_clear_def split: if_splits)
  obtain w3 xs where p: "close_post_loop env (fiber_waits env w ?W) w2 = Some (Inr w3)" "posts w3 = posts w2 @ xs"
    "map post_target xs = map (\<lambda>(fe, want). Some fe) (fiber_waits env w ?W)" "ents w3 = ents w2"
    "sems w3 = sems w2" "freed w3 = freed w2" "next_ent w3 = next_ent w2"
    using close_post_loop_ok [OF winners_ready [OF assms(2)], of w2] by blast
  define w4 where "w4 = (case on_close ch of None \<Rightarrow> log_post Unregistered w3
     | Some (f, u) \<Rightarrow> log_post (CallOnClose f u) (log_post Unregistered w3))"
  have w4: "posts w4 = posts w @ cb_posts w ?W @ xs @ on_close_posts ch" "ents w4 = ents w1"
    "sems w4 = sems w1" "freed w4 = freed w2" "next_ent w4 = next_ent w1"
    using l(2) p w2 by (simp_all add: w4_def closes_def log_post_def on_close_posts_def split: option.splits)
  have "goc_close_internal env w ch = Some (Inr (w4, close_clear ?ch0))"
    using p(1) c2 by (simp add: goc_close_internal_def cc l(1) ch2 w4_def Let_def)
  moreover have "chan_ok w4 (close_clear ?ch0)"
    using fr ok(5) w4 by (simp add: chan_ok_def close_clear_def world_ok_def)
  moreover have "view w4 (close_clear ?ch0) = spec_close (view w ch)"
    by (simp add: view_def spec_close_def close_clear_def)
  moreover have "told_closed env w w4 q" if q: "q \<in> set ?W" for q
  proof -
    have e: "closed_ent (ents w q) (ents w4 q)" using l(2) q w4(2) by (simp add: closes_def)
    have d: "drop (length (posts w)) (posts w4) = cb_posts w ?W @ xs @ on_close_posts ch" by (simp add: w4(1))
    have f: "Some (user_data env (coro (ents w q))) \<in> post_target ` set xs" if "kind (ents w q) = GOC_FIBER"
    proof -
      have "Some (user_data env (coro (ents w q))) \<in> set (map (\<lambda>(fe, want). Some fe) (fiber_waits env w ?W))"
        using q that by (force simp: fiber_waits_def)
      then show ?thesis unfolding p(3) [symmetric] by simp
    qed
    show ?thesis
      using e q f l(2) w4(3)
      by (auto simp: told_closed_def closed_ent_def d cb_posts_def closes_def split: goc_entry_kind.splits)
  qed
  moreover have "next_ent w4 = next_ent w" using w4(5) l(2) by (simp add: closes_def)
  moreover have "takers (close_clear ?ch0) = []" "putters (close_clear ?ch0) = []" by (simp_all add: close_clear_def)
  ultimately show ?thesis using w4(1) p(3) by blast
qed

text \<open>Without selects every live waiter is claimed.\<close>

lemma winners_plain:
  "\<lbrakk>\<forall>p \<in> set ps. fired (ents w p) = None; distinct ps\<rbrakk> \<Longrightarrow> winners w ps = filter (claimable w) ps"
proof (induction ps arbitrary: w)
  case (Cons p ps)
  have "winners (claimed p w) ps = filter (claimable (claimed p w)) ps"
    using Cons.prems by (intro Cons.IH) auto
  also have "\<dots> = filter (claimable w) ps"
    using Cons.prems by (intro filter_cong) (auto simp: claimable_def claimed_def upd_ent_def)
  finally show ?case using Cons.IH [of w] Cons.prems by simp
qed simp

text \<open>The arrays \<open>to_post\<close> and \<open>to_post_want\<close> hold all the fibers collected.\<close>

lemma close_wake_cancelled:
  "cancelled (ents (snd (close_wake env p w)) q) = cancelled (ents w q)"
  by (auto simp: close_wake_def try_claim_wake_def claim_woken_def POST_CALLBACK_def Let_def
      split: option.splits goc_entry_kind.splits if_splits)

lemma close_wake_loop_length:
  "length (fst (close_wake_loop env ps w)) \<le> length (filter (\<lambda>p. \<not> cancelled (ents w p)) ps)"
proof (induction ps arbitrary: w)
  case (Cons p ps)
  obtain r w1 where r: "close_wake env p w = (r, w1)" by fastforce
  then have "(\<lambda>q. \<not> cancelled (ents w1 q)) = (\<lambda>q. \<not> cancelled (ents w q))"
    using close_wake_cancelled [of env p w] by simp
  with Cons.IH [of w] Cons.IH [of w1] r show ?case
    by (auto split: prod.splits option.splits)
qed simp

end
