(* ===== verification/Goc_Chan_Run.thy ===== *)
theory Goc_Chan_Run
  imports Goc_Close
begin

text \<open>
  Sequences of operations on one channel by OS threads: they refine the specification, no value is
  lost or invented, and in which cases values come out in the order they were sent.
\<close>

section \<open>Sequences of operations\<close>

datatype chan_op = PutOp ptr | TakeOp | TryOp | CloseOp

fun chan_exec :: "goc_env \<Rightarrow> chan_op \<Rightarrow> goc_world \<times> goc_chan \<Rightarrow> (outcome \<times> goc_world \<times> goc_chan) out" where
  "chan_exec env (PutOp v) (w, ch) = goc_put_sync env None v w ch"
| "chan_exec env TakeOp (w, ch) = goc_take_sync env None w ch"
| "chan_exec env TryOp (w, ch) = goc_take_try env w ch"
| "chan_exec env CloseOp (w, ch) =
     obind (goc_close_internal env w ch) (\<lambda>(w1, ch1). Some (Inr (Now NULL GOC_CLOSED, w1, ch1)))"

text \<open>The specification with the number of the next entry.\<close>

fun chan_out :: "chan_op \<Rightarrow> nat \<times> chan_view \<Rightarrow> outcome" where
  "chan_out (PutOp v) (k, x) = put_outcome k (fst (spec_put k v x))"
| "chan_out TakeOp (k, x) = take_outcome k (fst (spec_take k x))"
| "chan_out TryOp (k, x) = try_outcome (fst (spec_take_try x))"
| "chan_out CloseOp (k, x) = Now NULL GOC_CLOSED"

fun chan_next :: "chan_op \<Rightarrow> nat \<times> chan_view \<Rightarrow> nat \<times> chan_view" where
  "chan_next (PutOp v) (k, x) = (case spec_put k v x of (r, y) \<Rightarrow> (if r = PutParks then Suc k else k, y))"
| "chan_next TakeOp (k, x) = (case spec_take k x of (r, y) \<Rightarrow> (if r = TakeParks then Suc k else k, y))"
| "chan_next TryOp (k, x) = (k, snd (spec_take_try x))"
| "chan_next CloseOp (k, x) = (k, if vclosed x then x else spec_close x)"

definition chan_spec :: "chan_op \<Rightarrow> nat \<times> chan_view \<Rightarrow> (outcome \<times> nat \<times> chan_view) option" where
  "chan_spec c s = Some (chan_out c s, chan_next c s)"

fun chan_rel :: "goc_env \<Rightarrow> nat \<Rightarrow> goc_world \<times> goc_chan \<Rightarrow> nat \<times> chan_view \<Rightarrow> bool" where
  "chan_rel env n (w, ch) (k, x) = (chan_ok w ch \<and> all_ready env w ch \<and> view w ch = x \<and> next_ent w = k \<and>
     (vguard x = GOC_CHAN_CLOSING \<longleftrightarrow> vclosed x))"

lemma spec_put_guard:
  "vguard (snd (spec_put k v x)) = vguard x \<and> vclosed (snd (spec_put k v x)) = vclosed x"
  by (auto simp: spec_put_def split: list.splits)

lemma spec_take_guard:
  "vguard (snd (spec_take k x)) = vguard x \<and> vclosed (snd (spec_take k x)) = vclosed x"
  by (auto simp: spec_take_def split: list.splits)

lemma chan_exec_ok:
  assumes "chan_rel env n s x"
  shows "\<exists>s'. chan_exec env c s = Some (Inr (chan_out c x, s')) \<and> chan_rel env m s' (chan_next c x)"
proof -
  obtain w ch k y where sx: "s = (w, ch)" "x = (k, y)" by (cases s; cases x)
  with assms have a: "chan_ok w ch" "all_ready env w ch" "view w ch = y" "next_ent w = k"
    "vguard y = GOC_CHAN_CLOSING \<longleftrightarrow> vclosed y" by simp_all
  show ?thesis
  proof (cases c)
    case (PutOp v)
    obtain r z where r: "spec_put (next_ent w) v (view w ch) = (r, z)" by fastforce
    from put_sync_refines [OF a(1,2) r] spec_put_guard [of "next_ent w" v "view w ch"] r PutOp sx a
    show ?thesis by auto
  next
    case TakeOp
    obtain r z where r: "spec_take (next_ent w) (view w ch) = (r, z)" by fastforce
    from take_sync_refines [OF a(1,2) r] spec_take_guard [of "next_ent w" "view w ch"] r TakeOp sx a
    show ?thesis by auto
  next
    case TryOp
    obtain r z where r: "spec_take_try (view w ch) = (r, z)" by fastforce
    then have "vguard z = vguard y \<and> vclosed z = vclosed y"
      using spec_take_guard [of 0 "view w ch"] a(3) by (auto simp: spec_take_try_def split: prod.splits if_splits)
    with take_try_refines [OF a(1,2) r] r TryOp sx a show ?thesis by auto
  next
    case CloseOp
    show ?thesis
    proof (cases "vclosed y")
      case True
      then have g: "close_guard ch = GOC_CHAN_CLOSING" using a(3,5) by auto
      then have "goc_close_internal env w ch = Some (Inr (w, ch))"
        by (simp add: goc_close_internal_def close_claim_def)
      with CloseOp sx a True show ?thesis by simp
    next
      case False
      then have g: "close_guard ch \<noteq> GOC_CHAN_CLOSING" using a(3,5) by auto
      obtain w' ch' where c: "goc_close_internal env w ch = Some (Inr (w', ch'))" "chan_ok w' ch'"
        "view w' ch' = spec_close (view w ch)" "next_ent w' = next_ent w"
        using close_refines [OF a(1,2) g] by blast
      have "waiters w' (\<lambda>_. ()) (takers ch') = []" "waiters w' put_val (putters ch') = []"
        using c(3) view_simps(3,4) [of w' ch'] by (simp_all add: spec_close_def)
      then have "all_ready env w' ch'"
        by (auto simp: all_ready_def waiters_Nil_iff filter_empty_conv)
      with c CloseOp sx a False show ?thesis by (simp add: spec_close_def)
    qed
  qed
qed

interpretation chan: op_simulation "chan_rel env" "chan_exec env" chan_spec "\<lambda>_. True" for env
proof unfold_locales
  fix c n s x v y
  assume "chan_rel env (Suc n) s x" "chan_spec c x = Some (v, y)"
  with chan_exec_ok [of env "Suc n" s x c n]
  show "\<exists>s'. chan_exec env c s = Some (Inr (v, s')) \<and> chan_rel env n s' y" by (simp add: chan_spec_def)
qed (simp add: chan_spec_def)

definition view0 :: "nat \<Rightarrow> chan_view" where
  "view0 n = \<lparr>cap = n, items = [], vtakers = [], vputters = [], vclosed = False, vguard = GOC_CHAN_OPEN\<rparr>"

lemma chan_make_rel:
  "\<lbrakk>world_ok w; n < 2 ^ 61\<rbrakk> \<Longrightarrow> chan_rel env m (w, goc_chan_make n) (next_ent w, view0 n)"
  by (simp add: goc_chan_make_def view_def view0_def chan_ok_def ring_ok_def ring_list_def all_ready_def
      slots_eq)

section \<open>Values in and out\<close>

text \<open>What an operation sends into the channel, what it takes out for a receiver (itself or a
  waiting taker), and what it drops.\<close>

fun op_sent :: "chan_op \<Rightarrow> nat \<times> chan_view \<Rightarrow> ptr list" where
  "op_sent (PutOp v) (k, x) = (if vclosed x then [] else [v])"
| "op_sent _ _ = []"

fun op_recv :: "chan_op \<Rightarrow> nat \<times> chan_view \<Rightarrow> ptr list" where
  "op_recv (PutOp v) (k, x) = (case fst (spec_put k v x) of PutTo q \<Rightarrow> [v] | _ \<Rightarrow> [])"
| "op_recv CloseOp (k, x) = []"
| "op_recv _ (k, x) = (case fst (spec_take k x) of TakeItem v \<Rightarrow> [v] | TakeFrom q v \<Rightarrow> [v] | _ \<Rightarrow> [])"

fun op_dropped :: "chan_op \<Rightarrow> nat \<times> chan_view \<Rightarrow> ptr list" where
  "op_dropped CloseOp (k, x) = (if vclosed x then [] else map (\<lambda>(p, g, v). v) (vputters x))"
| "op_dropped _ _ = []"

fun run_log :: "(chan_op \<Rightarrow> nat \<times> chan_view \<Rightarrow> ptr list) \<Rightarrow> chan_op list \<Rightarrow> nat \<times> chan_view \<Rightarrow> ptr list" where
  "run_log f [] s = []"
| "run_log f (c # cs) s = f c s @ run_log f cs (chan_next c s)"

fun run_outs :: "chan_op list \<Rightarrow> nat \<times> chan_view \<Rightarrow> outcome list" where
  "run_outs [] s = []"
| "run_outs (c # cs) s = chan_out c s # run_outs cs (chan_next c s)"

fun run_end :: "chan_op list \<Rightarrow> nat \<times> chan_view \<Rightarrow> nat \<times> chan_view" where
  "run_end [] s = s"
| "run_end (c # cs) s = run_end cs (chan_next c s)"

lemma spec_run_eq: "spec_run chan_spec cs s = Some (run_outs cs s, run_end cs s)"
  by (induction cs arbitrary: s) (simp_all add: chan_spec_def)

lemma chan_run_from:
  assumes "chan_rel env n (w, ch) s"
  obtains w' ch' where "impl_run (chan_exec env) cs (w, ch) = Some (Inr (run_outs cs s, w', ch'))"
    "chan_rel env m (w', ch') (run_end cs s)"
proof -
  have "chan_rel env (length cs + m) (w, ch) s" using assms by (cases s) simp
  from chan.run_ok [OF list_all_True this spec_run_eq] that show thesis by (auto simp: split_paired_all)
qed

lemma chan_run:
  assumes "world_ok w" "n < 2 ^ 61"
  obtains w' ch' where "impl_run (chan_exec env) cs (w, goc_chan_make n)
      = Some (Inr (run_outs cs (next_ent w, view0 n), w', ch'))"
    "chan_ok w' ch'" "view w' ch' = snd (run_end cs (next_ent w, view0 n))"
proof -
  obtain w' ch' where "impl_run (chan_exec env) cs (w, goc_chan_make n)
      = Some (Inr (run_outs cs (next_ent w, view0 n), w', ch'))"
    "chan_rel env 0 (w', ch') (run_end cs (next_ent w, view0 n))"
    by (rule chan_run_from [OF chan_make_rel [OF assms, of env 0]])
  then show thesis using that by (cases "run_end cs (next_ent w, view0 n)") simp
qed

text \<open>Takers and values never wait at the same time; without selects no waiter has a group.\<close>

definition vals_of :: "chan_view \<Rightarrow> ptr list" where
  "vals_of x = map (\<lambda>(p, g, v). v) (vputters x)"

definition view_ok :: "chan_view \<Rightarrow> bool" where
  "view_ok x = ((vtakers x \<noteq> [] \<longrightarrow> items x = [] \<and> vputters x = []) \<and> length (items x) \<le> cap x \<and>
     (\<forall>(p, g, u) \<in> set (vtakers x). g = None) \<and> (\<forall>(p, g, v) \<in> set (vputters x). g = None))"

lemma ungroup_None [simp]: "ungroup None xs = xs"
  by (simp add: ungroup_def)

lemma view_ok_next: "view_ok (snd s) \<Longrightarrow> view_ok (snd (chan_next c s))"
  by (cases s; cases c)
    (auto simp: view_ok_def spec_put_def spec_take_def spec_take_try_def spec_close_def
      split: list.splits if_splits)

lemma view0_ok [simp]: "view_ok (view0 n)"
  by (simp add: view_ok_def view0_def)

text \<open>One operation: what was held and what is sent is held, received or dropped afterwards.\<close>

lemma conserve_step:
  assumes "view_ok (snd s)"
  shows "mset (items (snd s) @ vals_of (snd s)) + mset (op_sent c s)
    = mset (items (snd (chan_next c s)) @ vals_of (snd (chan_next c s))) + mset (op_recv c s) + mset (op_dropped c s)"
  using assms
  by (cases s; cases c)
    (auto simp: view_ok_def vals_of_def spec_put_def spec_take_def spec_take_try_def spec_close_def
      split: list.splits if_splits)

lemma conserve_run:
  "view_ok (snd s) \<Longrightarrow> mset (items (snd s) @ vals_of (snd s)) + mset (run_log op_sent cs s)
    = mset (items (snd (run_end cs s)) @ vals_of (snd (run_end cs s)))
      + mset (run_log op_recv cs s) + mset (run_log op_dropped cs s)"
proof (induction cs arbitrary: s)
  case (Cons c cs)
  let ?t = "chan_next c s" and ?held = "\<lambda>s. mset (items (snd s) @ vals_of (snd s))"
  have "?held s + mset (run_log op_sent (c # cs) s) = (?held s + mset (op_sent c s)) + mset (run_log op_sent cs ?t)"
    by (simp add: union_assoc)
  also have "\<dots> = (?held ?t + mset (run_log op_sent cs ?t)) + (mset (op_recv c s) + mset (op_dropped c s))"
    unfolding conserve_step [OF Cons.prems, of c] by (simp only: ac_simps)
  also have "\<dots> = ?held (run_end cs ?t) + mset (run_log op_recv cs ?t) + mset (run_log op_dropped cs ?t)
      + (mset (op_recv c s) + mset (op_dropped c s))"
    unfolding Cons.IH [OF view_ok_next [OF Cons.prems, of c]] ..
  finally show ?case by (simp add: ac_simps)
qed simp

text \<open>One operation on an unbuffered channel, or on one on which no putter waits, keeps the order.\<close>

definition no_overtake :: "chan_op \<Rightarrow> nat \<times> chan_view \<Rightarrow> bool" where
  "no_overtake c s = (c \<noteq> CloseOp \<and> (\<forall>v. c = PutOp v \<longrightarrow> cap (snd s) = 0 \<or> fst (spec_put (fst s) v (snd s)) \<noteq> PutParks))"

fun run_all :: "(chan_op \<Rightarrow> nat \<times> chan_view \<Rightarrow> bool) \<Rightarrow> chan_op list \<Rightarrow> nat \<times> chan_view \<Rightarrow> bool" where
  "run_all P [] s = True"
| "run_all P (c # cs) s = (P c s \<and> run_all P cs (chan_next c s))"

definition ordered :: "chan_view \<Rightarrow> bool" where
  "ordered x = (view_ok x \<and> (cap x = 0 \<or> vputters x = []))"

lemma fifo_step:
  assumes "ordered (snd s)" "no_overtake c s"
  shows "items (snd s) @ vals_of (snd s) @ op_sent c s
      = op_recv c s @ items (snd (chan_next c s)) @ vals_of (snd (chan_next c s)) \<and>
    ordered (snd (chan_next c s))"
  using assms
  by (cases s; cases c)
    (auto simp: ordered_def no_overtake_def view_ok_def vals_of_def spec_put_def spec_take_def spec_take_try_def
      split: list.splits if_splits)

lemma fifo_run:
  "\<lbrakk>ordered (snd s); run_all no_overtake cs s\<rbrakk>
   \<Longrightarrow> items (snd s) @ vals_of (snd s) @ run_log op_sent cs s
      = run_log op_recv cs s @ items (snd (run_end cs s)) @ vals_of (snd (run_end cs s))"
proof (induction cs arbitrary: s)
  case (Cons c cs)
  have st: "items (snd s) @ vals_of (snd s) @ op_sent c s
      = op_recv c s @ items (snd (chan_next c s)) @ vals_of (snd (chan_next c s))" "ordered (snd (chan_next c s))"
    using fifo_step [of s c] Cons.prems by simp_all
  have "items (snd s) @ vals_of (snd s) @ run_log op_sent (c # cs) s
      = (items (snd s) @ vals_of (snd s) @ op_sent c s) @ run_log op_sent cs (chan_next c s)" by simp
  also have "\<dots> = op_recv c s @ (items (snd (chan_next c s)) @ vals_of (snd (chan_next c s)) @ run_log op_sent cs (chan_next c s))"
    by (simp add: st(1))
  also have "\<dots> = run_log op_recv (c # cs) s @ items (snd (run_end cs (chan_next c s))) @ vals_of (snd (run_end cs (chan_next c s)))"
    using Cons.IH [OF st(2)] Cons.prems by simp
  finally show ?case by simp
qed simp

end
