(* ===== verification/Goc_Claim.thy ===== *)
theory Goc_Claim
  imports Goc_Chan_Ops
begin

text \<open>
  \<open>try_claim_wake\<close> under concurrency: any number of threads run its two compare-and-swap steps on
  any entries, in any interleaving. At most one of them wins an entry, or a select, and when all
  have finished one of those that tried has won.
\<close>

text \<open>Where a thread is in \<open>try_claim_wake(e)\<close>.\<close>

datatype claim_pc = Idle | AtFired nat | AtWoken nat | Won nat | Lost nat

record claim_state =
  cflags :: "nat \<Rightarrow> bool"
  cwoken :: "nat \<Rightarrow> bool"
  pc :: "nat \<Rightarrow> claim_pc"

text \<open>\<open>fd e\<close> is the flag that \<open>e->fired\<close> points to, which never changes.\<close>

inductive claim_step :: "(nat \<Rightarrow> nat option) \<Rightarrow> claim_state \<Rightarrow> claim_state \<Rightarrow> bool" for fd where
  call: "pc s t = Idle \<Longrightarrow>
     claim_step fd s (s\<lparr>pc := (pc s)(t := if fd e = None then AtWoken e else AtFired e)\<rparr>)"
| cas_fired: "\<lbrakk>pc s t = AtFired e; fd e = Some f; \<not> cflags s f\<rbrakk> \<Longrightarrow>
     claim_step fd s (s\<lparr>cflags := (cflags s)(f := True), pc := (pc s)(t := AtWoken e)\<rparr>)"
| cas_fired_fails: "\<lbrakk>pc s t = AtFired e; fd e = Some f; cflags s f\<rbrakk> \<Longrightarrow>
     claim_step fd s (s\<lparr>pc := (pc s)(t := Lost e)\<rparr>)"
| cas_woken: "\<lbrakk>pc s t = AtWoken e; \<not> cwoken s e\<rbrakk> \<Longrightarrow>
     claim_step fd s (s\<lparr>cwoken := (cwoken s)(e := True), pc := (pc s)(t := Won e)\<rparr>)"
| cas_woken_fails: "\<lbrakk>pc s t = AtWoken e; cwoken s e\<rbrakk> \<Longrightarrow>
     claim_step fd s (s\<lparr>pc := (pc s)(t := Lost e)\<rparr>)"

inductive claim_reach :: "(nat \<Rightarrow> nat option) \<Rightarrow> claim_state \<Rightarrow> bool" for fd where
  init: "claim_reach fd \<lparr>cflags = \<lambda>_. False, cwoken = \<lambda>_. False, pc = \<lambda>_. Idle\<rparr>"
| step: "\<lbrakk>claim_reach fd s; claim_step fd s s'\<rbrakk> \<Longrightarrow> claim_reach fd s'"

inductive_cases claim_stepE: "claim_step fd s s'"

text \<open>The threads that have won an entry, and those that have got past a shared flag.\<close>

definition won :: "claim_state \<Rightarrow> nat \<Rightarrow> nat set" where
  "won s e = {t. pc s t = Won e}"

definition past :: "(nat \<Rightarrow> nat option) \<Rightarrow> claim_state \<Rightarrow> nat \<Rightarrow> nat set" where
  "past fd s f = {t. \<exists>e. fd e = Some f \<and> (pc s t = AtWoken e \<or> pc s t = Won e)}"

text \<open>A flag is set exactly when one thread is past it.\<close>

definition guards :: "bool \<Rightarrow> nat set \<Rightarrow> bool" where
  "guards b T = (if b then \<exists>t. T = {t} else T = {})"

text \<open>Somebody has the entry, or its select.\<close>

definition taken :: "(nat \<Rightarrow> nat option) \<Rightarrow> claim_state \<Rightarrow> nat \<Rightarrow> bool" where
  "taken fd s e = (case fd e of None \<Rightarrow> cwoken s e | Some f \<Rightarrow> cflags s f)"

lemma guards_simps:
  "guards False T = (T = {})" "guards True T = (\<exists>t. T = {t})"
  by (simp_all add: guards_def)

lemma guards_unique: "\<lbrakk>guards b T; t \<in> T; t' \<in> T\<rbrakk> \<Longrightarrow> t = t'"
  by (auto simp: guards_def split: if_splits)

lemma taken_mono:
  "\<lbrakk>taken fd s e; \<And>x. cwoken s x \<Longrightarrow> cwoken s' x; \<And>f. cflags s f \<Longrightarrow> cflags s' f\<rbrakk> \<Longrightarrow> taken fd s' e"
  by (auto simp: taken_def split: option.splits)

definition claim_inv :: "(nat \<Rightarrow> nat option) \<Rightarrow> claim_state \<Rightarrow> bool" where
  "claim_inv fd s = ((\<forall>e. guards (cwoken s e) (won s e)) \<and> (\<forall>f. guards (cflags s f) (past fd s f)) \<and>
     (\<forall>t e. pc s t = Lost e \<longrightarrow> taken fd s e))"

lemma claim_inv_init: "claim_inv fd \<lparr>cflags = \<lambda>_. False, cwoken = \<lambda>_. False, pc = \<lambda>_. Idle\<rparr>"
  by (simp add: claim_inv_def guards_def won_def past_def)

lemma claim_invD:
  assumes "claim_inv fd s"
  shows "\<lbrakk>t \<in> won s e; t' \<in> won s e\<rbrakk> \<Longrightarrow> t = t'" "cwoken s e \<Longrightarrow> \<exists>t. t \<in> won s e"
    "\<lbrakk>t \<in> past fd s f; t' \<in> past fd s f\<rbrakk> \<Longrightarrow> t = t'" "cflags s f \<Longrightarrow> \<exists>t. t \<in> past fd s f"
proof -
  have g: "guards (cwoken s e) (won s e)" "guards (cflags s f) (past fd s f)"
    using assms by (simp_all add: claim_inv_def)
  show "\<lbrakk>t \<in> won s e; t' \<in> won s e\<rbrakk> \<Longrightarrow> t = t'" by (rule guards_unique [OF g(1)])
  show "\<lbrakk>t \<in> past fd s f; t' \<in> past fd s f\<rbrakk> \<Longrightarrow> t = t'" by (rule guards_unique [OF g(2)])
  show "cwoken s e \<Longrightarrow> \<exists>t. t \<in> won s e" using g(1) by (auto simp: guards_def)
  show "cflags s f \<Longrightarrow> \<exists>t. t \<in> past fd s f" using g(2) by (auto simp: guards_def)
qed

text \<open>A step of one thread that neither wins an entry nor passes a flag.\<close>

lemma claim_inv_move:
  assumes "claim_inv fd s" "\<forall>e. pc s t \<noteq> Won e \<and> x \<noteq> Won e"
    "\<forall>e f. fd e = Some f \<longrightarrow> pc s t \<noteq> AtWoken e \<and> x \<noteq> AtWoken e" "\<forall>e. x = Lost e \<longrightarrow> taken fd s e"
  shows "claim_inv fd (s\<lparr>pc := (pc s)(t := x)\<rparr>)"
proof -
  have "won (s\<lparr>pc := (pc s)(t := x)\<rparr>) = won s" "past fd (s\<lparr>pc := (pc s)(t := x)\<rparr>) = past fd s"
    using assms(2,3) by (auto simp: won_def past_def fun_eq_iff)
  moreover have "taken fd (s\<lparr>pc := (pc s)(t := x)\<rparr>) = taken fd s"
    by (simp add: taken_def fun_eq_iff split: option.splits)
  ultimately show ?thesis using assms(1,4) by (simp add: claim_inv_def)
qed

lemma claim_inv_step:
  assumes "claim_inv fd s" "claim_step fd s s'"
  shows "claim_inv fd s'"
  using assms(2)
proof cases
  case (call t e)
  show ?thesis unfolding call(1) using assms(1) call(2) by (intro claim_inv_move) (auto split: if_splits)
next
  case (cas_fired t e f)
  have no: "past fd s f = {}" using assms(1) cas_fired(4) guards_simps(1) by (metis claim_inv_def)
  have "won s' = won s" using cas_fired by (auto simp: won_def fun_eq_iff)
  moreover have "past fd s' g = (if g = f then {t} else past fd s g)" for g
    using cas_fired no by (auto simp: past_def)
  moreover have "taken fd s' x" if "pc s' u = Lost x" for u x
    using assms(1) that cas_fired(1) taken_mono [of fd s x s'] by (auto simp: claim_inv_def split: if_splits)
  ultimately show ?thesis using assms(1) cas_fired(1) by (auto simp: claim_inv_def guards_simps)
next
  case (cas_fired_fails t e f)
  show ?thesis unfolding cas_fired_fails(1) using assms(1) cas_fired_fails(2-)
    by (intro claim_inv_move) (auto simp: taken_def)
next
  case (cas_woken t e)
  have no: "won s e = {}" using assms(1) cas_woken(3) guards_simps(1) by (metis claim_inv_def)
  have "past fd s' = past fd s" using cas_woken by (auto simp: past_def fun_eq_iff)
  moreover have "won s' g = (if g = e then {t} else won s g)" for g
    using cas_woken no by (auto simp: won_def)
  moreover have "taken fd s' x" if "pc s' u = Lost x" for u x
    using assms(1) that cas_woken(1) taken_mono [of fd s x s'] by (auto simp: claim_inv_def split: if_splits)
  ultimately show ?thesis using assms(1) cas_woken(1) by (auto simp: claim_inv_def guards_simps)
next
  case (cas_woken_fails t e)
  obtain u where u: "pc s u = Won e"
    using claim_invD(2) [OF assms(1) cas_woken_fails(3)] by (auto simp: won_def)
  have "fd e = None"
  proof (rule ccontr)
    assume "fd e \<noteq> None"
    then obtain f where f: "fd e = Some f" by auto
    then have "u \<in> past fd s f" "t \<in> past fd s f" using u cas_woken_fails(2) by (auto simp: past_def)
    then have "u = t" by (rule claim_invD(3) [OF assms(1)])
    with u cas_woken_fails(2) show False by simp
  qed
  then show ?thesis unfolding cas_woken_fails(1) using assms(1) cas_woken_fails(2-)
    by (intro claim_inv_move) (auto simp: taken_def)
qed

lemma claim_inv_reach: "claim_reach fd s \<Longrightarrow> claim_inv fd s"
  by (induction rule: claim_reach.induct) (auto intro: claim_inv_init claim_inv_step)

lemma claim_unique:
  assumes "claim_inv fd s" "pc s t = Won e" "pc s t' = Won e'" "e = e' \<or> fd e \<noteq> None \<and> fd e = fd e'"
  shows "t = t'"
  using assms(4)
proof
  assume "e = e'"
  with assms have "t \<in> won s e" "t' \<in> won s e" by (simp_all add: won_def)
  then show ?thesis by (rule claim_invD(1) [OF assms(1)])
next
  assume g: "fd e \<noteq> None \<and> fd e = fd e'"
  then obtain f where f: "fd e = Some f" by blast
  with g have "fd e' = Some f" by simp
  note f this
  with assms have "t \<in> past fd s f" "t' \<in> past fd s f" by (auto simp: past_def)
  then show ?thesis by (rule claim_invD(3) [OF assms(1)])
qed

lemma claim_winner:
  assumes "claim_inv fd s" "pc s t = Lost e" "\<forall>u x. pc s u \<noteq> AtFired x \<and> pc s u \<noteq> AtWoken x"
  shows "\<exists>u x. pc s u = Won x \<and> (x = e \<or> fd e \<noteq> None \<and> fd x = fd e)"
proof -
  have t: "taken fd s e" using assms(1,2) by (auto simp: claim_inv_def)
  show ?thesis
  proof (cases "fd e")
    case None
    with t have "cwoken s e" by (simp add: taken_def)
    then obtain u where "u \<in> won s e" using claim_invD(2) [OF assms(1)] by blast
    then show ?thesis by (auto simp: won_def)
  next
    case (Some f)
    with t have "cflags s f" by (simp add: taken_def)
    then obtain u where "u \<in> past fd s f" using claim_invD(4) [OF assms(1)] by blast
    with assms(3) Some show ?thesis by (auto simp: past_def)
  qed
qed

text \<open>C16:
  However the steps of concurrent \<open>try_claim_wake\<close> calls interleave, two calls that both
  return true were made by the same thread, if they are for the same entry or for two arms of one
  select; and once no call is in progress, an entry that somebody tried and lost (or its select)
  has been won by somebody.
\<close>

theorem claim_exactly_once:
  assumes "claim_reach fd s"
  shows "(\<forall>t t' e e'. pc s t = Won e \<and> pc s t' = Won e' \<and> (e = e' \<or> fd e \<noteq> None \<and> fd e = fd e') \<longrightarrow> t = t') \<and>
    (\<forall>t e. pc s t = Lost e \<and> (\<forall>u x. pc s u \<noteq> AtFired x \<and> pc s u \<noteq> AtWoken x) \<longrightarrow>
       (\<exists>u x. pc s u = Won x \<and> (x = e \<or> fd e \<noteq> None \<and> fd x = fd e)))"
  using claim_unique [OF claim_inv_reach [OF assms]] claim_winner [OF claim_inv_reach [OF assms]] by blast

text \<open>Two threads race for the two arms (entries 5 and 6) of one select.\<close>

definition race :: claim_state where
  "race = \<lparr>cflags = (\<lambda>_. False)(9 := True), cwoken = (\<lambda>_. False)(5 := True),
     pc = (\<lambda>_. Idle)(1 := Won 5, 2 := Lost 6)\<rparr>"

lemma race_reach: "claim_reach (\<lambda>_. Some 9) race"
proof -
  let ?fd = "\<lambda>_ :: nat. Some (9 :: nat)"
  let ?s0 = "\<lparr>cflags = \<lambda>_. False, cwoken = \<lambda>_. False, pc = \<lambda>_. Idle\<rparr>"
  let ?s1 = "?s0\<lparr>pc := (\<lambda>_. Idle)(1 := AtFired 5)\<rparr>"
  let ?s2 = "?s1\<lparr>pc := (\<lambda>_. Idle)(1 := AtFired 5, 2 := AtFired 6)\<rparr>"
  let ?s3 = "?s2\<lparr>cflags := (\<lambda>_. False)(9 := True), pc := (\<lambda>_. Idle)(1 := AtWoken 5, 2 := AtFired 6)\<rparr>"
  let ?s4 = "?s3\<lparr>pc := (\<lambda>_. Idle)(1 := AtWoken 5, 2 := Lost 6)\<rparr>"
  have "claim_step ?fd ?s0 ?s1" using claim_step.call [of ?s0 1 ?fd 5] by simp
  then have 1: "claim_reach ?fd ?s1" by (rule claim_reach.step [OF claim_reach.init])
  have "claim_step ?fd ?s1 ?s2" using claim_step.call [of ?s1 2 ?fd 6] by simp
  then have 2: "claim_reach ?fd ?s2" by (rule claim_reach.step [OF 1])
  have "claim_step ?fd ?s2 ?s3" using claim_step.cas_fired [of ?s2 1 5 ?fd 9] by (simp add: fun_upd_twist)
  then have 3: "claim_reach ?fd ?s3" by (rule claim_reach.step [OF 2])
  have "claim_step ?fd ?s3 ?s4" using claim_step.cas_fired_fails [of ?s3 2 6 ?fd 9] by simp
  then have 4: "claim_reach ?fd ?s4" by (rule claim_reach.step [OF 3])
  have "claim_step ?fd ?s4 race" using claim_step.cas_woken [of ?s4 1 5 ?fd] by (simp add: race_def fun_upd_twist)
  then show ?thesis by (rule claim_reach.step [OF 4])
qed

theorem claim_exactly_once_witness:
  "claim_reach (\<lambda>_. Some 9) race \<and> (\<exists>u x. pc race u = Won x \<and> (x = 6 \<or> (Some 9 :: nat option) = Some 9))"
proof -
  have "pc race 2 = Lost 6" "\<forall>u x. pc race u \<noteq> AtFired x \<and> pc race u \<noteq> AtWoken x"
    by (simp_all add: race_def)
  with claim_exactly_once [OF race_reach] race_reach show ?thesis by blast
qed

end
