(* ===== verification/Goc_Chan_Props.thy ===== *)
theory Goc_Chan_Props
  imports Goc_Chan_Run Goc_Claim
begin

text \<open>
  What follows for a channel as a whole: refinement over every sequence of operations, values are
  conserved, when they come out in order and when not, what closing does, and the park handshake.
\<close>

definition world0 :: goc_world where
  "world0 = \<lparr>ents = \<lambda>_. entry_zero, next_ent = 1, flags = \<lambda>_. False, locals = \<lambda>_. 0,
     sems = \<lambda>_. False, posts = [], freed = []\<rparr>"

lemma world0_ok: "world_ok world0" "next_ent world0 = 1"
  by (simp_all add: world_ok_def world0_def)

text \<open>C1:
  On a new channel every sequence of puts, takes, non-blocking takes and closes by OS
  threads runs to its end without a fault, gives exactly the outcomes of the specification, and
  ends in a channel that is well formed and shows the specification's view.
\<close>

theorem channel_refines:
  assumes "world_ok w" "n < 2 ^ 61"
  shows "\<exists>w' ch'. impl_run (chan_exec env) cs (w, goc_chan_make n)
      = Some (Inr (run_outs cs (next_ent w, view0 n), w', ch')) \<and> chan_ok w' ch' \<and>
      view w' ch' = snd (run_end cs (next_ent w, view0 n))"
  using chan_run [OF assms] by metis



text \<open>  On a buffered channel a later sender can overtake one that is parked, and a parked sender
  is left waiting while the buffer has room: with capacity 1, after putting 10, putting 20 (which
  parks) and a take, the buffer is empty and the sender of 20 still waits; a put of 30 succeeds at
  once and the next take gets 30.
\<close>

theorem parked_sender_is_overtaken:
  "\<exists>w ch w' ch'.
     impl_run (chan_exec env) [PutOp 10, PutOp 20, TryOp] (world0, goc_chan_make 1)
       = Some (Inr ([Now 0 GOC_OK, Parked 1, Now 10 GOC_OK], w, ch)) \<and>
     ring_list ch = [] \<and> waiters w put_val (putters ch) = [(1, None, 20)] \<and>
     impl_run (chan_exec env) [PutOp 30, TryOp] (w, ch)
       = Some (Inr ([Now 0 GOC_OK, Now 30 GOC_OK], w', ch')) \<and>
     waiters w' put_val (putters ch') = [(1, None, 20)]"
proof -
  let ?s = "(1, view0 1)"
  have r0: "chan_rel env 5 (world0, goc_chan_make 1) ?s"
    using chan_make_rel [of world0 1 env 5] world0_ok by simp
  have e: "run_outs [PutOp 10, PutOp 20, TryOp] ?s = [Now 0 GOC_OK, Parked 1, Now 10 GOC_OK]"
    "run_end [PutOp 10, PutOp 20, TryOp] ?s = (2, (view0 1)\<lparr>vputters := [(1, None, 20)]\<rparr>)"
    by (simp_all add: view0_def spec_put_def spec_take_try_def spec_take_def put_outcome_def
        try_outcome_def take_outcome_def)
  obtain w ch where 1: "impl_run (chan_exec env) [PutOp 10, PutOp 20, TryOp] (world0, goc_chan_make 1)
      = Some (Inr ([Now 0 GOC_OK, Parked 1, Now 10 GOC_OK], w, ch))"
    and r1: "chan_rel env 2 (w, ch) (2, (view0 1)\<lparr>vputters := [(1, None, 20)]\<rparr>)"
    by (rule chan_run_from [OF r0, of "[PutOp 10, PutOp 20, TryOp]" 2, unfolded e])
  let ?t = "(2, (view0 1)\<lparr>vputters := [(1, None, 20)]\<rparr>)"
  have f: "run_outs [PutOp 30, TryOp] ?t = [Now 0 GOC_OK, Now 30 GOC_OK]"
    "run_end [PutOp 30, TryOp] ?t = ?t"
    by (simp_all add: view0_def spec_put_def spec_take_try_def spec_take_def put_outcome_def
        try_outcome_def take_outcome_def)
  obtain w' ch' where 2: "impl_run (chan_exec env) [PutOp 30, TryOp] (w, ch)
      = Some (Inr ([Now 0 GOC_OK, Now 30 GOC_OK], w', ch'))" and r2: "chan_rel env 0 (w', ch') ?t"
    by (rule chan_run_from [OF r1, of "[PutOp 30, TryOp]" 0, unfolded f])
  have v: "view w ch = (view0 1)\<lparr>vputters := [(1, None, 20)]\<rparr>" "view w' ch' = (view0 1)\<lparr>vputters := [(1, None, 20)]\<rparr>"
    using r1 r2 by simp_all
  have "ring_list ch = []" "waiters w put_val (putters ch) = [(1, None, 20)]"
    "waiters w' put_val (putters ch') = [(1, None, 20)]"
    using view_simps(2,4) [of w ch] view_simps(4) [of w' ch'] unfolding v by (simp_all add: view0_def)
  with 1 2 show ?thesis by blast
qed

section \<open>Closing\<close>


text \<open>
  The wake loop of \<open>goc_close_internal\<close> never collects more fibers than the arrays sized
  with the number of waiters counted before it can hold, in any state.
\<close>

theorem close_arrays_suffice:
  "length (fst (close_wake_loop env (takers ch @ putters ch) w)) \<le> waiter_count w ch"
  unfolding waiter_count_def by (rule close_wake_loop_length)

section \<open>The park handshake\<close>

lemma wake_claim_parked:
  assumes "wake_claim env p v w ch = (r, w1, ch1)"
  shows "parked (ents w1 q) = parked (ents w q) \<and> next_ent w1 = next_ent w"
  using assms
  by (auto simp: wake_claim_def try_claim_wake_def claim_woken_def POST_CALLBACK_def Let_def
      split: if_splits option.splits goc_entry_kind.splits)

lemma scan_parked:
  assumes "\<And>p w ch r w1 ch1. wk p w ch = Some (Inr (r, w1, ch1)) \<Longrightarrow>
      parked (ents w1 q) = parked (ents w q) \<and> next_ent w1 = next_ent w"
  shows "scan_waiters wk ps w ch = Some (Inr (r, zs, w', ch')) \<Longrightarrow>
      parked (ents w' q) = parked (ents w q) \<and> next_ent w' = next_ent w"
proof (induction ps arbitrary: w ch)
  case (Cons p ps)
  show ?case
  proof (cases "cancelled (ents w p)")
    case True
    with Cons show ?thesis by simp
  next
    case False
    with Cons.prems obtain r1 w1 ch1 where 1: "wk p w ch = Some (Inr (r1, w1, ch1))"
      by (auto simp: obind_def split: option.splits sum.splits)
    with Cons False assms [OF 1] show ?thesis by (auto split: option.splits)
  qed
qed simp

lemma claim_walks_parked:
  "chan_take_from_putter_claim env w ch = Some (Inr (r, w1, ch1)) \<Longrightarrow>
     parked (ents w1 q) = parked (ents w q) \<and> next_ent w1 = next_ent w"
  "chan_put_to_taker_claim env v w ch = Some (Inr (r', w1, ch1)) \<Longrightarrow>
     parked (ents w1 q) = parked (ents w q) \<and> next_ent w1 = next_ent w"
proof -
  assume a: "chan_take_from_putter_claim env w ch = Some (Inr (r, w1, ch1))"
  let ?wk = "\<lambda>p w ch. let v = put_val (ents w p) in case wake_claim env p NULL w ch of (r, w1, ch1) \<Rightarrow>
      Some (Inr (map_option (\<lambda>fe. (v, fe, want_of (ents w1 p))) r, w1, ch1))"
  obtain zs ch2 where "scan_waiters ?wk (putters ch) w ch = Some (Inr (r, zs, w1, ch2))"
    using a unfolding chan_take_from_putter_claim_def by (auto simp: obind_def split: option.splits sum.splits)
  then show "parked (ents w1 q) = parked (ents w q) \<and> next_ent w1 = next_ent w"
    by (rule scan_parked [rotated]) (auto simp: Let_def split: prod.splits dest: wake_claim_parked)
next
  assume a: "chan_put_to_taker_claim env v w ch = Some (Inr (r', w1, ch1))"
  let ?wk = "\<lambda>p w ch. case wake_claim env p v w ch of (r, w1, ch1) \<Rightarrow>
      Some (Inr (map_option (\<lambda>fe. (fe, want_of (ents w1 p))) r, w1, ch1))"
  obtain zs ch2 where "scan_waiters ?wk (takers ch) w ch = Some (Inr (r', zs, w1, ch2))"
    using a unfolding chan_put_to_taker_claim_def by (auto simp: obind_def split: option.splits sum.splits)
  then show "parked (ents w1 q) = parked (ents w q) \<and> next_ent w1 = next_ent w"
    by (rule scan_parked [rotated]) (auto split: prod.splits dest: wake_claim_parked)
qed

lemma compact_parked:
  "compact_if_due w ch = (w0, ch0) \<Longrightarrow> ents w0 = ents w \<and> next_ent w0 = next_ent w"
  by (auto simp: compact_if_due_def compact_dead_entries_def Let_def split: if_splits)

lemma park_fiber_gen:
  assumes "park_fiber env c worker e w = (p, w')" "parked (ents w (user_data env c)) = 0"
    "user_data env c < next_ent w"
  shows "parked_gen (ents w' p) = 1 \<and> want_of (ents w' p) = 4 \<and> parked (ents w' (user_data env c)) = 3"
  using assms
  by (auto simp: park_fiber_def alloc_entry_def fiber_entry_def park_gen_def want_of_def Let_def)

text \<open>  The generation of the park handshake never advances: a fiber whose \<open>parked\<close> word is 0
  parks in \<open>goc_take\<close> or \<open>goc_put\<close> with generation 1, its waker waits for the value 4, and on
  resumption the word is 0 again, so its next park has generation 1 too; the comparison with later
  generations can never tell two parks of one fiber apart.
\<close>

theorem park_generation_constant:
  assumes "parked (ents w (user_data env c)) = 0" "user_data env c < next_ent w"
    and "goc_take env (Some c) worker w ch = Some (Inr (Parked p, w', ch')) \<or>
         goc_put env (Some c) worker v w ch = Some (Inr (Parked p, w', ch'))"
  shows "parked_gen (ents w' p) = 1 \<and> want_of (ents w' p) = 4 \<and> parked (ents w' (user_data env c)) = 3 \<and>
      parked (ents (snd (goc_take_resume env c p u)) (user_data env c)) = 0 \<and>
      parked (ents (snd (goc_put_resume env c p u)) (user_data env c)) = 0"
proof -
  have "\<exists>w1 e. park_fiber env c worker e w1 = (p, w') \<and> parked (ents w1 (user_data env c)) = 0 \<and>
      user_data env c < next_ent w1"
    using assms(3)
  proof
    assume "goc_take env (Some c) worker w ch = Some (Inr (Parked p, w', ch'))"
    then obtain w0 ch0 ch1 w1 ch2 where 1: "compact_if_due w ch = (w0, ch0)"
      and 2: "chan_take_from_putter_claim env w0 ch1 = Some (Inr (None, w1, ch2))"
      and 3: "park_fiber env c worker (entry_zero\<lparr>result_slot := LocalSlot (next_ent w1)\<rparr>) w1 = (p, w')"
      by (auto simp: goc_take_def obind_def split: prod.splits option.splits sum.splits if_splits)
    from compact_parked [OF 1] claim_walks_parked(1) [OF 2, of "user_data env c"] 3 assms(1,2)
    show ?thesis by auto
  next
    assume "goc_put env (Some c) worker v w ch = Some (Inr (Parked p, w', ch'))"
    then obtain w0 ch0 w1 ch2 where 1: "compact_if_due w ch = (w0, ch0)"
      and 2: "chan_put_to_taker_claim env v w0 ch0 = Some (Inr (None, w1, ch2))"
      and 3: "park_fiber env c worker (entry_zero\<lparr>put_val := v\<rparr>) w1 = (p, w')"
      by (auto simp: goc_put_def obind_def split: prod.splits option.splits sum.splits if_splits)
    from compact_parked [OF 1] claim_walks_parked(2) [OF 2, of "user_data env c"] 3 assms(1,2)
    show ?thesis by auto
  qed
  then show ?thesis
    using park_fiber_gen by (fastforce simp: goc_take_resume_def goc_put_resume_def resume_fiber_def Let_def)
qed

definition stops :: "(nat \<Rightarrow> 64 word) \<Rightarrow> 64 word \<Rightarrow> nat \<Rightarrow> bool" where
  "stops loads want n = (loads n = want \<or> loads n = 0 \<or> want < loads n)"

lemma wait_stop:
  "\<lbrakk>stops loads want (i + n); \<forall>j < n. \<not> stops loads want (i + j)\<rbrakk>
   \<Longrightarrow> wait_for_fiber_suspended loads want i = Some (Inr (loads (i + n) = want))"
proof (induction n arbitrary: i)
  case 0
  then show ?case by (subst wait_for_fiber_suspended.simps) (auto simp: stops_def)
next
  case (Suc n)
  have "\<not> stops loads want i" using Suc.prems(2) by (auto dest: spec [of _ 0])
  moreover have "wait_for_fiber_suspended loads want (Suc i) = Some (Inr (loads (Suc i + n) = want))"
    using Suc.prems by (intro Suc.IH) (auto dest: spec [of _ "Suc _"])
  ultimately show ?case by (subst wait_for_fiber_suspended.simps) (simp add: stops_def)
qed

lemma wait_Some_stop:
  assumes "wait_for_fiber_suspended loads want i = Some y"
  shows "\<exists>n \<ge> i. stops loads want n"
proof (rule wait_for_fiber_suspended.raw_induct [where P = "\<lambda>loads want i y. \<exists>n \<ge> i. stops loads want n", OF _ assms])
  fix f :: "(nat \<Rightarrow> 64 word) \<Rightarrow> 64 word \<Rightarrow> nat \<Rightarrow> bool res option" and loads want i y
  assume IH: "\<And>loads want i y. f loads want i = Some y \<Longrightarrow> \<exists>n \<ge> i. stops loads want n"
    and body: "(if loads i = want then Some (Inr True) else if loads i = 0 \<or> want < loads i
      then Some (Inr False) else f loads want (Suc i)) = Some y"
  show "\<exists>n \<ge> i. stops loads want n"
  proof (cases "stops loads want i")
    case False
    with body have "f loads want (Suc i) = Some y" by (simp add: stops_def)
    from IH [OF this] show ?thesis using Suc_leD by blast
  qed auto
qed

lemma spin_Some_stop:
  assumes "spin_until loads want i = Some y"
  shows "\<exists>n \<ge> i. loads n = want"
proof (rule spin_until.raw_induct [where P = "\<lambda>loads want i y. \<exists>n \<ge> i. loads n = want", OF _ assms])
  fix f :: "(nat \<Rightarrow> 64 word) \<Rightarrow> 64 word \<Rightarrow> nat \<Rightarrow> unit res option" and loads want i y
  assume IH: "\<And>loads want i y. f loads want i = Some y \<Longrightarrow> \<exists>n \<ge> i. loads n = want"
    and body: "(if loads i = want then Some (Inr ()) else f loads want (Suc i)) = Some y"
  show "\<exists>n \<ge> i. loads n = want"
  proof (cases "loads i = want")
    case False
    with body have "f loads want (Suc i) = Some y" by simp
    from IH [OF this] show ?thesis using Suc_leD by blast
  qed auto
qed

text \<open>C38:
  The spin on \<open>fe->parked\<close> ends exactly when some load sees the awaited value, 0 or a
  later one, and then says whether the first such load saw the awaited value; the spin of the loop
  thread in the callback operations has no way out for a stale park: if the word has moved past
  the awaited value the loop thread spins forever where the other wakers give up.
\<close>

theorem park_spin_ends_iff:
  "(wait_for_fiber_suspended loads want i = Some (Inr b) \<longleftrightarrow>
      (\<exists>n \<ge> i. stops loads want n \<and> (\<forall>j. i \<le> j \<and> j < n \<longrightarrow> \<not> stops loads want j) \<and> b = (loads n = want))) \<and>
   ((\<forall>n \<ge> i. want < loads n) \<longrightarrow>
      wait_for_fiber_suspended loads want i = Some (Inr False) \<and> spin_until loads want i = None)"
proof -
  have first: "\<exists>n \<ge> i. stops loads want n \<and> (\<forall>j. i \<le> j \<and> j < n \<longrightarrow> \<not> stops loads want j)"
    if "\<exists>n \<ge> i. stops loads want n"
  proof -
    define n where "n = (LEAST n. i \<le> n \<and> stops loads want n)"
    have "i \<le> n \<and> stops loads want n" unfolding n_def using that LeastI_ex [of "\<lambda>n. i \<le> n \<and> stops loads want n"] by blast
    moreover have "\<forall>j. i \<le> j \<and> j < n \<longrightarrow> \<not> stops loads want j" unfolding n_def using not_less_Least by blast
    ultimately show ?thesis by blast
  qed
  have val: "wait_for_fiber_suspended loads want i = Some (Inr (loads n = want))"
    if "n \<ge> i" "stops loads want n" "\<forall>j. i \<le> j \<and> j < n \<longrightarrow> \<not> stops loads want j" for n
    using wait_stop [of loads want i "n - i"] that by simp
  have 1: "wait_for_fiber_suspended loads want i = Some (Inr b) \<longleftrightarrow>
      (\<exists>n \<ge> i. stops loads want n \<and> (\<forall>j. i \<le> j \<and> j < n \<longrightarrow> \<not> stops loads want j) \<and> b = (loads n = want))"
  proof
    assume w: "wait_for_fiber_suspended loads want i = Some (Inr b)"
    obtain n where "n \<ge> i" "stops loads want n" "\<forall>j. i \<le> j \<and> j < n \<longrightarrow> \<not> stops loads want j"
      using first [OF wait_Some_stop [OF w]] by blast
    with val [OF this] w show "\<exists>n \<ge> i. stops loads want n \<and>
        (\<forall>j. i \<le> j \<and> j < n \<longrightarrow> \<not> stops loads want j) \<and> b = (loads n = want)"
      by auto
  next
    assume "\<exists>n \<ge> i. stops loads want n \<and>
        (\<forall>j. i \<le> j \<and> j < n \<longrightarrow> \<not> stops loads want j) \<and> b = (loads n = want)"
    with val show "wait_for_fiber_suspended loads want i = Some (Inr b)" by blast
  qed
  have 2: "wait_for_fiber_suspended loads want i = Some (Inr False) \<and> spin_until loads want i = None"
    if "\<forall>n \<ge> i. want < loads n"
  proof -
    have "stops loads want i" "loads i \<noteq> want" using that by (auto simp: stops_def)
    moreover have "\<forall>j. i \<le> j \<and> j < i \<longrightarrow> \<not> stops loads want j" by auto
    ultimately have "wait_for_fiber_suspended loads want i = Some (Inr False)" using val [of i] by simp
    moreover have "spin_until loads want i = None"
      using spin_Some_stop [of loads want i] that by (cases "spin_until loads want i") auto
    ultimately show ?thesis by simp
  qed
  from 1 2 show ?thesis by blast
qed

section \<open>Witnesses\<close>

theorem channel_refines_witness:
  "\<exists>w' ch'. impl_run (chan_exec demo_env) [PutOp 7, TakeOp, TakeOp, CloseOp] (world0, goc_chan_make 2)
      = Some (Inr ([Now 0 GOC_OK, Now 7 GOC_OK, Parked 1, Now 0 GOC_CLOSED], w', ch')) \<and> chan_ok w' ch' \<and> closed ch'"
proof -
  let ?cs = "[PutOp 7, TakeOp, TakeOp, CloseOp]"
  have e: "run_outs ?cs (1, view0 2) = [Now 0 GOC_OK, Now 7 GOC_OK, Parked 1, Now 0 GOC_CLOSED]"
    "vclosed (snd (run_end ?cs (1, view0 2)))"
    by (simp_all add: view0_def spec_put_def spec_take_def spec_close_def put_outcome_def take_outcome_def)
  obtain w' ch' where r: "impl_run (chan_exec demo_env) ?cs (world0, goc_chan_make 2)
      = Some (Inr (run_outs ?cs (next_ent world0, view0 2), w', ch'))" "chan_ok w' ch'"
      "view w' ch' = snd (run_end ?cs (next_ent world0, view0 2))"
    using channel_refines [of world0 2 demo_env ?cs] world0_ok(1) by auto
  have "closed ch'" using view_simps(5) [of w' ch'] e(2) unfolding r(3) world0_ok(2) by simp
  with r(1,2) show ?thesis unfolding world0_ok(2) e(1) by blast
qed




definition demo_env2 :: goc_env where
  "demo_env2 = \<lparr>user_data = \<lambda>c. 0, thread_count = \<lambda>_. 4, parked_loads = \<lambda>_ _. 4\<rparr>"

theorem park_generation_constant_witness:
  "\<exists>w' ch'. goc_take demo_env2 (Some 5) (Some 2) world0 (goc_chan_make 2) = Some (Inr (Parked 1, w', ch')) \<and>
      parked_gen (ents w' 1) = 1 \<and> want_of (ents w' 1) = 4"
proof -
  have "\<exists>w' ch'. goc_take demo_env2 (Some 5) (Some 2) world0 (goc_chan_make 2) = Some (Inr (Parked 1, w', ch'))"
    by (simp add: goc_take_def goc_chan_make_def compact_if_due_def GOC_DEAD_COUNT_THRESHOLD_def
        chan_take_from_buffer_def chan_take_from_putter_claim_def set_putters_def park_fiber_def alloc_entry_def
        world0_def)
  moreover have "parked (ents world0 (user_data demo_env2 5)) = 0" "user_data demo_env2 5 < next_ent world0"
    by (simp_all add: world0_def demo_env2_def entry_zero_def)
  ultimately show ?thesis using park_generation_constant [of world0 demo_env2 5 "Some 2" "goc_chan_make 2" 1] by blast
qed

theorem park_spin_ends_iff_witness:
  "wait_for_fiber_suspended (\<lambda>_. 6) 4 0 = Some (Inr False) \<and> spin_until (\<lambda>_. 6) 4 0 = None"
  using park_spin_ends_iff [of "\<lambda>_. 6" 4 0 False] by simp

end
