(* ===== verification/Goc_Take_All.thy ===== *)
theory Goc_Take_All
  imports Goc_Chan_Refine
begin

text \<open>
  Taking from a list of channels in turn (\<open>goc_take_all\<close>, \<open>goc_take_all_sync\<close>) and the close
  callback of channel.c. A take that parks stops the loop with the parked entry, the channels still
  to come and the results so far; the resumption stores the result and goes on.
\<close>

type_synonym take_all_state =
  "(nat \<times> nat list) option \<times> (ptr \<times> goc_status) list \<times> goc_world \<times> (nat \<Rightarrow> goc_chan)"

fun take_all_loop ::
  "(goc_world \<Rightarrow> goc_chan \<Rightarrow> (outcome \<times> goc_world \<times> goc_chan) out) \<Rightarrow> nat list \<Rightarrow> (ptr \<times> goc_status) list
   \<Rightarrow> goc_world \<Rightarrow> (nat \<Rightarrow> goc_chan) \<Rightarrow> take_all_state out" where
  "take_all_loop tk [] results w chs = Some (Inr (None, results, w, chs))"
| "take_all_loop tk (c # cs) results w chs =
     obind (tk w (chs c)) (\<lambda>(r, w1, ch).
     case r of
       Now v st \<Rightarrow> take_all_loop tk cs (results @ [(v, st)]) w1 (chs(c := ch))
     | Parked p \<Rightarrow> Some (Inr (Some (p, cs), results, w1, chs(c := ch))))"

definition goc_take_all ::
  "goc_env \<Rightarrow> nat option \<Rightarrow> nat option \<Rightarrow> nat list \<Rightarrow> goc_world \<Rightarrow> (nat \<Rightarrow> goc_chan) \<Rightarrow> take_all_state out" where
  "goc_take_all env self worker cs w chs = take_all_loop (goc_take env self worker) cs [] w chs"

definition goc_take_all_resume ::
  "goc_env \<Rightarrow> nat \<Rightarrow> nat option \<Rightarrow> nat \<Rightarrow> nat list \<Rightarrow> (ptr \<times> goc_status) list \<Rightarrow> goc_world
   \<Rightarrow> (nat \<Rightarrow> goc_chan) \<Rightarrow> take_all_state out" where
  "goc_take_all_resume env c worker p cs results w chs =
     (case goc_take_resume env c p w of (r, w1) \<Rightarrow>
        take_all_loop (goc_take env (Some c) worker) cs (results @ [r]) w1 chs)"

definition goc_take_all_sync ::
  "goc_env \<Rightarrow> nat option \<Rightarrow> nat list \<Rightarrow> goc_world \<Rightarrow> (nat \<Rightarrow> goc_chan) \<Rightarrow> take_all_state out" where
  "goc_take_all_sync env self cs w chs = take_all_loop (goc_take_sync env self) cs [] w chs"

text \<open>\<open>None\<close>: the thread still waits.\<close>

definition goc_take_all_sync_resume ::
  "goc_env \<Rightarrow> nat \<Rightarrow> nat list \<Rightarrow> (ptr \<times> goc_status) list \<Rightarrow> goc_world \<Rightarrow> (nat \<Rightarrow> goc_chan)
   \<Rightarrow> take_all_state out" where
  "goc_take_all_sync_resume env p cs results w chs =
     (case goc_take_sync_resume p w of
        None \<Rightarrow> None
      | Some r \<Rightarrow> take_all_loop (goc_take_sync env None) cs (results @ [r]) w chs)"

definition goc_close_cb ::
  "goc_env \<Rightarrow> bool \<Rightarrow> bool \<Rightarrow> goc_world \<Rightarrow> goc_chan option \<Rightarrow> (bool \<times> goc_world \<times> goc_chan option) out" where
  "goc_close_cb env on_loop running w ch = goc_close env on_loop running w ch"

text \<open>
  With a value stored on each of several channels, their values come back in the order of the
  channels, and each channel loses its oldest value.
\<close>

lemma take_all_loop_stored:
  assumes "distinct cs" "\<And>c. c \<in> set cs \<Longrightarrow> chan_ok w (chs c) \<and> items (view w (chs c)) = v c # r c"
    and "\<And>c ch ch'. chan_take_from_buffer ch = Inr (Some c, ch') \<Longrightarrow> tk w ch = Some (Inr (Now c GOC_OK, w, ch'))"
  shows "\<exists>chs'. take_all_loop tk cs results w chs
           = Some (Inr (None, results @ map (\<lambda>c. (v c, GOC_OK)) cs, w, chs'))
         \<and> (\<forall>c \<in> set cs. view w (chs' c) = (view w (chs c))\<lparr>items := r c\<rparr>)
         \<and> (\<forall>c. c \<notin> set cs \<longrightarrow> chs' c = chs c)"
  using assms(1,2)
proof (induction cs arbitrary: results chs)
  case (Cons c cs)
  have ok: "chan_ok w (chs c) \<and> items (view w (chs c)) = v c # r c" using Cons.prems(2) by simp
  obtain ch where ch: "chan_take_from_buffer (chs c) = Inr (Some (v c), ch)"
    "view w ch = (view w (chs c))\<lparr>items := r c\<rparr>"
    using take_buffer_view [OF conjunct1 [OF ok] conjunct2 [OF ok]] by blast
  have "\<exists>chs'. take_all_loop tk cs (results @ [(v c, GOC_OK)]) w (chs(c := ch))
           = Some (Inr (None, (results @ [(v c, GOC_OK)]) @ map (\<lambda>c. (v c, GOC_OK)) cs, w, chs'))
         \<and> (\<forall>d \<in> set cs. view w (chs' d) = (view w ((chs(c := ch)) d))\<lparr>items := r d\<rparr>)
         \<and> (\<forall>d. d \<notin> set cs \<longrightarrow> chs' d = (chs(c := ch)) d)"
    using Cons.prems by (intro Cons.IH) auto
  then obtain chs' where "take_all_loop tk cs (results @ [(v c, GOC_OK)]) w (chs(c := ch))
      = Some (Inr (None, results @ map (\<lambda>c. (v c, GOC_OK)) (c # cs), w, chs'))"
    "\<forall>d \<in> set cs. view w (chs' d) = (view w (chs d))\<lparr>items := r d\<rparr>"
    "\<forall>d. d \<notin> set cs \<longrightarrow> chs' d = (chs(c := ch)) d" using Cons.prems(1) by auto
  then show ?case using ch assms(3) Cons.prems(1) by (intro exI [of _ chs']) auto
qed auto

lemma take_all_sync_stored:
  assumes "distinct cs" "\<And>c. c \<in> set cs \<Longrightarrow> chan_ok w (chs c) \<and> items (view w (chs c)) = v c # r c"
  shows "\<exists>chs'. goc_take_all_sync env None cs w chs
           = Some (Inr (None, map (\<lambda>c. (v c, GOC_OK)) cs, w, chs'))
         \<and> (\<forall>c \<in> set cs. view w (chs' c) = (view w (chs c))\<lparr>items := r c\<rparr>)"
  using take_all_loop_stored [of cs w chs v r "goc_take_sync env None" "[]"] assms
  by (auto simp: goc_take_all_sync_def goc_take_sync_def)

end
