(* ===== verification/Goc_Dispatch.thy ===== *)
theory Goc_Dispatch
  imports Goc_Take_All
begin

text \<open>
  What the loop thread does with an entry it has taken off the callback queue (the body of the loop
  in \<open>drain_cb_queue\<close>, loop.c): carry out a pending channel operation, or call the callback of an
  entry that a waker has claimed. The properties follow a callback operation from the call to the
  callback.
\<close>

definition claimed_callback :: "goc_entry \<Rightarrow> (nat option \<times> ptr)" where
  "claimed_callback e =
     (case cb e of Some g \<Rightarrow> (Some g, cb_result e) | None \<Rightarrow> (put_cb e, put_val e))"

definition drain_entry :: "goc_env \<Rightarrow> nat \<Rightarrow> goc_world \<Rightarrow> goc_chan \<Rightarrow> (goc_world \<times> goc_chan) out" where
  "drain_entry env p w ch =
     (let e = ents w p in
      if kind e \<noteq> GOC_CALLBACK then Some (Inr (w, ch))
      else if pend_ch e \<and> \<not> woken e
      then (if is_put e then loop_process_pending_put env p w ch else loop_process_pending_take env p w ch)
      else case claimed_callback e of (f, v) \<Rightarrow> Some (Inr (finish_entry p f v (ok e) w, ch)))"

section \<open>Tasks for the loop thread\<close>

text \<open>
  \<open>post_on_loop\<close>: \<open>g\<close> is \<open>on_loop_task_cb\<close> and \<open>t\<close> the task with its function and argument, whose
  embedded entry is zero but for kind, callback and user data.
\<close>

definition loop_task_entry :: "nat \<Rightarrow> ptr \<Rightarrow> goc_entry" where
  "loop_task_entry g t = entry_zero\<lparr>kind := GOC_CALLBACK, cb := Some g, ud := t\<rparr>"

definition post_on_loop :: "bool \<Rightarrow> nat \<Rightarrow> ptr \<Rightarrow> goc_world \<Rightarrow> goc_world" where
  "post_on_loop running g t w =
     (if \<not> running then w
      else case alloc_entry (loop_task_entry g t) w of (p, w1) \<Rightarrow> POST_CALLBACK p NULL w1)"

text \<open>The code libuv gives \<open>UV_ECANCELED\<close> is an argument.\<close>

definition post_on_loop_checked :: "int \<Rightarrow> bool \<Rightarrow> nat \<Rightarrow> ptr \<Rightarrow> goc_world \<Rightarrow> int \<times> goc_world" where
  "post_on_loop_checked ecanceled running g t w =
     (if \<not> running then (ecanceled, w)
      else case alloc_entry (loop_task_entry g t) w of (p, w1) \<Rightarrow> (0, POST_CALLBACK p NULL w1))"

text \<open>
  A posted task runs once, and its block is not freed: neither the drain, which frees entries marked
  \<open>free_on_drain\<close>, nor the callback frees it.
\<close>

lemma loop_task_runs_once:
  "\<exists>w1 w2. post_on_loop_checked ecanceled True g t w = (0, w1) \<and> drain_entry env (next_ent w) w1 ch = Some (Inr (w2, ch))
     \<and> posts w2 = posts w @ [PostCallback (next_ent w), CallCb g NULL (ok entry_zero) t] \<and> freed w2 = freed w"
  by (simp add: post_on_loop_checked_def alloc_entry_def loop_task_entry_def POST_CALLBACK_def drain_entry_def
      claimed_callback_def finish_entry_def Let_def)
     (simp add: entry_zero_def log_post_def upd_ent_def)

section \<open>A parked callback\<close>

text \<open>The first drain of a take that finds nothing: the entry is parked and otherwise unchanged.\<close>

lemma pending_take_parks:
  assumes "chan_ok w ch" "all_ready env w ch" "pending env w ch p" "spec_take p (view w ch) = (TakeParks, y)"
  shows "\<exists>w' ch'. loop_process_pending_take env p w ch = Some (Inr (w', ch')) \<and> chan_ok w' ch' \<and> view w' ch' = y
      \<and> all_ready env w' ch' \<and> posts w' = posts w \<and> ents w' p = (ents w p)\<lparr>pend_ch := False\<rparr>"
proof -
  obtain w0 ch0 where k: "compact_if_due (upd_ent p (\<lambda>e. e\<lparr>pend_ch := False\<rparr>) w) ch = (w0, ch0)"
    "chan_ok w0 ch0" "view w0 ch0 = view w ch" "all_ready env w0 ch0"
    "ents w0 = (ents w)(p := (ents w p)\<lparr>pend_ch := False\<rparr>)" "posts w0 = posts w" "pending env w0 ch0 p"
    "next_ent w0 = next_ent w"
    by (rule pending_prep [OF assms(1,2,3)])
  have sp: "spec_take p (view w0 ch0) = (TakeParks, y)" using assms(4) k by simp
  from k(2,4) sp show ?thesis
  proof (cases rule: take_claim_cases)
    case (Empty ch1)
    have np: "p \<notin> set (takers ch1 @ putters ch1)" using k(7) Empty(8) by (auto simp: pending_def)
    have pe: "claimable w0 p" "entry_ok w0 p" "fired (ents w p) = None" "ready env w0 p"
      using k(7) assms(3) by (simp_all add: pending_def ready_def)
    have "all_ready env w0 (append_taker p ch1)"
      using all_ready_sub [OF k(4) Empty(8)] pe(4) unfolding all_ready_def append_taker_set [OF Empty(5)] by simp
    with Empty append_taker_ok [OF Empty(5) np pe(1,2)] show ?thesis
      by (simp add: loop_process_pending_take_def k(1,5,6) pe(3))
  qed simp_all
qed

lemma put_sync_to_callback:
  assumes "chan_ok w ch" "all_ready env w ch" "\<not> closed ch" "vtakers (view w ch) = (p, None, u) # ts"
    and "kind (ents w p) = GOC_CALLBACK"
  shows "\<exists>ch'. goc_put_sync env None v w ch = Some (Inr (Now NULL GOC_OK, POST_CALLBACK p v (delivered p v w), ch'))
      \<and> view (POST_CALLBACK p v (delivered p v w)) ch' = (view w ch)\<lparr>vtakers := ts\<rparr>"
proof -
  have d: "dispatched env p v (delivered p v w) = POST_CALLBACK p v (delivered p v w)"
    using assms(5) by (simp add: dispatched_def delivered_entry)
  have u: "ungroup None xs = xs" for xs :: "'a waiter list" by (simp add: ungroup_def)
  have u': "(view w ch)\<lparr>vtakers := ts, vputters := vputters (view w ch)\<rparr> = (view w ch)\<lparr>vtakers := ts\<rparr>"
    by simp
  from give_taker_some [OF assms(1,4) view_ready(1) [OF assms(2,4)], of v] show ?thesis
    using assms(3) by (auto simp: goc_put_sync_def d u u')
qed

lemma take_cb_pending:
  assumes "chan_ok w ch" "all_ready env w ch" "\<forall>c. user_data env c \<noteq> next_ent w" "goc_take_cb True (Some g) u w = Inr w1"
  shows "pending env w1 ch (next_ent w)" "chan_ok w1 ch" "all_ready env w1 ch" "view w1 ch = view w ch"
    "ents w1 (next_ent w) = take_cb_entry g u" "posts w1 = posts w @ [PostCallback (next_ent w)]"
proof -
  let ?p = "next_ent w"
  have w1: "w1 = POST_CALLBACK ?p NULL (w\<lparr>ents := (ents w)(?p := take_cb_entry g u), next_ent := Suc ?p,
      locals := (locals w)(?p := NULL)\<rparr>)"
    using assms(4) by (simp add: goc_take_cb_def alloc_entry_def goc_loop_submit_callback_if_running_def)
  have e: "ents w1 = (ents w)(?p := take_cb_entry g u)"
    by (simp add: w1 POST_CALLBACK_def take_cb_entry_def entry_zero_def)
  have f: "flags w1 = flags w" "freed w1 = freed w" "next_ent w1 = Suc ?p"
    by (simp_all add: w1 POST_CALLBACK_def log_post_def upd_ent_def)
  show "ents w1 ?p = take_cb_entry g u" by (simp add: e)
  show "posts w1 = posts w @ [PostCallback ?p]" by (simp add: w1 POST_CALLBACK_def log_post_def upd_ent_def)
  have lt: "q < ?p" if "q \<in> set (takers ch @ putters ch)" for q using assms(1) that by (auto simp: chan_ok_def entry_ok_def)
  have fr: "?p \<notin> set (freed w)" using assms(1) by (auto simp: chan_ok_def world_ok_def)
  have ag: "agree w w1 (set (takers ch @ putters ch))"
    using assms(1) lt by (auto simp: agree_def e f chan_ok_def world_ok_def)
  from agree_view [OF ag] assms(1) show "chan_ok w1 ch" "view w1 ch = view w ch" by auto
  show "pending env w1 ch ?p"
    using assms(3) lt fr by (auto simp: pending_def e f take_cb_entry_def entry_zero_def claimable_def entry_ok_def flag_ok_def)
  have "claimable w1 q = claimable w q \<and> ready env w1 q = ready env w q" if "q \<in> set (takers ch @ putters ch)" for q
    using lt [OF that] by (auto simp: claimable_def ready_def e f split: option.splits)
  then show "all_ready env w1 ch" using assms(2) by (auto simp: all_ready_def)
qed

text \<open>
  C24: A \<open>goc_take_cb\<close> on an empty channel ends in exactly one call of its callback with the value
  of the next put: the loop thread parks the entry, the put queues it for the loop thread again, and
  the second drain calls the callback with that value and success, frees the entry and leaves the
  channel as it was before.
\<close>

theorem take_cb_called_once:
  assumes "chan_ok w ch" "all_ready env w ch" "\<forall>c. user_data env c \<noteq> next_ent w"
    and "\<not> closed ch" "items (view w ch) = []" "vputters (view w ch) = []" "vtakers (view w ch) = []"
  shows "\<exists>w1 w2 ch2 w3 ch3 w4. goc_take_cb True (Some g) u w = Inr w1
      \<and> drain_entry env (next_ent w) w1 ch = Some (Inr (w2, ch2))
      \<and> goc_put_sync env None v w2 ch2 = Some (Inr (Now NULL GOC_OK, w3, ch3))
      \<and> drain_entry env (next_ent w) w3 ch3 = Some (Inr (w4, ch3))
      \<and> posts w4 = posts w @ [PostCallback (next_ent w), PostCallback (next_ent w), CallCb g v GOC_OK u]
      \<and> next_ent w \<in> set (freed w4) \<and> view w4 ch3 = view w ch"
proof -
  let ?p = "next_ent w"
  obtain w1 where w1: "goc_take_cb True (Some g) u w = Inr w1"
    by (simp add: goc_take_cb_def alloc_entry_def goc_loop_submit_callback_if_running_def)
  note t = take_cb_pending [OF assms(1-3) w1]
  have sp: "spec_take ?p (view w1 ch) = (TakeParks, (view w ch)\<lparr>vtakers := [(?p, None, ())]\<rparr>)"
    using assms(4-7) by (simp add: spec_take_def t(4))
  obtain w2 ch2 where p2: "loop_process_pending_take env ?p w1 ch = Some (Inr (w2, ch2))" "chan_ok w2 ch2"
    "view w2 ch2 = (view w ch)\<lparr>vtakers := [(?p, None, ())]\<rparr>" "all_ready env w2 ch2" "posts w2 = posts w1"
    "ents w2 ?p = (take_cb_entry g u)\<lparr>pend_ch := False\<rparr>"
    using pending_take_parks [OF t(2,3,1) sp] t(5) by auto
  have d2: "drain_entry env ?p w1 ch = Some (Inr (w2, ch2))"
    by (simp add: drain_entry_def t(5)) (simp add: p2(1) take_cb_entry_def entry_zero_def)
  let ?w3 = "POST_CALLBACK ?p v (delivered ?p v w2)"
  have "\<not> closed ch2" "vtakers (view w2 ch2) = [(?p, None, ())]" "kind (ents w2 ?p) = GOC_CALLBACK"
    using assms(4) view_simps(5) [of w2 ch2] by (simp_all add: p2(3,6) take_cb_entry_def)
  from put_sync_to_callback [OF p2(2,4) this] obtain ch3 where p3:
    "goc_put_sync env None v w2 ch2 = Some (Inr (Now NULL GOC_OK, ?w3, ch3))" "view ?w3 ch3 = (view w2 ch2)\<lparr>vtakers := []\<rparr>"
    by blast
  have e3: "ents ?w3 ?p = (take_cb_entry g u)\<lparr>pend_ch := False, woken := True, ok := GOC_OK, cb_result := v\<rparr>"
    by (simp add: POST_CALLBACK_def delivered_entry p2(6) take_cb_entry_def)
  let ?w4 = "finish_entry ?p (Some g) v GOC_OK ?w3"
  have d4: "drain_entry env ?p ?w3 ch3 = Some (Inr (?w4, ch3))"
    by (simp add: drain_entry_def e3) (simp add: take_cb_entry_def claimed_callback_def)
  have "posts (delivered ?p v w2) = posts w2" by (rule delivered_result)
  then have "posts ?w3 = posts w2 @ [PostCallback ?p]" by (simp add: POST_CALLBACK_def log_post_def upd_ent_def)
  then have "posts ?w4 = posts w @ [PostCallback ?p, PostCallback ?p, CallCb g v GOC_OK u]" "?p \<in> set (freed ?w4)"
    by (simp_all add: finish_entry_def Let_def e3 log_post_def p2(5) t(6)) (simp_all add: take_cb_entry_def entry_zero_def)
  moreover have "view ?w4 ch3 = view w ch"
  proof -
    have eq: "ents ?w4 = ents ?w3" "flags ?w4 = flags ?w3" by (simp_all add: finish_entry_def Let_def)
    have "claimable ?w4 = claimable ?w3" by (intro ext) (simp only: claimable_def eq)
    then have "view ?w4 ch3 = view ?w3 ch3" by (simp only: view_def waiters_def eq)
    then show ?thesis using assms(7) by (simp add: p3(2) p2(3))
  qed
  ultimately show ?thesis using w1 d2 p3(1) d4 by blast
qed

lemma empty_chan_facts:
  "chan_ok (demo_world\<lparr>next_ent := 6\<rparr>) (goc_chan_make 3)" "all_ready demo_env (demo_world\<lparr>next_ent := 6\<rparr>) (goc_chan_make 3)"
  by (simp_all add: chan_ok_def all_ready_def demo_world_def goc_chan_make_def world_ok_def ring_ok_def slots_eq tail_ok_def)

theorem take_cb_called_once_witness:
  "\<exists>w1 w2 ch2 w3 ch3 w4. goc_take_cb True (Some 1) 4 (demo_world\<lparr>next_ent := 6\<rparr>) = Inr w1
      \<and> drain_entry demo_env 6 w1 (goc_chan_make 3) = Some (Inr (w2, ch2))
      \<and> goc_put_sync demo_env None 9 w2 ch2 = Some (Inr (Now NULL GOC_OK, w3, ch3))
      \<and> drain_entry demo_env 6 w3 ch3 = Some (Inr (w4, ch3))
      \<and> posts w4 = [PostCallback 6, PostCallback 6, CallCb 1 9 GOC_OK 4]"
proof -
  have "\<forall>c. user_data demo_env c \<noteq> next_ent (demo_world\<lparr>next_ent := 6\<rparr>)" by (simp add: demo_env_def)
  moreover have "\<not> closed (goc_chan_make 3)" "items (view (demo_world\<lparr>next_ent := 6\<rparr>) (goc_chan_make 3)) = []"
    "vputters (view (demo_world\<lparr>next_ent := 6\<rparr>) (goc_chan_make 3)) = []"
    "vtakers (view (demo_world\<lparr>next_ent := 6\<rparr>) (goc_chan_make 3)) = []"
    by (simp_all add: goc_chan_make_def ring_list_def)
  ultimately show ?thesis
    using take_cb_called_once [OF empty_chan_facts, of 1 4 9] by (simp add: demo_world_def) blast
qed

end
