(* ===== verification/Goc_Alts.thy ===== *)
theory Goc_Alts
  imports Goc_Chan_Run
begin

text \<open>
  Select (\<open>alts.c\<close>): the pseudo-random order of the arms, the non-blocking scan, the order in
  which the channel locks are taken, the re-scan and the parking under all locks, and what happens
  on resumption, for fibers (\<open>goc_alts\<close>) and OS threads (\<open>goc_alts_sync\<close>). The channels live in
  a store \<open>cs\<close> from addresses to channels.
\<close>

section \<open>Arms\<close>

datatype goc_alt_kind = GOC_ALT_TAKE | GOC_ALT_PUT | GOC_ALT_DEFAULT

record goc_alt_op =
  alt_ch :: nat
  op_kind :: goc_alt_kind
  alt_put_val :: ptr

text \<open>A result: the channel of the arm (0 for the default arm), the value and the status.\<close>

type_synonym alts_result = "nat \<times> ptr \<times> goc_status"

section \<open>The order of the arms\<close>

definition alts_lcg_rand :: "32 word \<Rightarrow> 32 word \<times> 32 word" where
  "alts_lcg_rand state =
     (let s = state * 1103515245 + 12345 in (drop_bit 16 s AND 0x7fffffff, s))"

definition swap_at :: "nat \<Rightarrow> nat \<Rightarrow> 'a list \<Rightarrow> 'a list" where
  "swap_at i j xs = xs[i := xs ! j, j := xs ! i]"

fun shuffle_loop :: "nat \<Rightarrow> 32 word \<Rightarrow> nat list \<Rightarrow> nat list" where
  "shuffle_loop 0 seed xs = xs"
| "shuffle_loop (Suc i) seed xs =
     (case alts_lcg_rand seed of (r, seed1) \<Rightarrow>
      shuffle_loop i seed1 (swap_at (Suc i) (unat r mod (Suc i + 1)) xs))"

text \<open>The global seed counter is passed and returned; it is not touched for fewer than two arms.\<close>

definition alts_shuffle :: "32 word \<Rightarrow> nat list \<Rightarrow> 32 word \<times> nat list" where
  "alts_shuffle g xs =
     (if length xs < 2 then (g, xs) else (g + 1, shuffle_loop (length xs - 1) g xs))"

fun index_loop ::
  "string \<Rightarrow> goc_alt_op list \<Rightarrow> nat \<Rightarrow> nat list \<Rightarrow> nat option \<Rightarrow> (nat list \<times> nat option) res" where
  "index_loop msg [] i idx d = Inr (idx, d)"
| "index_loop msg (a # ops) i idx d =
     (if op_kind a = GOC_ALT_DEFAULT
      then (if d \<noteq> None then Inl (Abort msg) else index_loop msg ops (Suc i) idx (Some i))
      else index_loop msg ops (Suc i) (idx @ [i]) d)"

definition alts_build_index_array ::
  "string \<Rightarrow> 32 word \<Rightarrow> goc_alt_op list \<Rightarrow> (32 word \<times> nat list \<times> nat option) res" where
  "alts_build_index_array msg g ops =
     rbind (index_loop msg ops 0 [] None) (\<lambda>(idx, d).
     case alts_shuffle g idx of (g1, idx1) \<Rightarrow> Inr (g1, idx1, d))"

section \<open>The scans\<close>

text \<open>One arm of the scan without the locks of the others: a put tries the buffer first.\<close>

definition try_arm ::
  "goc_env \<Rightarrow> goc_alt_op \<Rightarrow> goc_world \<Rightarrow> goc_chan \<Rightarrow> ((ptr \<times> goc_status) option \<times> goc_world \<times> goc_chan) out" where
  "try_arm env a w ch =
     (if op_kind a = GOC_ALT_TAKE
      then
        obind (Some (chan_take_from_buffer ch)) (\<lambda>(v, ch1).
        case v of
          Some x \<Rightarrow> Some (Inr (Some (x, GOC_OK), w, ch1))
        | None \<Rightarrow>
            obind (chan_take_from_putter env w ch1) (\<lambda>(r, w1, ch2).
            case r of
              Some x \<Rightarrow> Some (Inr (Some (x, GOC_OK), w1, ch2))
            | None \<Rightarrow>
                if closed ch2 \<and> buf_count ch2 = 0 then Some (Inr (Some (NULL, GOC_CLOSED), w1, ch2))
                else Some (Inr (None, w1, ch2))))
      else
        if closed ch then Some (Inr (Some (NULL, GOC_CLOSED), w, ch))
        else
          obind (Some (chan_put_to_buffer (alt_put_val a) ch)) (\<lambda>(stored, ch1).
          if stored then Some (Inr (Some (NULL, GOC_OK), w, ch1))
          else
            obind (chan_put_to_taker env (alt_put_val a) w ch1) (\<lambda>(given, w1, ch2).
            Some (Inr (if given then Some (NULL, GOC_OK) else None, w1, ch2)))))"

text \<open>One arm of the re-scan under all locks: a put tries the takers first.\<close>

definition rescan_arm ::
  "goc_env \<Rightarrow> goc_alt_op \<Rightarrow> goc_world \<Rightarrow> goc_chan \<Rightarrow> ((ptr \<times> goc_status) option \<times> goc_world \<times> goc_chan) out" where
  "rescan_arm env a w ch =
     (if op_kind a = GOC_ALT_TAKE
      then try_arm env a w ch
      else
        if closed ch then Some (Inr (Some (NULL, GOC_CLOSED), w, ch))
        else
          obind (chan_put_to_taker env (alt_put_val a) w ch) (\<lambda>(given, w1, ch1).
          if given then Some (Inr (Some (NULL, GOC_OK), w1, ch1))
          else
            obind (Some (chan_put_to_buffer (alt_put_val a) ch1)) (\<lambda>(stored, ch2).
            Some (Inr (if stored then Some (NULL, GOC_OK) else None, w1, ch2)))))"

fun arm_loop ::
  "(goc_alt_op \<Rightarrow> goc_world \<Rightarrow> goc_chan \<Rightarrow> ((ptr \<times> goc_status) option \<times> goc_world \<times> goc_chan) out)
   \<Rightarrow> goc_alt_op list \<Rightarrow> goc_world \<Rightarrow> (nat \<Rightarrow> goc_chan)
   \<Rightarrow> (alts_result option \<times> goc_world \<times> (nat \<Rightarrow> goc_chan)) out" where
  "arm_loop f [] w cs = Some (Inr (None, w, cs))"
| "arm_loop f (a # as) w cs =
     obind (f a w (cs (alt_ch a))) (\<lambda>(r, w1, ch1).
     case r of
       Some v \<Rightarrow> Some (Inr (Some (alt_ch a, v), w1, cs(alt_ch a := ch1)))
     | None \<Rightarrow> arm_loop f as w1 (cs(alt_ch a := ch1)))"

definition alts_try_immediate ::
  "goc_env \<Rightarrow> goc_alt_op list \<Rightarrow> nat list \<Rightarrow> goc_world \<Rightarrow> (nat \<Rightarrow> goc_chan)
   \<Rightarrow> (alts_result option \<times> goc_world \<times> (nat \<Rightarrow> goc_chan)) out" where
  "alts_try_immediate env ops idx w cs = arm_loop (try_arm env) (map ((!) ops) idx) w cs"

definition alts_rescan ::
  "goc_env \<Rightarrow> goc_alt_op list \<Rightarrow> nat list \<Rightarrow> goc_world \<Rightarrow> (nat \<Rightarrow> goc_chan)
   \<Rightarrow> (alts_result option \<times> goc_world \<times> (nat \<Rightarrow> goc_chan)) out" where
  "alts_rescan env ops idx w cs = arm_loop (rescan_arm env) (map ((!) ops) idx) w cs"

section \<open>The order of the locks\<close>

text \<open>The insertion sort shifts the elements above the key from the right.\<close>

definition insert_right :: "nat \<Rightarrow> nat list \<Rightarrow> nat list" where
  "insert_right key xs =
     rev (dropWhile (\<lambda>x. key < x) (rev xs)) @ key # rev (takeWhile (\<lambda>x. key < x) (rev xs))"

fun dedup_loop :: "nat \<Rightarrow> nat list \<Rightarrow> nat list" where
  "dedup_loop prev [] = []"
| "dedup_loop prev (x # xs) = (if x \<noteq> prev then x # dedup_loop x xs else dedup_loop prev xs)"

definition alts_collect :: "goc_alt_op list \<Rightarrow> nat list" where
  "alts_collect ops = map alt_ch (filter (\<lambda>a. \<not> (op_kind a = GOC_ALT_DEFAULT \<or> alt_ch a = 0)) ops)"

definition alts_dedup_sort_channels :: "goc_alt_op list \<Rightarrow> nat list" where
  "alts_dedup_sort_channels ops =
     (case foldl (\<lambda>acc key. insert_right key acc) [] (alts_collect ops) of
        [] \<Rightarrow> []
      | x # xs \<Rightarrow> x # dedup_loop x xs)"

section \<open>Parking\<close>

text \<open>The entries of the arms are numbered consecutively; the shared flag (and the shared
  semaphore of a thread) has the number of the first.\<close>

definition alts_fiber_entry :: "goc_env \<Rightarrow> nat \<Rightarrow> nat \<Rightarrow> 64 word \<Rightarrow> goc_alt_op list \<Rightarrow> nat \<Rightarrow> goc_world \<Rightarrow> goc_entry" where
  "alts_fiber_entry env c f gen ops i w =
     entry_zero\<lparr>kind := GOC_FIBER, fired := Some f, pool := pool (ents w (user_data env c)), coro := c,
       ok := GOC_CLOSED, arm_idx := i,
       result_slot := (if op_kind (ops ! i) = GOC_ALT_TAKE then OwnResult else NoSlot),
       put_val := (if op_kind (ops ! i) = GOC_ALT_TAKE then NULL else alt_put_val (ops ! i)),
       parked_gen := gen\<rparr>"

definition alts_sync_entry :: "nat \<Rightarrow> goc_alt_op list \<Rightarrow> nat \<Rightarrow> goc_entry" where
  "alts_sync_entry f ops i =
     entry_zero\<lparr>kind := GOC_SYNC, fired := Some f, ok := GOC_CLOSED, arm_idx := i, sync_sem_ptr := f,
       result_slot := OwnResult,
       put_val := (if op_kind (ops ! i) = GOC_ALT_TAKE then NULL else alt_put_val (ops ! i))\<rparr>"

fun alts_alloc :: "(nat \<Rightarrow> goc_entry) \<Rightarrow> nat list \<Rightarrow> goc_world \<Rightarrow> nat list \<times> goc_world" where
  "alts_alloc mk [] w = ([], w)"
| "alts_alloc mk (i # idx) w =
     (case alloc_entry (mk i) w of (p, w1) \<Rightarrow>
      case alts_alloc mk idx w1 of (ps, w2) \<Rightarrow> (p # ps, w2))"

definition enqueue_arm :: "goc_alt_op \<Rightarrow> nat \<Rightarrow> (nat \<Rightarrow> goc_chan) \<Rightarrow> (nat \<Rightarrow> goc_chan)" where
  "enqueue_arm a p cs =
     cs(alt_ch a := (if op_kind a = GOC_ALT_TAKE then append_taker p (cs (alt_ch a))
                     else append_putter p (cs (alt_ch a))))"

fun alts_enqueue :: "goc_alt_op list \<Rightarrow> nat list \<Rightarrow> (nat \<Rightarrow> goc_chan) \<Rightarrow> (nat \<Rightarrow> goc_chan)" where
  "alts_enqueue (a # as) (p # ps) cs = alts_enqueue as ps (enqueue_arm a p cs)"
| "alts_enqueue _ _ cs = cs"

definition alts_park_fiber ::
  "goc_env \<Rightarrow> nat \<Rightarrow> goc_alt_op list \<Rightarrow> nat list \<Rightarrow> goc_world \<Rightarrow> (nat \<Rightarrow> goc_chan)
   \<Rightarrow> nat list \<times> goc_world \<times> (nat \<Rightarrow> goc_chan)" where
  "alts_park_fiber env c ops idx w cs =
     (let f = next_ent w; self = user_data env c; gen = park_gen (parked (ents w self)) in
      case alts_alloc (\<lambda>i. alts_fiber_entry env c f gen ops i w) idx
             (w\<lparr>flags := (flags w)(f := False)\<rparr>) of
        (ps, w1) \<Rightarrow>
          (ps, upd_ent self (\<lambda>e. e\<lparr>parked := push_bit 1 gen OR 1\<rparr>) w1,
           alts_enqueue (map ((!) ops) idx) ps cs))"

definition alts_park_sync ::
  "goc_alt_op list \<Rightarrow> nat list \<Rightarrow> goc_world \<Rightarrow> (nat \<Rightarrow> goc_chan)
   \<Rightarrow> nat list \<times> goc_world \<times> (nat \<Rightarrow> goc_chan)" where
  "alts_park_sync ops idx w cs =
     (let f = next_ent w in
      case alts_alloc (alts_sync_entry f ops) idx
             (goc_sync_init f (w\<lparr>flags := (flags w)(f := False)\<rparr>)) of
        (ps, w1) \<Rightarrow> (ps, w1, alts_enqueue (map ((!) ops) idx) ps cs))"

section \<open>The whole select\<close>

datatype alts_outcome = AltNow alts_result | AltParked "nat list"

text \<open>
  What both variants do up to parking; \<open>park\<close> is the variant's own.  \<open>alts_fast\<close> takes the
  locks of the channels one at a time, \<open>alts_slow\<close> holds all of them, and other operations may
  come between the two; \<open>alts_body\<close> is a call in which none does.
\<close>

definition alts_fast ::
  "string \<Rightarrow> goc_env \<Rightarrow> 32 word \<Rightarrow> goc_alt_op list \<Rightarrow> goc_world \<Rightarrow> (nat \<Rightarrow> goc_chan)
   \<Rightarrow> (alts_result option \<times> nat list \<times> 32 word \<times> goc_world \<times> (nat \<Rightarrow> goc_chan)) out" where
  "alts_fast msg env g ops w cs =
     obind (Some (alts_build_index_array msg g ops)) (\<lambda>(g1, idx, d).
     obind (alts_try_immediate env ops idx w cs) (\<lambda>(r, w1, cs1).
     case r of
       Some res \<Rightarrow> Some (Inr (Some res, idx, g1, w1, cs1))
     | None \<Rightarrow>
         case d of
           Some i \<Rightarrow> Some (Inr (Some (alt_ch (ops ! i), NULL, GOC_OK), idx, g1, w1, cs1))
         | None \<Rightarrow> Some (Inr (None, idx, g1, w1, cs1))))"

definition alts_slow ::
  "goc_env \<Rightarrow>
   (goc_alt_op list \<Rightarrow> nat list \<Rightarrow> goc_world \<Rightarrow> (nat \<Rightarrow> goc_chan) \<Rightarrow> nat list \<times> goc_world \<times> (nat \<Rightarrow> goc_chan))
   \<Rightarrow> goc_alt_op list \<Rightarrow> nat list \<Rightarrow> goc_world \<Rightarrow> (nat \<Rightarrow> goc_chan)
   \<Rightarrow> (alts_outcome \<times> goc_world \<times> (nat \<Rightarrow> goc_chan)) out" where
  "alts_slow env park ops idx w cs =
     obind (alts_rescan env ops idx w cs) (\<lambda>(r, w1, cs1).
     case r of
       Some res \<Rightarrow> Some (Inr (AltNow res, w1, cs1))
     | None \<Rightarrow> (case park ops idx w1 cs1 of (ps, w2, cs2) \<Rightarrow> Some (Inr (AltParked ps, w2, cs2))))"

definition alts_body ::
  "string \<Rightarrow> goc_env \<Rightarrow>
   (goc_alt_op list \<Rightarrow> nat list \<Rightarrow> goc_world \<Rightarrow> (nat \<Rightarrow> goc_chan) \<Rightarrow> nat list \<times> goc_world \<times> (nat \<Rightarrow> goc_chan))
   \<Rightarrow> 32 word \<Rightarrow> goc_alt_op list \<Rightarrow> goc_world \<Rightarrow> (nat \<Rightarrow> goc_chan)
   \<Rightarrow> (alts_outcome \<times> 32 word \<times> goc_world \<times> (nat \<Rightarrow> goc_chan)) out" where
  "alts_body msg env park g ops w cs =
     obind (alts_fast msg env g ops w cs) (\<lambda>(r, idx, g1, w1, cs1).
     case r of
       Some res \<Rightarrow> Some (Inr (AltNow res, g1, w1, cs1))
     | None \<Rightarrow>
         obind (alts_slow env park ops idx w1 cs1) (\<lambda>(out, w2, cs2). Some (Inr (out, g1, w2, cs2))))"

definition goc_alts ::
  "goc_env \<Rightarrow> nat option \<Rightarrow> 32 word \<Rightarrow> goc_alt_op list \<Rightarrow> goc_world \<Rightarrow> (nat \<Rightarrow> goc_chan)
   \<Rightarrow> (alts_outcome \<times> 32 word \<times> goc_world \<times> (nat \<Rightarrow> goc_chan)) out" where
  "goc_alts env self g ops w cs =
     (case self of
        None \<Rightarrow> Some (Inl (Abort ''goc_alts: cannot be called from OS thread (not in fiber context)''))
      | Some c \<Rightarrow> alts_body ''goc_alts: more than one default arm provided'' env (alts_park_fiber env c) g ops w cs)"

definition goc_alts_sync ::
  "goc_env \<Rightarrow> nat option \<Rightarrow> 32 word \<Rightarrow> goc_alt_op list \<Rightarrow> goc_world \<Rightarrow> (nat \<Rightarrow> goc_chan)
   \<Rightarrow> (alts_outcome \<times> 32 word \<times> goc_world \<times> (nat \<Rightarrow> goc_chan)) out" where
  "goc_alts_sync env self g ops w cs =
     (case self of
        Some c \<Rightarrow> Some (Inl (Abort ''goc_alts_sync: cannot be called from fiber context''))
      | None \<Rightarrow> alts_body ''goc_alts_sync: more than one default arm provided'' env alts_park_sync g ops w cs)"

text \<open>On resumption the losers are cancelled and the winner is the last woken entry.\<close>

fun alts_cancel :: "nat list \<Rightarrow> goc_world \<Rightarrow> nat option \<Rightarrow> nat option \<times> goc_world" where
  "alts_cancel [] w winner = (winner, w)"
| "alts_cancel (p # ps) w winner =
     (if woken (ents w p) then alts_cancel ps w (Some p)
      else alts_cancel ps (upd_ent p (\<lambda>e. e\<lparr>cancelled := True\<rparr>) w) winner)"

definition alts_finish :: "string \<Rightarrow> goc_alt_op list \<Rightarrow> nat list \<Rightarrow> goc_world \<Rightarrow> (alts_result \<times> goc_world) res" where
  "alts_finish msg ops ps w =
     (case alts_cancel ps w None of
        (None, w1) \<Rightarrow> Inl (Abort msg)
      | (Some p, w1) \<Rightarrow>
          let e = ents w1 p in
          Inr ((alt_ch (ops ! arm_idx e),
                case result_slot e of OwnResult \<Rightarrow> cb_result e | LocalSlot i \<Rightarrow> locals w1 i | NoSlot \<Rightarrow> NULL,
                ok e), w1))"

definition goc_alts_resume ::
  "goc_env \<Rightarrow> nat \<Rightarrow> goc_alt_op list \<Rightarrow> nat list \<Rightarrow> goc_world \<Rightarrow> (alts_result \<times> goc_world) res" where
  "goc_alts_resume env c ops ps w =
     alts_finish ''goc_alts: no winner after wake'' ops ps (resume_fiber env c w)"

text \<open>The thread behind \<open>goc_sync_wait\<close>: \<open>None\<close> while it is blocked.\<close>

definition goc_alts_sync_resume ::
  "goc_alt_op list \<Rightarrow> nat \<Rightarrow> nat list \<Rightarrow> goc_world \<Rightarrow> (alts_result \<times> goc_world) out" where
  "goc_alts_sync_resume ops sem ps w =
     (case goc_sync_wait sem w of
        None \<Rightarrow> None
      | Some w1 \<Rightarrow> Some (alts_finish ''goc_alts_sync: no winner after wake'' ops ps w1))"

end
