(* ===== verification/Goc_Alts_Props.thy ===== *)
theory Goc_Alts_Props
  imports Goc_Alts
begin

text \<open>
  Select is correct: the arms are tried in some order of all of them, locks are taken in an order
  that cannot deadlock, a parked select is won by one arm whose value it returns, and what the two
  scans do differently.
\<close>

section \<open>The order of the arms\<close>

lemma mset_swap_at: "\<lbrakk>i < length xs; j < length xs\<rbrakk> \<Longrightarrow> mset (swap_at i j xs) = mset xs"
  using mset_swap [of j xs i] by (simp add: swap_at_def)

lemma length_swap_at [simp]: "length (swap_at i j xs) = length xs"
  by (simp add: swap_at_def)

lemma mset_shuffle_loop: "i < length xs \<Longrightarrow> mset (shuffle_loop i seed xs) = mset xs"
proof (induction i seed xs rule: shuffle_loop.induct)
  case (2 i seed xs)
  obtain r s where r: "alts_lcg_rand seed = (r, s)" by fastforce
  have "unat r mod (Suc i + 1) < length xs" using 2(2) mod_less_divisor [of "Suc i + 1" "unat r"] by linarith
  with 2 r show ?case by (simp add: mset_swap_at)
qed simp

lemma mset_alts_shuffle: "alts_shuffle g xs = (g', ys) \<Longrightarrow> mset ys = mset xs"
  by (auto simp: alts_shuffle_def mset_shuffle_loop split: if_splits)

definition arms_of :: "(goc_alt_kind \<Rightarrow> bool) \<Rightarrow> goc_alt_op list \<Rightarrow> nat \<Rightarrow> nat list" where
  "arms_of P ops k = map fst (filter (\<lambda>(i, a). P (op_kind a)) (zip [k..<k + length ops] ops))"

lemma arms_of_simps:
  "arms_of P [] k = []"
  "arms_of P (a # ops) k = (if P (op_kind a) then [k] else []) @ arms_of P ops (Suc k)"
  by (simp_all add: arms_of_def upt_conv_Cons del: upt_Suc)

lemma index_loop_ok:
  "length (arms_of (\<lambda>k. k = GOC_ALT_DEFAULT) ops i) + (if d = None then 0 else 1) \<le> 1 \<Longrightarrow>
   index_loop msg ops i idx d = Inr (idx @ arms_of (\<lambda>k. k \<noteq> GOC_ALT_DEFAULT) ops i,
     case arms_of (\<lambda>k. k = GOC_ALT_DEFAULT) ops i of [] \<Rightarrow> d | j # js \<Rightarrow> Some j)"
proof (induction ops arbitrary: i idx d)
  case (Cons a ops)
  show ?case
  proof (cases "op_kind a = GOC_ALT_DEFAULT")
    case True
    then have "arms_of (\<lambda>k. k = GOC_ALT_DEFAULT) ops (Suc i) = []" "d = None"
      using Cons.prems by (auto simp: arms_of_simps split: if_splits)
    with True Cons.IH [of "Suc i" "Some i" idx] show ?thesis by (simp add: arms_of_simps)
  next
    case False
    with Cons.IH [of "Suc i" d "idx @ [i]"] Cons.prems show ?thesis by (simp add: arms_of_simps)
  qed
qed (simp add: arms_of_simps)

lemma index_loop_abort:
  "1 < length (arms_of (\<lambda>k. k = GOC_ALT_DEFAULT) ops i) + (if d = None then 0 else 1) \<Longrightarrow>
   length (arms_of (\<lambda>k. k = GOC_ALT_DEFAULT) ops i) \<noteq> 0 \<Longrightarrow> index_loop msg ops i idx d = Inl (Abort msg)"
proof (induction ops arbitrary: i idx d)
  case (Cons a ops)
  show ?case
  proof (cases "op_kind a = GOC_ALT_DEFAULT \<and> d \<noteq> None")
    case False
    show ?thesis
    proof (cases "op_kind a = GOC_ALT_DEFAULT")
      case True
      with False Cons.IH [of "Suc i" "Some i" idx] Cons.prems show ?thesis
        by (auto simp: arms_of_simps)
    next
      case nd: False
      with Cons.IH [of "Suc i" d "idx @ [i]"] Cons.prems show ?thesis by (simp add: arms_of_simps)
    qed
  qed auto
qed (simp add: arms_of_simps)

text \<open>
  The order in which the arms are tried is a permutation of all the arms that are not the
  default arm, whatever the seed; the default arm is found if there is one, and a second default
  arm aborts the process.
\<close>

theorem alts_order_permutes:
  "alts_build_index_array msg g ops =
     (if length (arms_of (\<lambda>k. k = GOC_ALT_DEFAULT) ops 0) \<le> 1
      then Inr (fst (alts_shuffle g (arms_of (\<lambda>k. k \<noteq> GOC_ALT_DEFAULT) ops 0)),
                snd (alts_shuffle g (arms_of (\<lambda>k. k \<noteq> GOC_ALT_DEFAULT) ops 0)),
                case arms_of (\<lambda>k. k = GOC_ALT_DEFAULT) ops 0 of [] \<Rightarrow> None | j # js \<Rightarrow> Some j)
      else Inl (Abort msg)) \<and>
   mset (snd (alts_shuffle g xs)) = mset xs"
proof -
  have "mset (snd (alts_shuffle g xs)) = mset xs"
    using mset_alts_shuffle [of g xs] by (cases "alts_shuffle g xs") simp
  moreover have "alts_build_index_array msg g ops =
     (if length (arms_of (\<lambda>k. k = GOC_ALT_DEFAULT) ops 0) \<le> 1
      then Inr (fst (alts_shuffle g (arms_of (\<lambda>k. k \<noteq> GOC_ALT_DEFAULT) ops 0)),
                snd (alts_shuffle g (arms_of (\<lambda>k. k \<noteq> GOC_ALT_DEFAULT) ops 0)),
                case arms_of (\<lambda>k. k = GOC_ALT_DEFAULT) ops 0 of [] \<Rightarrow> None | j # js \<Rightarrow> Some j)
      else Inl (Abort msg))"
  proof (cases "length (arms_of (\<lambda>k. k = GOC_ALT_DEFAULT) ops 0) \<le> 1")
    case True
    then show ?thesis using index_loop_ok [of ops 0 None msg "[]"]
      by (simp add: alts_build_index_array_def split: prod.splits)
  next
    case False
    then have "index_loop msg ops 0 [] None = Inl (Abort msg)" by (intro index_loop_abort) auto
    with False show ?thesis by (simp add: alts_build_index_array_def)
  qed
  ultimately show ?thesis by simp
qed

section \<open>The order of the locks\<close>

lemma takeWhile_dropWhile_desc:
  assumes "sorted_wrt (\<ge>) (xs :: nat list)"
  shows "\<forall>x \<in> set (dropWhile (\<lambda>x. key < x) xs). x \<le> key"
  using assms by (induction xs) auto

lemma insert_right_sorted:
  assumes "sorted xs"
  shows "sorted (insert_right key xs) \<and> mset (insert_right key xs) = add_mset key (mset xs)"
proof -
  let ?d = "dropWhile (\<lambda>x. key < x) (rev xs)" and ?t = "takeWhile (\<lambda>x. key < x) (rev xs)"
  have desc: "sorted_wrt (\<ge>) (rev xs)" using assms by (simp add: sorted_wrt_rev)
  have eq: "rev ?d @ rev ?t = xs" by (simp flip: rev_append)
  then have s: "sorted (rev ?d)" "sorted (rev ?t)" "\<forall>a \<in> set ?d. \<forall>b \<in> set ?t. a \<le> b"
    using assms sorted_append [of "rev ?d" "rev ?t"] by auto
  have "\<forall>x \<in> set ?d. x \<le> key" using takeWhile_dropWhile_desc [OF desc] .
  moreover have "\<forall>x \<in> set ?t. key \<le> x" by (auto dest: set_takeWhileD)
  ultimately have "sorted (insert_right key xs)" using s by (auto simp: insert_right_def sorted_append)
  moreover have "mset (insert_right key xs) = add_mset key (mset (rev ?d @ rev ?t))"
    by (simp add: insert_right_def)
  ultimately show ?thesis by (simp only: eq)
qed

lemma insertion_sorted:
  "sorted acc \<Longrightarrow> sorted (foldl (\<lambda>acc key. insert_right key acc) acc xs) \<and>
     mset (foldl (\<lambda>acc key. insert_right key acc) acc xs) = mset acc + mset xs"
proof (induction xs arbitrary: acc)
  case (Cons x xs)
  with insert_right_sorted [OF Cons.prems, of x] show ?case by simp
qed simp

lemma dedup_loop_ok:
  "sorted (prev # xs) \<Longrightarrow> sorted_wrt (<) (prev # dedup_loop prev xs) \<and>
     insert prev (set (dedup_loop prev xs)) = insert prev (set xs)"
proof (induction prev xs rule: dedup_loop.induct)
  case (2 prev x xs)
  show ?case
  proof (cases "x = prev")
    case True
    with 2 show ?thesis by auto
  next
    case False
    with 2 have lt: "prev < x" "sorted (x # xs)" by auto
    then have ih: "sorted_wrt (<) (x # dedup_loop x xs)"
      "insert x (set (dedup_loop x xs)) = insert x (set xs)" using 2(1) [OF False] by blast+
    have d: "dedup_loop prev (x # xs) = x # dedup_loop x xs" using False by simp
    have "sorted_wrt (<) (prev # x # dedup_loop x xs)" using ih(1) lt(1) by auto
    then show ?thesis unfolding d list.set ih(2) by blast
  qed
qed simp

lemma length_dedup_loop: "length (dedup_loop prev xs) \<le> length xs"
  by (induction prev xs rule: dedup_loop.induct) auto

lemma dedup_sort_ok:
  "sorted_wrt (<) (alts_dedup_sort_channels ops)"
  "set (alts_dedup_sort_channels ops) = set (alts_collect ops)"
  "length (alts_dedup_sort_channels ops) \<le> length ops"
proof -
  let ?s = "foldl (\<lambda>acc key. insert_right key acc) [] (alts_collect ops)"
  have s: "sorted ?s" "mset ?s = mset (alts_collect ops)"
    using insertion_sorted [of "[]" "alts_collect ops"] by simp_all
  then have st: "set ?s = set (alts_collect ops)" "length ?s = length (alts_collect ops)"
    by (auto dest: mset_eq_setD mset_eq_length)
  have "length (alts_collect ops) \<le> length ops" by (simp add: alts_collect_def)
  have "sorted_wrt (<) (alts_dedup_sort_channels ops) \<and>
    set (alts_dedup_sort_channels ops) = set (alts_collect ops) \<and>
    length (alts_dedup_sort_channels ops) \<le> length ops"
  proof (cases ?s)
    case Nil
    with st show ?thesis by (simp add: alts_dedup_sort_channels_def)
  next
    case (Cons x xs)
    have e: "alts_dedup_sort_channels ops = x # dedup_loop x xs" using Cons by (simp add: alts_dedup_sort_channels_def)
    have "sorted (x # xs)" "set (x # xs) = set (alts_collect ops)" "length (x # xs) \<le> length ops"
      using s(1) st \<open>length (alts_collect ops) \<le> length ops\<close> unfolding Cons by simp_all
    with dedup_loop_ok [of x xs] length_dedup_loop [of x xs] show ?thesis unfolding e by simp
  qed
  then show "sorted_wrt (<) (alts_dedup_sort_channels ops)"
    "set (alts_dedup_sort_channels ops) = set (alts_collect ops)"
    "length (alts_dedup_sort_channels ops) \<le> length ops" by simp_all
qed

text \<open>Selects in the middle of phase 4: thread \<open>t\<close> wants the locks \<open>plan t\<close> in this order and has the
  first \<open>pos t\<close> of them.\<close>

definition held_by :: "(nat \<Rightarrow> nat list) \<Rightarrow> (nat \<Rightarrow> nat) \<Rightarrow> nat \<Rightarrow> nat set" where
  "held_by plan pos t = set (take (pos t) (plan t))"

definition waits_for :: "(nat \<Rightarrow> nat list) \<Rightarrow> (nat \<Rightarrow> nat) \<Rightarrow> nat \<Rightarrow> nat \<Rightarrow> bool" where
  "waits_for plan pos t u = (u \<noteq> t \<and> pos t < length (plan t) \<and> plan t ! pos t \<in> held_by plan pos u)"

lemma ascending_no_deadlock:
  assumes "finite T" "T \<noteq> {}" "\<forall>t \<in> T. sorted_wrt (<) (plan t)"
  shows "\<exists>t \<in> T. \<forall>u \<in> T. \<not> waits_for plan pos t u"
proof (rule ccontr)
  assume "\<not> (\<exists>t \<in> T. \<forall>u \<in> T. \<not> waits_for plan pos t u)"
  then have all: "\<forall>t \<in> T. \<exists>u \<in> T. waits_for plan pos t u" by blast
  let ?next = "\<lambda>t. plan t ! pos t"
  have "Max (?next ` T) \<in> ?next ` T" using assms(1,2) by (intro Max_in) auto
  then obtain t where tm: "t \<in> T" "?next t = Max (?next ` T)" by auto
  have t: "t \<in> T" "\<forall>u \<in> T. ?next u \<le> ?next t" unfolding tm(2) using tm(1) assms(1) by simp_all
  then obtain u where u: "u \<in> T" "waits_for plan pos t u" using all by blast
  then obtain v where v: "waits_for plan pos u v" using all by blast
  have pu: "pos u < length (plan u)" using v by (simp add: waits_for_def)
  obtain i where i: "i < pos u" "plan u ! i = ?next t"
    using u(2) pu by (auto simp: waits_for_def held_by_def in_set_conv_nth)
  have "plan u ! i < plan u ! pos u"
    using assms(3) u(1) i(1) pu by (simp add: sorted_wrt_iff_nth_less)
  with i(2) t(2) u(1) show False by auto
qed

text \<open>C30:
  The list of locks a select takes has each of its channels once, in strictly ascending
  order, and never more than the scratch array holds; and so no set of selects can deadlock while
  taking them: among any selects there is one that waits for none of the others.
\<close>

theorem alts_lock_order:
  "sorted_wrt (<) (alts_dedup_sort_channels ops) \<and>
   set (alts_dedup_sort_channels ops) = set (alts_collect ops) \<and>
   length (alts_dedup_sort_channels ops) \<le> length ops \<and>
   (finite T \<and> T \<noteq> {} \<longrightarrow>
      (\<exists>t \<in> T. \<forall>u \<in> T. \<not> waits_for (\<lambda>t. alts_dedup_sort_channels (sel t)) pos t u))"
  using dedup_sort_ok [of ops] ascending_no_deadlock [of T "\<lambda>t. alts_dedup_sort_channels (sel t)" pos]
    dedup_sort_ok(1) by blast

theorem alts_lock_order_witness:
  "\<exists>t \<in> {1, 2 :: nat}. \<forall>u \<in> {1, 2}. \<not> waits_for (\<lambda>t. alts_dedup_sort_channels
      [\<lparr>alt_ch = 5 + t, op_kind = GOC_ALT_TAKE, alt_put_val = 0\<rparr>]) (\<lambda>_. 0) t u"
  using alts_lock_order [of "[]" "{1, 2}" "\<lambda>t. [\<lparr>alt_ch = 5 + t, op_kind = GOC_ALT_TAKE, alt_put_val = 0\<rparr>]" "\<lambda>_. 0"]
  by blast

section \<open>The two scans\<close>

text \<open>  The non-blocking scan of a put arm stores the value in a buffer with room even when a
  taker is waiting on the channel: the call succeeds, nobody is woken, and the taker keeps waiting
  beside the stored value; the re-scan hands the value to the taker in the same situation.
\<close>

theorem alts_put_strands_taker:
  assumes "chan_ok w ch" "all_ready env w ch" "\<not> closed ch" "op_kind a = GOC_ALT_PUT"
    and "length (items (view w ch)) < cap (view w ch)" "vtakers (view w ch) = (p, g, ()) # ts"
  shows "(\<exists>ch'. try_arm env a w ch = Some (Inr (Some (NULL, GOC_OK), w, ch')) \<and>
      view w ch' = (view w ch)\<lparr>items := items (view w ch) @ [alt_put_val a]\<rparr>) \<and>
    (\<exists>w' ch'. rescan_arm env a w ch = Some (Inr (Some (NULL, GOC_OK), w', ch')) \<and>
      handed env w w' p (alt_put_val a))"
proof -
  obtain ch1 where b: "chan_put_to_buffer (alt_put_val a) ch = Inr (True, ch1)" "chan_ok w ch1"
    "view w ch1 = (view w ch)\<lparr>items := items (view w ch) @ [alt_put_val a]\<rparr>"
    "set (takers ch1 @ putters ch1) \<subseteq> set (takers ch @ putters ch)"
    by (rule put_buffer_view [OF assms(1,5)])
  then have "try_arm env a w ch = Some (Inr (Some (NULL, GOC_OK), w, ch1))"
    using assms(3,4) by (simp add: try_arm_def)
  moreover obtain ch2 where "chan_put_to_taker env (alt_put_val a) w ch
      = Some (Inr (True, dispatched env p (alt_put_val a) (delivered p (alt_put_val a) w), ch2))"
    using give_taker_some [OF assms(1,6) view_ready(1) [OF assms(2,6)]] by blast
  then have "rescan_arm env a w ch
      = Some (Inr (Some (NULL, GOC_OK), dispatched env p (alt_put_val a) (delivered p (alt_put_val a) w), ch2))"
    using assms(3,4) by (simp add: rescan_arm_def)
  ultimately show ?thesis using b(3) handed_dispatched by blast
qed

theorem alts_put_strands_taker_witness:
  "\<exists>ch'. try_arm demo_env \<lparr>alt_ch = 1, op_kind = GOC_ALT_PUT, alt_put_val = 7\<rparr> demo_world demo_taker
      = Some (Inr (Some (0, GOC_OK), demo_world, ch')) \<and> items (view demo_world ch') = [7] \<and>
      vtakers (view demo_world ch') = [(2, None, ())]"
proof -
  have d: "\<not> closed demo_taker" "length (items (view demo_world demo_taker)) < cap (view demo_world demo_taker)"
    "vtakers (view demo_world demo_taker) = [(2, None, ())]" "items (view demo_world demo_taker) = []"
    by (simp_all add: demo_taker_def goc_chan_make_def ring_list_def waiters_def demo_world_def claimable_def
        entry_zero_def)
  obtain ch' where "try_arm demo_env \<lparr>alt_ch = 1, op_kind = GOC_ALT_PUT, alt_put_val = 7\<rparr> demo_world demo_taker
      = Some (Inr (Some (0, GOC_OK), demo_world, ch'))"
    "view demo_world ch' = (view demo_world demo_taker)\<lparr>items := items (view demo_world demo_taker) @ [7]\<rparr>"
    using alts_put_strands_taker [OF demo_facts(1,3) d(1) _ d(2,3),
      of "\<lparr>alt_ch = 1, op_kind = GOC_ALT_PUT, alt_put_val = 7\<rparr>"] by auto
  with d(3,4) show ?thesis by (auto simp del: view_simps)
qed

section \<open>A parked select\<close>

lemma alts_alloc_ok:
  "alts_alloc mk idx w = (ps, w') \<Longrightarrow>
     ps = [next_ent w..<next_ent w + length idx] \<and> next_ent w' = next_ent w + length idx \<and>
     freed w' = freed w \<and> flags w' = flags w \<and> (\<forall>q < next_ent w. ents w' q = ents w q) \<and>
     (\<forall>j < length idx. ents w' (next_ent w + j) = mk (idx ! j))"
proof (induction idx arbitrary: w ps)
  case (Cons i idx)
  obtain p w1 where 1: "alloc_entry (mk i) w = (p, w1)" by fastforce
  obtain qs where 2: "alts_alloc mk idx w1 = (qs, w')" "ps = p # qs"
    using Cons.prems 1 by (auto split: prod.splits)
  have w1: "p = next_ent w" "next_ent w1 = Suc (next_ent w)" "freed w1 = freed w" "flags w1 = flags w"
    "ents w1 = (ents w)(next_ent w := mk i)"
    using 1 by (auto simp: alloc_entry_def)
  note ih = Cons.IH [OF 2(1)]
  have "ents w' (next_ent w + j) = mk ((i # idx) ! j)" if "j < length (i # idx)" for j
  proof (cases j)
    case 0
    then show ?thesis using ih w1 by simp
  next
    case (Suc k)
    then show ?thesis using ih w1 that by (auto dest: spec [of _ k])
  qed
  moreover have "ps = [next_ent w..<next_ent w + length (i # idx)]"
    using ih w1 2(2) by (simp add: upt_conv_Cons del: upt_Suc)
  ultimately show ?case using ih w1 by auto
qed simp

text \<open>No waiter on the channels has a flag that is yet to be allocated.\<close>

definition flags_fresh :: "goc_world \<Rightarrow> goc_chan \<Rightarrow> bool" where
  "flags_fresh w ch = (\<forall>p \<in> set (takers ch @ putters ch). \<forall>f. fired (ents w p) = Some f \<longrightarrow> f < next_ent w)"

lemma waiters_live:
  "claimable w p \<Longrightarrow> waiters w f (p # xs) = (p, fired (ents w p), f (ents w p)) # waiters w f xs"
  by (simp add: waiters_def)

lemma alts_enqueue_ok:
  assumes "length ps = length as" "distinct ps" "\<forall>p \<in> set ps. claimable w p \<and> entry_ok w p"
    "\<forall>k. chan_ok w (cs k) \<and> set ps \<inter> set (takers (cs k) @ putters (cs k)) = {}"
  shows "chan_ok w (alts_enqueue as ps cs k) \<and>
    view w (alts_enqueue as ps cs k) = (view w (cs k))\<lparr>
      vtakers := vtakers (view w (cs k)) @ waiters w (\<lambda>_. ())
        (map snd (filter (\<lambda>(a, p). alt_ch a = k \<and> op_kind a = GOC_ALT_TAKE) (zip as ps))),
      vputters := vputters (view w (cs k)) @ waiters w put_val
        (map snd (filter (\<lambda>(a, p). alt_ch a = k \<and> op_kind a \<noteq> GOC_ALT_TAKE) (zip as ps)))\<rparr>"
  using assms
proof (induction as ps cs rule: alts_enqueue.induct)
  case (1 a as p ps cs)
  let ?k = "alt_ch a" and ?cs = "enqueue_arm a p cs"
  have p: "claimable w p" "entry_ok w p" "p \<notin> set (takers (cs ?k) @ putters (cs ?k))" "chan_ok w (cs ?k)" "p \<notin> set ps"
    using "1.prems" by auto
  have "chan_ok w (?cs j) \<and> set ps \<inter> set (takers (?cs j) @ putters (?cs j)) = {}" for j
    using "1.prems"(4) p append_taker_ok(1) [OF p(4,3,1,2)] append_putter_ok(1) [OF p(4,3,1,2)]
      append_taker_set [OF p(4), of p] append_putter_set [OF p(4), of p]
    by (cases "j = ?k") (auto simp: enqueue_arm_def)
  then have ih: "chan_ok w (alts_enqueue as ps ?cs k) \<and>
    view w (alts_enqueue as ps ?cs k) = (view w (?cs k))\<lparr>
      vtakers := vtakers (view w (?cs k)) @ waiters w (\<lambda>_. ())
        (map snd (filter (\<lambda>(a, p). alt_ch a = k \<and> op_kind a = GOC_ALT_TAKE) (zip as ps))),
      vputters := vputters (view w (?cs k)) @ waiters w put_val
        (map snd (filter (\<lambda>(a, p). alt_ch a = k \<and> op_kind a \<noteq> GOC_ALT_TAKE) (zip as ps)))\<rparr>"
    using "1.prems" by (intro "1.IH") auto
  note live = waiters_live [OF p(1)]
  show ?case
  proof (cases "k = ?k")
    case False
    then have "?cs k = cs k" by (simp add: enqueue_arm_def)
    with ih False show ?thesis by simp
  next
    case True
    show ?thesis
    proof (cases "op_kind a = GOC_ALT_TAKE")
      case t: True
      then have "?cs k = append_taker p (cs k)" using True by (simp add: enqueue_arm_def)
      with ih True t append_taker_ok(2) [OF p(4,3,1,2)] show ?thesis by (simp add: live del: view_simps)
    next
      case t: False
      then have "?cs k = append_putter p (cs k)" using True by (simp add: enqueue_arm_def)
      with ih True t append_putter_ok(2) [OF p(4,3,1,2)] show ?thesis by (simp add: live del: view_simps)
    qed
  qed
qed simp_all

text \<open>The arms of a select that wait on channel \<open>k\<close>, with the entries they got.\<close>

definition arms_on :: "nat \<Rightarrow> bool \<Rightarrow> goc_alt_op list \<Rightarrow> nat list \<Rightarrow> (goc_alt_op \<times> nat) list" where
  "arms_on k is_take as ps = filter (\<lambda>(a, p). alt_ch a = k \<and> (op_kind a = GOC_ALT_TAKE) = is_take) (zip as ps)"

lemma alts_park_world:
  assumes "alts_park_fiber env c ops idx w cs = (ps, w1, cs1)" "user_data env c < next_ent w"
  shows "ps = [next_ent w..<next_ent w + length idx]" "next_ent w1 = next_ent w + length idx"
    "freed w1 = freed w" "flags w1 = (flags w)(next_ent w := False)"
    "cs1 = alts_enqueue (map ((!) ops) idx) ps cs"
    "\<forall>q < next_ent w. \<exists>x. ents w1 q = (ents w q)\<lparr>parked := x\<rparr>"
    "\<forall>j < length idx. \<exists>gen. ents w1 (next_ent w + j) = alts_fiber_entry env c (next_ent w) gen ops (idx ! j) w"
proof -
  let ?f = "next_ent w" and ?gen = "park_gen (parked (ents w (user_data env c)))"
  obtain w2 where a: "alts_alloc (\<lambda>i. alts_fiber_entry env c ?f ?gen ops i w) idx (w\<lparr>flags := (flags w)(?f := False)\<rparr>) = (ps, w2)"
    and w1: "w1 = upd_ent (user_data env c) (\<lambda>e. e\<lparr>parked := push_bit 1 ?gen OR 1\<rparr>) w2"
    and c: "cs1 = alts_enqueue (map ((!) ops) idx) ps cs"
    using assms(1) by (auto simp: alts_park_fiber_def Let_def split: prod.splits)
  note al = alts_alloc_ok [OF a]
  show "ps = [next_ent w..<next_ent w + length idx]" "next_ent w1 = next_ent w + length idx"
    "freed w1 = freed w" "flags w1 = (flags w)(next_ent w := False)"
    "cs1 = alts_enqueue (map ((!) ops) idx) ps cs"
    using al c by (simp_all add: w1)
  show "\<forall>q < next_ent w. \<exists>x. ents w1 q = (ents w q)\<lparr>parked := x\<rparr>"
  proof (intro allI impI)
    fix q assume "q < next_ent w"
    then have "ents w2 q = ents w q" using al by simp
    then show "\<exists>x. ents w1 q = (ents w q)\<lparr>parked := x\<rparr>"
      by (cases "q = user_data env c") (auto simp: w1 intro: exI [of _ "parked (ents w q)"])
  qed
  show "\<forall>j < length idx. \<exists>gen. ents w1 (next_ent w + j) = alts_fiber_entry env c (next_ent w) gen ops (idx ! j) w"
    using al assms(2) by (auto simp: w1)
qed

lemma alts_entry_fields:
  "\<not> cancelled (alts_fiber_entry env c f gen ops i w)" "\<not> woken (alts_fiber_entry env c f gen ops i w)"
  "fired (alts_fiber_entry env c f gen ops i w) = Some f" "kind (alts_fiber_entry env c f gen ops i w) = GOC_FIBER"
  "arm_idx (alts_fiber_entry env c f gen ops i w) = i"
  "op_kind (ops ! i) = GOC_ALT_TAKE \<Longrightarrow> result_slot (alts_fiber_entry env c f gen ops i w) = OwnResult"
  "op_kind (ops ! i) \<noteq> GOC_ALT_TAKE \<Longrightarrow> put_val (alts_fiber_entry env c f gen ops i w) = alt_put_val (ops ! i)"
  by (simp_all add: alts_fiber_entry_def entry_zero_def)

lemma alts_park_agree:
  assumes "alts_park_fiber env c ops idx w cs = (ps, w1, cs1)" "user_data env c < next_ent w"
    "chan_ok w ch" "flags_fresh w ch"
  shows "agree w w1 (set (takers ch @ putters ch))"
proof -
  note pk = alts_park_world [OF assms(1,2)]
  have lt: "p < next_ent w" if "p \<in> set (takers ch @ putters ch)" for p
    using assms(3) that by (auto simp: chan_ok_def entry_ok_def)
  have e: "cancelled (ents w1 p) = cancelled (ents w p) \<and> woken (ents w1 p) = woken (ents w p) \<and>
      fired (ents w1 p) = fired (ents w p) \<and> put_val (ents w1 p) = put_val (ents w p)"
    if "p \<in> set (takers ch @ putters ch)" for p
    using pk(6) lt [OF that] by (auto dest!: spec [of _ p])
  have "f < next_ent w" if "p \<in> set (takers ch @ putters ch)" "fired (ents w p) = Some f" for p f
    using assms(4) that by (auto simp: flags_fresh_def)
  then show ?thesis using e pk(2,3,4) unfolding agree_def world_ok_def by fastforce
qed

lemma waiters_of_arms:
  assumes "\<And>a p. (a, p) \<in> set xs \<Longrightarrow> claimable w p \<and> fired (ents w p) = g \<and> f (ents w p) = h a"
  shows "waiters w f (map snd xs) = map (\<lambda>(a, p). (p, g, h a)) xs"
proof -
  have "filter (claimable w) (map snd xs) = map snd xs" using assms by (intro filter_True) auto
  then show ?thesis using assms by (auto simp: waiters_def)
qed

text \<open>C20:
  A parking select leaves every channel well formed and waits, after everybody who was
  there before, on each of its arms' channels: its take arms among the takers and its put arms
  among the putters with their values, in the order tried, all with one and the same shared flag.
\<close>

theorem alts_parks_everywhere:
  assumes "alts_park_fiber env c ops idx w cs = (ps, w1, cs1)" "user_data env c < next_ent w"
    and "\<forall>k. chan_ok w (cs k) \<and> flags_fresh w (cs k)"
  shows "chan_ok w1 (cs1 k) \<and> view w1 (cs1 k) = (view w (cs k))\<lparr>
      vtakers := vtakers (view w (cs k))
        @ map (\<lambda>(a, p). (p, Some (next_ent w), ())) (arms_on k True (map ((!) ops) idx) ps),
      vputters := vputters (view w (cs k))
        @ map (\<lambda>(a, p). (p, Some (next_ent w), alt_put_val a)) (arms_on k False (map ((!) ops) idx) ps)\<rparr>"
proof -
  let ?as = "map ((!) ops) idx" and ?n = "next_ent w"
  note pk = alts_park_world [OF assms(1,2)]
  have ent: "\<exists>gen. ents w1 p = alts_fiber_entry env c ?n gen ops (idx ! (p - ?n)) w" if "p \<in> set ps" for p
    using that pk(7) unfolding pk(1) by (auto dest!: spec [of _ "p - ?n"])
  have fr: "p \<notin> set (freed w1)" if "p \<in> set ps" for p
    using assms(3) that pk(1,3) by (auto simp: chan_ok_def world_ok_def)
  have live: "\<forall>p \<in> set ps. claimable w1 p \<and> entry_ok w1 p"
    using ent fr pk(1,2,4) by (fastforce simp: claimable_def entry_ok_def flag_ok_def alts_entry_fields)
  have old: "chan_ok w1 (cs k) \<and> view w1 (cs k) = view w (cs k) \<and>
      set ps \<inter> set (takers (cs k) @ putters (cs k)) = {}" for k
  proof -
    have "agree w w1 (set (takers (cs k) @ putters (cs k)))" using alts_park_agree [OF assms(1,2)] assms(3) by blast
    from agree_view [OF this] assms(3) have "chan_ok w1 (cs k)" "view w1 (cs k) = view w (cs k)" by blast+
    moreover have "\<forall>p \<in> set (takers (cs k) @ putters (cs k)). p < ?n"
      using assms(3) by (auto simp: chan_ok_def entry_ok_def)
    then have "set ps \<inter> set (takers (cs k) @ putters (cs k)) = {}" by (fastforce simp: pk(1))
    ultimately show ?thesis by blast
  qed
  have zip: "p \<in> set ps \<and> a = ops ! (idx ! (p - ?n))" if "(a, p) \<in> set (zip ?as ps)" for a p
    using that by (auto simp: set_zip pk(1))
  have fd: "fired (ents w1 p) = Some ?n" if "p \<in> set ps" for p
    using ent [OF that] by (auto simp: alts_entry_fields)
  have tk: "waiters w1 (\<lambda>_. ()) (map snd (arms_on k True ?as ps))
      = map (\<lambda>(a, p). (p, Some ?n, ())) (arms_on k True ?as ps)"
    using live zip fd by (intro waiters_of_arms) (auto simp: arms_on_def)
  have pt: "waiters w1 put_val (map snd (arms_on k False ?as ps))
      = map (\<lambda>(a, p). (p, Some ?n, alt_put_val a)) (arms_on k False ?as ps)"
  proof (rule waiters_of_arms)
    fix a p assume ap: "(a, p) \<in> set (arms_on k False ?as ps)"
    then have p: "p \<in> set ps" "a = ops ! (idx ! (p - ?n))" "op_kind a \<noteq> GOC_ALT_TAKE"
      using zip by (auto simp: arms_on_def)
    then have "put_val (ents w1 p) = alt_put_val a" using ent [OF p(1)] by (auto simp: alts_entry_fields)
    then show "claimable w1 p \<and> fired (ents w1 p) = Some ?n \<and> put_val (ents w1 p) = alt_put_val a"
      using live fd p(1) by auto
  qed
  have "chan_ok w1 (cs1 k) \<and> view w1 (cs1 k) = (view w1 (cs k))\<lparr>
      vtakers := vtakers (view w1 (cs k)) @ waiters w1 (\<lambda>_. ()) (map snd (arms_on k True ?as ps)),
      vputters := vputters (view w1 (cs k)) @ waiters w1 put_val (map snd (arms_on k False ?as ps))\<rparr>"
    using alts_enqueue_ok [of ps ?as w1 cs k] live old unfolding pk(5) arms_on_def by (simp add: pk(1))
  then show ?thesis unfolding tk pt using old by (simp del: view_simps)
qed

lemmas alts_demo_defs = alts_park_fiber_def alts_fiber_entry_def alloc_entry_def demo_env_def demo_world_def
  goc_chan_make_def park_gen_def entry_zero_def Let_def

definition alts_demo_ops :: "goc_alt_op list" where
  "alts_demo_ops = [\<lparr>alt_ch = 1, op_kind = GOC_ALT_TAKE, alt_put_val = 0\<rparr>,
     \<lparr>alt_ch = 2, op_kind = GOC_ALT_PUT, alt_put_val = 8\<rparr>]"

definition alts_demo_world :: goc_world where
  "alts_demo_world = fst (snd (alts_park_fiber demo_env 5 alts_demo_ops [1, 0] demo_world (\<lambda>_. goc_chan_make 3)))"

definition alts_demo_chans :: "nat \<Rightarrow> goc_chan" where
  "alts_demo_chans = snd (snd (alts_park_fiber demo_env 5 alts_demo_ops [1, 0] demo_world (\<lambda>_. goc_chan_make 3)))"

lemma alts_demo_park:
  "alts_park_fiber demo_env 5 alts_demo_ops [1, 0] demo_world (\<lambda>_. goc_chan_make 3)
     = ([4, 5], alts_demo_world, alts_demo_chans)"
  by (simp add: alts_demo_world_def alts_demo_chans_def alts_demo_defs alts_demo_ops_def)

lemma alts_demo_start:
  "chan_ok demo_world (goc_chan_make 3)" "flags_fresh demo_world (goc_chan_make 3)"
  "vtakers (view demo_world (goc_chan_make 3)) = []" "vputters (view demo_world (goc_chan_make 3)) = []"
  by (simp_all add: demo_world_def goc_chan_make_def chan_ok_def world_ok_def ring_ok_def slots_eq tail_ok_def
      flags_fresh_def view_def waiters_def ring_list_def)

theorem alts_parks_everywhere_witness:
  "vtakers (view alts_demo_world (alts_demo_chans 1)) = [(5, Some 4, ())] \<and>
   vputters (view alts_demo_world (alts_demo_chans 2)) = [(4, Some 4, 8)]"
proof -
  have n: "next_ent demo_world = 4" by (simp add: demo_world_def)
  note e = alts_parks_everywhere [OF alts_demo_park demo_facts(5)]
  show ?thesis using e [of 1] e [of 2]
    by (simp add: alts_demo_start n arms_on_def alts_demo_ops_def del: view_simps)
qed

lemma alts_cancel_ok:
  "\<lbrakk>\<forall>q \<in> set ps. woken (ents w q) \<longleftrightarrow> q = p; distinct ps; alts_cancel ps w win = (r, w')\<rbrakk>
   \<Longrightarrow> r = (if p \<in> set ps then Some p else win) \<and>
     ents w' = (\<lambda>q. if q \<in> set ps \<and> q \<noteq> p then (ents w q)\<lparr>cancelled := True\<rparr> else ents w q) \<and>
     flags w' = flags w \<and> locals w' = locals w"
proof (induction ps arbitrary: w win)
  case (Cons x ps)
  show ?case
  proof (cases "x = p")
    case True
    then have "alts_cancel ps w (Some p) = (r, w')" "p \<notin> set ps" using Cons.prems by auto
    with Cons.IH [of w "Some p"] Cons.prems True show ?thesis by (auto simp: fun_eq_iff)
  next
    case False
    let ?w = "upd_ent x (\<lambda>e. e\<lparr>cancelled := True\<rparr>) w"
    have "alts_cancel ps ?w win = (r, w')" "\<forall>q \<in> set ps. woken (ents ?w q) \<longleftrightarrow> q = p" "x \<notin> set ps"
      using Cons.prems False by auto
    with Cons.IH [of ?w win] Cons.prems(2) False show ?thesis by (auto simp: fun_eq_iff upd_ent_def)
  qed
qed auto

text \<open>C7:
  A select that parked is decided by the first put that reaches one of its take arms: the
  put succeeds, the resumed select returns that arm's channel with the value put and success, and
  afterwards none of its arms can be claimed any more, on any channel.
\<close>

theorem alts_select_delivers:
  assumes "alts_park_fiber env c ops idx w cs = (ps, w1, cs1)" "user_data env c < next_ent w"
    and "chan_ok w1 (cs1 k)" "all_ready env w1 (cs1 k)" "\<not> closed (cs1 k)"
    and "j < length idx" "op_kind (ops ! (idx ! j)) = GOC_ALT_TAKE" "alt_ch (ops ! (idx ! j)) = k"
    and "vtakers (view w1 (cs1 k)) = (ps ! j, g, ()) # ts"
  shows "\<exists>w2 ch2 w3. goc_put_sync env None v w1 (cs1 k) = Some (Inr (Now NULL GOC_OK, w2, ch2)) \<and>
      goc_alts_resume env c ops ps w2 = Inr ((k, v, GOC_OK), w3) \<and> (\<forall>q \<in> set ps. \<not> claimable w3 q)"
proof -
  let ?n = "next_ent w"
  note pk = alts_park_world [OF assms(1,2)]
  define p where "p = ps ! j"
  have p: "p = ?n + j" "p \<in> set ps" using assms(6) by (simp_all add: p_def pk(1))
  obtain gen where e: "ents w1 p = alts_fiber_entry env c ?n gen ops (idx ! j) w" using pk(7) assms(6) p(1) by auto
  have nw: "\<not> woken (ents w1 q)" if "q \<in> set ps" for q
    using that pk(7) by (auto simp: pk(1) alts_entry_fields dest!: spec [of _ "q - ?n"])
  let ?w2 = "dispatched env p v (delivered p v w1)"
  obtain ch2 where put: "chan_put_to_taker env v w1 (cs1 k) = Some (Inr (True, ?w2, ch2))"
    using give_taker_some [OF assms(3) assms(9) [folded p_def] view_ready(1) [OF assms(4) assms(9) [folded p_def]]]
    by blast
  have w2: "ents ?w2 = (ents w1)(p := (ents w1 p)\<lparr>woken := True, ok := GOC_OK, cb_result := v\<rparr>)"
    using alts_entry_fields(4,6) assms(7) by (auto simp: dispatched_def delivered_def e fun_eq_iff)
  let ?w3 = "resume_fiber env c ?w2"
  have self: "user_data env c \<notin> set ps" using assms(2) by (auto simp: pk(1))
  then have w3: "ents ?w3 q = ents ?w2 q" if "q \<in> set ps" for q
    using that by (auto simp: resume_fiber_def)
  obtain r w4 where c: "alts_cancel ps ?w3 None = (r, w4)" by fastforce
  have "\<forall>q \<in> set ps. woken (ents ?w3 q) \<longleftrightarrow> q = p" using w3 w2 nw by auto
  from alts_cancel_ok [OF this _ c] have r: "r = Some p"
    "ents w4 = (\<lambda>q. if q \<in> set ps \<and> q \<noteq> p then (ents ?w3 q)\<lparr>cancelled := True\<rparr> else ents ?w3 q)"
    using p(2) by (simp_all add: pk(1))
  have e4: "ents w4 p = (ents w1 p)\<lparr>woken := True, ok := GOC_OK, cb_result := v\<rparr>"
    using r(2) w3 [OF p(2)] w2 by simp
  have "goc_alts_resume env c ops ps ?w2 = Inr ((k, v, GOC_OK), w4)"
    using e4 e assms(7,8) by (simp add: goc_alts_resume_def alts_finish_def c r(1) alts_entry_fields)
  moreover have "\<not> claimable w4 q" if "q \<in> set ps" for q
    using that r(2) e4 by (cases "q = p") (auto simp: claimable_def)
  moreover have "goc_put_sync env None v w1 (cs1 k) = Some (Inr (Now NULL GOC_OK, ?w2, ch2))"
    using assms(5) put by (simp add: goc_put_sync_def)
  ultimately show ?thesis by blast
qed

theorem alts_select_delivers_witness:
  "\<exists>w2 ch2 w3. goc_put_sync demo_env None 7 alts_demo_world (alts_demo_chans 1) = Some (Inr (Now 0 GOC_OK, w2, ch2)) \<and>
     goc_alts_resume demo_env 5 alts_demo_ops [4, 5] w2 = Inr ((1, 7, GOC_OK), w3) \<and>
     \<not> claimable w3 4 \<and> \<not> claimable w3 5"
proof -
  have "settles (\<lambda>_. 4 :: 64 word) 4" by (auto simp: settles_def intro: exI [of _ 1])
  then have d: "all_ready demo_env alts_demo_world (alts_demo_chans 1)" "\<not> closed (alts_demo_chans 1)"
    "chan_ok alts_demo_world (alts_demo_chans 1)" "vtakers (view alts_demo_world (alts_demo_chans 1)) = [(5, Some 4, ())]"
    by (simp_all add: all_ready_def alts_demo_world_def alts_demo_chans_def alts_demo_defs alts_demo_ops_def ready_def
        enqueue_arm_def append_taker_def append_putter_def chan_list_append_def want_of_def chan_ok_def world_ok_def ring_ok_def slots_eq tail_ok_def entry_ok_def flag_ok_def waiters_def
        claimable_def)
  show ?thesis
    using alts_select_delivers [OF alts_demo_park demo_facts(5) d(3,1,2), of 1 "Some 4" "[]" 7] d(4)
    by (auto simp: alts_demo_ops_def)
qed

end
