(* ===== verification/Goc_Mutex.thy ===== *)
theory Goc_Mutex
  imports Goc_Refine Goc_Chan_Refine
begin

text \<open>
  The read-write mutex of mutex.c. A lock request returns a gate, a channel with one worker on
  which the grant arrives; closing the gate releases the lock or withdraws the request. The queue
  of waiters is the linked list of the source: the waiters are numbered and their \<open>next\<close> pointers
  are fields. A section under \<open>mx->lock\<close> is one step, and the gates' close handlers run one after
  the other on the loop thread.
\<close>

section \<open>The mutex\<close>

record goc_mutex_waiter =
  w_next :: "nat option"
  gate :: nat
  is_writer :: bool
  w_ctx :: nat

record goc_mutex =
  active_readers :: nat
  writer_active :: bool
  waiting_writers :: nat
  q_head :: "nat option"
  q_tail :: "nat option"

record goc_mutex_release_ctx =
  ctx_waiter :: nat
  ctx_writer :: bool
  acquired :: bool
  handled :: bool

text \<open>A mutex with the waiters and contexts allocated for it; \<open>requests\<close> is the number of the next.\<close>

record mutex_state = goc_mutex +
  wtrs :: "nat \<Rightarrow> goc_mutex_waiter"
  ctxs :: "nat \<Rightarrow> goc_mutex_release_ctx"
  requests :: nat

definition goc_mutex_make :: mutex_state where
  "goc_mutex_make = \<lparr>active_readers = 0, writer_active = False, waiting_writers = 0, q_head = None,
     q_tail = None, wtrs = \<lambda>_. \<lparr>w_next = None, gate = 0, is_writer = False, w_ctx = 0\<rparr>,
     ctxs = \<lambda>_. \<lparr>ctx_waiter = 0, ctx_writer = False, acquired = False, handled = False\<rparr>, requests = 0\<rparr>"

definition upd_wtr :: "nat \<Rightarrow> (goc_mutex_waiter \<Rightarrow> goc_mutex_waiter) \<Rightarrow> mutex_state \<Rightarrow> mutex_state" where
  "upd_wtr k f s = s\<lparr>wtrs := (wtrs s)(k := f (wtrs s k))\<rparr>"

definition upd_ctx :: "nat \<Rightarrow> (goc_mutex_release_ctx \<Rightarrow> goc_mutex_release_ctx) \<Rightarrow> mutex_state \<Rightarrow> mutex_state" where
  "upd_ctx k f s = s\<lparr>ctxs := (ctxs s)(k := f (ctxs s k))\<rparr>"

definition mutex_enqueue :: "nat \<Rightarrow> mutex_state \<Rightarrow> mutex_state" where
  "mutex_enqueue w s =
     (let s1 = upd_wtr w (\<lambda>x. x\<lparr>w_next := None\<rparr>) s in
      case q_tail s1 of
        None \<Rightarrow> s1\<lparr>q_head := Some w, q_tail := Some w\<rparr>
      | Some t \<Rightarrow> (upd_wtr t (\<lambda>x. x\<lparr>w_next := Some w\<rparr>) s1)\<lparr>q_tail := Some w\<rparr>)"

definition mutex_dequeue :: "mutex_state \<Rightarrow> nat option \<times> mutex_state" where
  "mutex_dequeue s =
     (case q_head s of
        None \<Rightarrow> (None, s)
      | Some w \<Rightarrow>
          let s1 = s\<lparr>q_head := w_next (wtrs s w)\<rparr>;
              s2 = (if q_head s1 = None then s1\<lparr>q_tail := None\<rparr> else s1)
          in (Some w, upd_wtr w (\<lambda>x. x\<lparr>w_next := None\<rparr>) s2))"

section \<open>Release\<close>

definition grant_reader :: "nat option \<Rightarrow> nat option \<Rightarrow> nat \<Rightarrow> mutex_state \<Rightarrow> nat option \<times> nat option \<times> mutex_state" where
  "grant_reader gh gt r s =
     (let s1 = s\<lparr>active_readers := size_add (active_readers s) 1\<rparr>;
          s2 = upd_ctx (w_ctx (wtrs s1 r)) (\<lambda>c. c\<lparr>acquired := True\<rparr>) s1
      in case gt of
           None \<Rightarrow> (Some r, Some r, s2)
         | Some t \<Rightarrow> (gh, Some r, upd_wtr t (\<lambda>x. x\<lparr>w_next := Some r\<rparr>) s2))"

partial_function (option) reader_loop ::
  "nat option \<Rightarrow> nat option \<Rightarrow> mutex_state \<Rightarrow> (nat option \<times> mutex_state) option" where
  "reader_loop gh gt s =
     (case q_head s of
        None \<Rightarrow> Some (gh, s)
      | Some h \<Rightarrow>
          if is_writer (wtrs s h) then Some (gh, s)
          else (case mutex_dequeue s of (_, s1) \<Rightarrow>
                case grant_reader gh gt h s1 of (gh1, gt1, s2) \<Rightarrow> reader_loop gh1 gt1 s2))"

definition grant_writer :: "mutex_state \<Rightarrow> nat option \<times> mutex_state" where
  "grant_writer s =
     (case mutex_dequeue s of
        (None, s1) \<Rightarrow> (None, s1)
      | (Some w, s1) \<Rightarrow>
          (Some w, upd_ctx (w_ctx (wtrs s1 w)) (\<lambda>c. c\<lparr>acquired := True\<rparr>)
             (s1\<lparr>waiting_writers := size_sub (waiting_writers s1) 1, writer_active := True\<rparr>)))"

definition give_up :: "bool \<Rightarrow> mutex_state \<Rightarrow> mutex_state" where
  "give_up wr s =
     (if wr then s\<lparr>writer_active := False\<rparr>
      else if 0 < active_readers s then s\<lparr>active_readers := size_sub (active_readers s) 1\<rparr>
      else s)"

definition hand_over :: "mutex_state \<Rightarrow> (nat option \<times> mutex_state) option" where
  "hand_over s =
     (case q_head s of
        None \<Rightarrow> Some (None, s)
      | Some h \<Rightarrow>
          if \<not> writer_active s \<and> active_readers s = 0
          then (if is_writer (wtrs s h) then Some (grant_writer s) else reader_loop None None s)
          else Some (None, s))"

text \<open>The gates of the granted waiters, along their \<open>next\<close> pointers.\<close>

partial_function (option) grant_gates :: "nat option \<Rightarrow> mutex_state \<Rightarrow> nat list option" where
  "grant_gates it s =
     (case it of
        None \<Rightarrow> Some []
      | Some w \<Rightarrow> Option.bind (grant_gates (w_next (wtrs s w)) s) (\<lambda>gs. Some (gate (wtrs s w) # gs)))"

text \<open>\<open>mutex_release\<close> up to the sends: the gates to send on, and the mutex after the unlock.\<close>

definition mutex_release_locked :: "bool \<Rightarrow> mutex_state \<Rightarrow> (nat list \<times> mutex_state) option" where
  "mutex_release_locked wr s =
     (case hand_over (give_up wr s) of
        None \<Rightarrow> None
      | Some (gh, s1) \<Rightarrow> map_option (\<lambda>gs. (gs, s1)) (grant_gates gh s1))"

section \<open>Withdrawal\<close>

definition unlink :: "nat option \<Rightarrow> nat \<Rightarrow> mutex_state \<Rightarrow> mutex_state" where
  "unlink prev cur s =
     (let nx = w_next (wtrs s cur);
          s1 = (case prev of None \<Rightarrow> s\<lparr>q_head := nx\<rparr> | Some p \<Rightarrow> upd_wtr p (\<lambda>x. x\<lparr>w_next := nx\<rparr>) s);
          s2 = (if q_tail s1 = Some cur then s1\<lparr>q_tail := prev\<rparr> else s1)
      in if is_writer (wtrs s2 cur) \<and> 0 < waiting_writers s2
         then s2\<lparr>waiting_writers := size_sub (waiting_writers s2) 1\<rparr> else s2)"

partial_function (option) cancel_loop ::
  "nat \<Rightarrow> nat option \<Rightarrow> nat option \<Rightarrow> mutex_state \<Rightarrow> mutex_state option" where
  "cancel_loop target prev cur s =
     (case cur of
        None \<Rightarrow> Some s
      | Some c \<Rightarrow>
          if c = target then Some (unlink prev c s)
          else cancel_loop target (Some c) (w_next (wtrs s c)) s)"

definition mutex_cancel_waiter :: "nat \<Rightarrow> mutex_state \<Rightarrow> mutex_state option" where
  "mutex_cancel_waiter target s = cancel_loop target None (q_head s) s"

section \<open>The close handler and the request\<close>

definition mutex_closed_locked :: "nat \<Rightarrow> mutex_state \<Rightarrow> (nat list \<times> mutex_state) option" where
  "mutex_closed_locked c s =
     (if handled (ctxs s c) then Some ([], s)
      else
        let s1 = upd_ctx c (\<lambda>x. x\<lparr>handled := True\<rparr>) s in
        if acquired (ctxs s1 c) then mutex_release_locked (ctx_writer (ctxs s1 c)) s1
        else map_option (\<lambda>s2. ([], s2)) (mutex_cancel_waiter (ctx_waiter (ctxs s1 c)) s1))"

definition new_request :: "bool \<Rightarrow> mutex_state \<Rightarrow> nat \<times> mutex_state" where
  "new_request wr s =
     (let k = requests s in
      (k, s\<lparr>wtrs := (wtrs s)(k := \<lparr>w_next = None, gate = k, is_writer = wr, w_ctx = k\<rparr>),
            ctxs := (ctxs s)(k := \<lparr>ctx_waiter = k, ctx_writer = wr, acquired = False, handled = False\<rparr>),
            requests := Suc k\<rparr>))"

definition request_locked :: "bool \<Rightarrow> nat \<Rightarrow> mutex_state \<Rightarrow> bool \<times> mutex_state" where
  "request_locked wr k s =
     (if wr
      then
        (if \<not> writer_active s \<and> active_readers s = 0 \<and> q_head s = None
         then (True, upd_ctx k (\<lambda>c. c\<lparr>acquired := True\<rparr>) (s\<lparr>writer_active := True\<rparr>))
         else (False, (mutex_enqueue k s)\<lparr>waiting_writers := size_add (waiting_writers s) 1\<rparr>))
      else
        (if \<not> writer_active s \<and> waiting_writers s = 0 \<and> q_head s = None
         then (True, upd_ctx k (\<lambda>c. c\<lparr>acquired := True\<rparr>) (s\<lparr>active_readers := size_add (active_readers s) 1\<rparr>))
         else (False, mutex_enqueue k s)))"

section \<open>The grants\<close>

datatype sends = Sent | Blocked nat "nat list"

definition mutex_send_grant ::
  "goc_env \<Rightarrow> nat option \<Rightarrow> nat option \<Rightarrow> goc_world \<Rightarrow> goc_chan \<Rightarrow> (outcome \<times> goc_world \<times> goc_chan) out" where
  "mutex_send_grant env self worker w ch =
     (if self \<noteq> None then goc_put env self worker 1 w ch else goc_put_sync env self 1 w ch)"

text \<open>The sends one after the other; a put that parks would hold up the ones behind it.\<close>

fun send_grants ::
  "goc_env \<Rightarrow> nat option \<Rightarrow> nat option \<Rightarrow> nat list \<Rightarrow> goc_world \<Rightarrow> (nat \<Rightarrow> goc_chan)
   \<Rightarrow> (sends \<times> goc_world \<times> (nat \<Rightarrow> goc_chan)) out" where
  "send_grants env self worker [] w cs = Some (Inr (Sent, w, cs))"
| "send_grants env self worker (g # gs) w cs =
     obind (mutex_send_grant env self worker w (cs g)) (\<lambda>(r, w1, ch1).
     case r of
       Now v st \<Rightarrow> send_grants env self worker gs w1 (cs(g := ch1))
     | Parked p \<Rightarrow> Some (Inr (Blocked p gs, w1, cs(g := ch1))))"

text \<open>The callback number under which the close handler is registered on a gate.\<close>

definition lock_channel_closed_fn :: nat where
  "lock_channel_closed_fn = 1"

text \<open>The whole request: the gate is made and gets the close handler, then the locked part, then
  the grant.\<close>

definition mutex_lock_request ::
  "goc_env \<Rightarrow> nat option \<Rightarrow> nat option \<Rightarrow> bool \<Rightarrow> mutex_state \<Rightarrow> goc_world \<Rightarrow> (nat \<Rightarrow> goc_chan)
   \<Rightarrow> (nat \<times> sends \<times> mutex_state \<times> goc_world \<times> (nat \<Rightarrow> goc_chan)) out" where
  "mutex_lock_request env self worker wr s w cs =
     (case new_request wr s of (k, s1) \<Rightarrow>
      case chan_set_on_close (Some (lock_channel_closed_fn, k)) w (goc_chan_make 1) of (w1, ch) \<Rightarrow>
      case request_locked wr k s1 of (grant_now, s2) \<Rightarrow>
        obind (send_grants env self worker (if grant_now \<and> \<not> handled (ctxs s2 k) then [k] else []) w1 (cs(k := ch)))
          (\<lambda>(r, w2, cs2). Some (Inr (k, r, s2, w2, cs2))))"

definition goc_read_lock ::
  "goc_env \<Rightarrow> nat option \<Rightarrow> nat option \<Rightarrow> mutex_state \<Rightarrow> goc_world \<Rightarrow> (nat \<Rightarrow> goc_chan)
   \<Rightarrow> (nat \<times> sends \<times> mutex_state \<times> goc_world \<times> (nat \<Rightarrow> goc_chan)) out" where
  "goc_read_lock env self worker s w cs = mutex_lock_request env self worker False s w cs"

definition goc_write_lock ::
  "goc_env \<Rightarrow> nat option \<Rightarrow> nat option \<Rightarrow> mutex_state \<Rightarrow> goc_world \<Rightarrow> (nat \<Rightarrow> goc_chan)
   \<Rightarrow> (nat \<times> sends \<times> mutex_state \<times> goc_world \<times> (nat \<Rightarrow> goc_chan)) out" where
  "goc_write_lock env self worker s w cs = mutex_lock_request env self worker True s w cs"

text \<open>The whole close handler, on the loop thread and so outside every fiber.\<close>

definition mutex_on_lock_channel_closed ::
  "goc_env \<Rightarrow> nat \<Rightarrow> mutex_state \<Rightarrow> goc_world \<Rightarrow> (nat \<Rightarrow> goc_chan)
   \<Rightarrow> (sends \<times> mutex_state \<times> goc_world \<times> (nat \<Rightarrow> goc_chan)) out" where
  "mutex_on_lock_channel_closed env c s w cs =
     (case mutex_closed_locked c s of
        None \<Rightarrow> None
      | Some (gs, s1) \<Rightarrow>
          obind (send_grants env None None gs w cs) (\<lambda>(r, w1, cs1). Some (Inr (r, s1, w1, cs1))))"

section \<open>The registry of live mutexes\<close>

record mutex_registry =
  live_mutexes :: "nat list"
  live_cap :: nat

definition mutex_registry_init :: mutex_registry where
  "mutex_registry_init = \<lparr>live_mutexes = [], live_cap = 32\<rparr>"

definition mutex_register :: "nat \<Rightarrow> mutex_registry \<Rightarrow> mutex_registry" where
  "mutex_register m r =
     (let r1 = (if length (live_mutexes r) = live_cap r then r\<lparr>live_cap := size_mul (live_cap r) 2\<rparr> else r)
      in r1\<lparr>live_mutexes := live_mutexes r1 @ [m]\<rparr>)"

text \<open>The locks destroyed, in order, and the registry afterwards.\<close>

definition mutex_registry_destroy_all :: "mutex_registry \<Rightarrow> nat list \<times> mutex_registry" where
  "mutex_registry_destroy_all r = (live_mutexes r, \<lparr>live_mutexes = [], live_cap = 0\<rparr>)"

lemma mutex_register_room:
  "\<lbrakk>length (live_mutexes r) \<le> live_cap r; 0 < live_cap r; live_cap r < 2 ^ 63; mutex_register m r = r'\<rbrakk>
   \<Longrightarrow> length (live_mutexes r') \<le> live_cap r' \<and> 0 < live_cap r'"
  by (auto simp: mutex_register_def Let_def size_arith)

end
