(* ===== verification/Goc_Mutex_Queue.thy ===== *)
theory Goc_Mutex_Queue
  imports Goc_Mutex
begin

text \<open>
  The fair read-write lock that the mutex implements, as an abstract lock with its holders and
  its line of waiters, and the operations on the linked queue of mutex.c: the list of waiters the
  pointers stand for, and what enqueue, dequeue, the grants and the withdrawal do to it.
\<close>

section \<open>The abstract lock\<close>

text \<open>A request is its number with whether it is for writing.\<close>

record rw_lock =
  holders :: "(nat \<times> bool) list"
  waiting :: "(nat \<times> bool) list"
  issued :: nat

datatype mutex_op = Lock bool | Unlock nat

text \<open>Who is let in next: the first writer alone, or the readers up to the next writer.\<close>

definition batch :: "(nat \<times> bool) list \<Rightarrow> (nat \<times> bool) list" where
  "batch ws = (case ws of [] \<Rightarrow> [] | p # _ \<Rightarrow> if snd p then [p] else takeWhile (\<lambda>q. \<not> snd q) ws)"

definition lock_free :: "bool \<Rightarrow> rw_lock \<Rightarrow> bool" where
  "lock_free wr x = (waiting x = [] \<and> (if wr then holders x = [] else (\<forall>p \<in> set (holders x). \<not> snd p)))"

definition spec_lock :: "bool \<Rightarrow> rw_lock \<Rightarrow> nat list \<times> rw_lock" where
  "spec_lock wr x =
     (if lock_free wr x then ([issued x], x\<lparr>holders := holders x @ [(issued x, wr)], issued := Suc (issued x)\<rparr>)
      else ([], x\<lparr>waiting := waiting x @ [(issued x, wr)], issued := Suc (issued x)\<rparr>))"

definition without :: "nat \<Rightarrow> (nat \<times> bool) list \<Rightarrow> (nat \<times> bool) list" where
  "without k ps = filter (\<lambda>p. fst p \<noteq> k) ps"

definition spec_unlock :: "nat \<Rightarrow> rw_lock \<Rightarrow> nat list \<times> rw_lock" where
  "spec_unlock k x =
     (if k \<in> fst ` set (holders x)
      then
        (if without k (holders x) = []
         then (map fst (batch (waiting x)),
               x\<lparr>holders := batch (waiting x), waiting := drop (length (batch (waiting x))) (waiting x)\<rparr>)
         else ([], x\<lparr>holders := without k (holders x)\<rparr>))
      else ([], x\<lparr>waiting := without k (waiting x)\<rparr>))"

definition mutex_spec :: "mutex_op \<Rightarrow> rw_lock \<Rightarrow> (nat list \<times> rw_lock) option" where
  "mutex_spec c x = Some (case c of Lock wr \<Rightarrow> spec_lock wr x | Unlock k \<Rightarrow> spec_unlock k x)"

definition rw_make :: rw_lock where
  "rw_make = \<lparr>holders = [], waiting = [], issued = 0\<rparr>"

definition rw_ok :: "rw_lock \<Rightarrow> bool" where
  "rw_ok x = (distinct (map fst (holders x)) \<and> sorted_wrt (<) (map fst (waiting x)) \<and>
     (\<forall>h \<in> set (holders x). fst h < issued x \<and> (\<forall>p \<in> set (waiting x). fst h < fst p)) \<and>
     (\<forall>p \<in> set (waiting x). fst p < issued x) \<and>
     ((\<exists>p \<in> set (holders x). snd p) \<longrightarrow> length (holders x) = 1) \<and>
     (waiting x \<noteq> [] \<longrightarrow> holders x \<noteq> []))"

lemma batch_split:
  obtains b rest where "batch ws = b" "ws = b @ rest" "drop (length (batch ws)) ws = rest"
    "ws \<noteq> [] \<longrightarrow> b \<noteq> []" "(\<exists>p \<in> set b. snd p) \<longrightarrow> length b = 1"
proof (cases ws)
  case (Cons p qs)
  show ?thesis
  proof (cases "snd p")
    case True
    then show ?thesis using that [of "[p]" qs] Cons by (simp add: batch_def)
  next
    case False
    then have b: "batch ws = takeWhile (\<lambda>q. \<not> snd q) ws" using Cons by (simp add: batch_def)
    have n: "\<forall>p \<in> set (takeWhile (\<lambda>q. \<not> snd q) ws). \<not> snd p" by (auto dest: set_takeWhileD)
    have "takeWhile (\<lambda>q. \<not> snd q) ws \<noteq> []" using False Cons by simp
    then show ?thesis using that [OF b, of "dropWhile (\<lambda>q. \<not> snd q) ws"] n
      by (auto simp: b dropWhile_eq_drop [symmetric])
  qed
qed (simp add: that [of "[]" "[]"] batch_def)

lemma without_set [simp]: "set (without k ps) = {p \<in> set ps. fst p \<noteq> k}"
  by (simp add: without_def)

lemma distinct_without: "distinct (map fst ps) \<Longrightarrow> distinct (map fst (without k ps))"
  by (simp add: without_def distinct_map_filter)

lemma sorted_without: "sorted_wrt (<) (map fst ps) \<Longrightarrow> sorted_wrt (<) (map fst (without k ps))"
  by (simp add: without_def sorted_wrt_map sorted_wrt_filter)

lemma without_single: "\<lbrakk>length ps = 1; k \<in> fst ` set ps\<rbrakk> \<Longrightarrow> without k ps = []"
  by (cases ps) (auto simp: without_def)

text \<open>One step: the invariant, and the numbers granted come before everything still waiting.\<close>

definition grants_ok :: "nat list \<Rightarrow> rw_lock \<Rightarrow> rw_lock \<Rightarrow> bool" where
  "grants_ok gs x y = (sorted_wrt (<) gs \<and> issued x \<le> issued y \<and>
     (\<forall>g \<in> set gs. (g \<in> fst ` set (waiting x) \<or> issued x \<le> g) \<and> g < issued y \<and> (\<forall>p \<in> set (waiting y). g < fst p)) \<and>
     (\<forall>p \<in> set (waiting y). p \<in> set (waiting x) \<or> issued x \<le> fst p))"

lemma spec_lock_ok:
  assumes "rw_ok x" "spec_lock wr x = (gs, y)"
  shows "rw_ok y \<and> grants_ok gs x y"
proof (cases "lock_free wr x")
  case True
  then have y: "gs = [issued x]" "y = x\<lparr>holders := holders x @ [(issued x, wr)], issued := Suc (issued x)\<rparr>"
    using assms(2) by (auto simp: spec_lock_def)
  have h: "waiting x = []" "if wr then holders x = [] else (\<forall>p \<in> set (holders x). \<not> snd p)"
    using True by (auto simp: lock_free_def)
  have "rw_ok y" using assms(1) h unfolding rw_ok_def y by (auto split: if_splits)
  then show ?thesis using h(1) by (simp add: grants_ok_def y)
next
  case False
  then have y: "gs = []" "y = x\<lparr>waiting := waiting x @ [(issued x, wr)], issued := Suc (issued x)\<rparr>"
    using assms(2) by (auto simp: spec_lock_def)
  have "holders x \<noteq> []" using False assms(1) by (auto simp: lock_free_def rw_ok_def split: if_splits)
  then have "rw_ok y" using assms(1) unfolding rw_ok_def y by (simp add: sorted_wrt_append less_SucI ball_Un)
  then show ?thesis by (auto simp: grants_ok_def y)
qed

lemma spec_unlock_ok:
  assumes "rw_ok x" "spec_unlock k x = (gs, y)"
  shows "rw_ok y \<and> grants_ok gs x y"
proof (cases "k \<in> fst ` set (holders x)")
  case False
  then have y: "gs = []" "y = x\<lparr>waiting := without k (waiting x)\<rparr>" using assms(2) by (auto simp: spec_unlock_def)
  have "rw_ok y" using assms(1) sorted_without [of "waiting x" k] unfolding rw_ok_def y by (auto simp: without_def)
  then show ?thesis by (simp add: grants_ok_def y)
next
  case k: True
  show ?thesis
  proof (cases "without k (holders x) = []")
    case False
    then have y: "gs = []" "y = x\<lparr>holders := without k (holders x)\<rparr>"
      using k assms(2) by (auto simp: spec_unlock_def)
    have "\<not> (\<exists>p \<in> set (holders x). snd p)"
      using assms(1) without_single [of "holders x" k] k False unfolding rw_ok_def by blast
    then have "rw_ok y" using assms(1) False distinct_without [of "holders x" k] unfolding rw_ok_def y by simp
    then show ?thesis by (simp add: grants_ok_def y)
  next
    case True
    obtain b rest where b: "batch (waiting x) = b" "waiting x = b @ rest" "drop (length (batch (waiting x))) (waiting x) = rest"
      "waiting x \<noteq> [] \<longrightarrow> b \<noteq> []" "(\<exists>p \<in> set b. snd p) \<longrightarrow> length b = 1"
      by (rule batch_split)
    have y: "gs = map fst b" "y = x\<lparr>holders := b, waiting := rest\<rparr>"
      using k True assms(2) b(1,3) by (auto simp: spec_unlock_def)
    have s: "sorted_wrt (<) (map fst b)" "sorted_wrt (<) (map fst rest)" "\<forall>p \<in> set b. \<forall>q \<in> set rest. fst p < fst q"
      "\<forall>p \<in> set b \<union> set rest. fst p < issued x"
      using assms(1) by (simp_all add: rw_ok_def b(2) sorted_wrt_append)
    then have "rw_ok y" using b(4,5) unfolding rw_ok_def y by (auto simp: b(2) strict_sorted_iff)
    then show ?thesis using s by (simp add: grants_ok_def y b(2))
  qed
qed

lemma mutex_spec_ok: "\<lbrakk>rw_ok x; mutex_spec c x = Some (gs, y)\<rbrakk> \<Longrightarrow> rw_ok y \<and> grants_ok gs x y"
  using spec_lock_ok [of x _ gs y] spec_unlock_ok [of x _ gs y] by (cases c) (simp_all add: mutex_spec_def)

lemma mutex_run_total: "\<exists>gs y. spec_run mutex_spec cs x = Some (gs, y)"
proof (induction cs arbitrary: x)
  case (Cons c cs)
  obtain g z where "mutex_spec c x = Some (g, z)" by (cases "case c of Lock wr \<Rightarrow> spec_lock wr x | Unlock k \<Rightarrow> spec_unlock k x")
    (auto simp: mutex_spec_def)
  with Cons [of z] show ?case by auto
qed simp

lemma mutex_run_sorted:
  "\<lbrakk>rw_ok x; spec_run mutex_spec cs x = Some (gs, y)\<rbrakk>
   \<Longrightarrow> rw_ok y \<and> sorted_wrt (<) (concat gs) \<and>
     (\<forall>g \<in> set (concat gs). g \<in> fst ` set (waiting x) \<or> issued x \<le> g)"
proof (induction cs arbitrary: x gs)
  case (Cons c cs)
  from Cons.prems(2) obtain g z hs where 1: "mutex_spec c x = Some (g, z)"
    "spec_run mutex_spec cs z = Some (hs, y)" "gs = g # hs"
    by (auto split: option.splits)
  have 2: "rw_ok z" "grants_ok g x z" using mutex_spec_ok [OF Cons.prems(1) 1(1)] by auto
  note ih = Cons.IH [OF 2(1) 1(2)]
  have "a < b" if "a \<in> set g" "b \<in> set (concat hs)" for a b
  proof -
    have "a < issued z" "\<forall>p \<in> set (waiting z). a < fst p" using 2(2) that(1) by (auto simp: grants_ok_def)
    then show ?thesis using ih that(2) by fastforce
  qed
  moreover have "b \<in> fst ` set (waiting x) \<or> issued x \<le> b" if "b \<in> set (concat hs)" for b
  proof -
    have "b \<in> fst ` set (waiting z) \<or> issued z \<le> b" using ih that by blast
    then show ?thesis using 2(2) by (auto simp: grants_ok_def)
  qed
  moreover have "sorted_wrt (<) g" "\<forall>a \<in> set g. a \<in> fst ` set (waiting x) \<or> issued x \<le> a"
    using 2(2) by (simp_all add: grants_ok_def)
  moreover have "concat gs = g @ concat hs" by (simp add: 1(3))
  ultimately show ?case using ih by (auto simp: sorted_wrt_append simp del: set_concat)
qed simp

section \<open>The linked queue\<close>

fun chain :: "(nat \<Rightarrow> goc_mutex_waiter) \<Rightarrow> nat option \<Rightarrow> nat list \<Rightarrow> bool" where
  "chain h p [] = (p = None)"
| "chain h p (x # xs) = (p = Some x \<and> chain h (w_next (h x)) xs)"

definition tail_of :: "nat list \<Rightarrow> nat option" where
  "tail_of xs = (if xs = [] then None else Some (last xs))"

lemma tail_of_simps [simp]:
  "tail_of [] = None" "tail_of (xs @ [x]) = Some x" "tail_of (x # y # xs) = tail_of (y # xs)" "tail_of [x] = Some x"
  "tail_of (ys @ x # xs) = tail_of (x # xs)"
  by (simp_all add: tail_of_def)

definition queue_ok :: "mutex_state \<Rightarrow> nat list \<Rightarrow> bool" where
  "queue_ok s xs = (chain (wtrs s) (q_head s) xs \<and> q_tail s = tail_of xs \<and> distinct xs)"

text \<open>What the queue operations leave alone: everything but the list.\<close>

definition fixed :: "goc_mutex_waiter \<Rightarrow> nat \<times> bool \<times> nat" where
  "fixed x = (gate x, is_writer x, w_ctx x)"

definition same_lock :: "mutex_state \<Rightarrow> mutex_state \<Rightarrow> bool" where
  "same_lock s s' = (active_readers s' = active_readers s \<and> writer_active s' = writer_active s \<and>
     waiting_writers s' = waiting_writers s \<and> ctxs s' = ctxs s \<and> requests s' = requests s \<and>
     (\<forall>k. fixed (wtrs s' k) = fixed (wtrs s k)))"

lemma fixed_next [simp]: "fixed (x\<lparr>w_next := n\<rparr>) = fixed x"
  by (simp add: fixed_def)

lemma upd_wtr_simps [simp]:
  "active_readers (upd_wtr k f s) = active_readers s" "writer_active (upd_wtr k f s) = writer_active s"
  "waiting_writers (upd_wtr k f s) = waiting_writers s" "q_head (upd_wtr k f s) = q_head s"
  "q_tail (upd_wtr k f s) = q_tail s" "ctxs (upd_wtr k f s) = ctxs s" "requests (upd_wtr k f s) = requests s"
  "wtrs (upd_wtr k f s) = (wtrs s)(k := f (wtrs s k))"
  by (simp_all add: upd_wtr_def)

lemma upd_ctx_simps [simp]:
  "active_readers (upd_ctx k g s) = active_readers s" "writer_active (upd_ctx k g s) = writer_active s"
  "waiting_writers (upd_ctx k g s) = waiting_writers s" "q_head (upd_ctx k g s) = q_head s"
  "q_tail (upd_ctx k g s) = q_tail s" "wtrs (upd_ctx k g s) = wtrs s" "requests (upd_ctx k g s) = requests s"
  "ctxs (upd_ctx k g s) = (ctxs s)(k := g (ctxs s k))"
  by (simp_all add: upd_ctx_def)

lemma queue_ok_simps [simp]:
  "queue_ok (upd_ctx k g s) xs = queue_ok s xs" "queue_ok (s\<lparr>writer_active := b\<rparr>) xs = queue_ok s xs"
  "queue_ok (s\<lparr>active_readers := n\<rparr>) xs = queue_ok s xs" "queue_ok (s\<lparr>waiting_writers := n\<rparr>) xs = queue_ok s xs"
  by (simp_all add: queue_ok_def)

lemma chain_upd: "k \<notin> set xs \<Longrightarrow> chain (h(k := v)) p xs = chain h p xs"
  by (induction xs arbitrary: p) auto

lemma chain_cut: "chain h p (xs @ ys) \<Longrightarrow> chain h (if xs = [] then p else w_next (h (last xs))) ys"
  by (induction xs arbitrary: p) (auto split: if_splits)

lemma chain_relink:
  "\<lbrakk>xs \<noteq> []; distinct xs; chain h p (xs @ ys); chain h r zs; set xs \<inter> set zs = {}\<rbrakk>
   \<Longrightarrow> chain (h(last xs := (h (last xs))\<lparr>w_next := r\<rparr>)) p (xs @ zs)"
proof (induction xs arbitrary: p)
  case (Cons x xs)
  from Cons.prems have c: "p = Some x" "chain h (w_next (h x)) (xs @ ys)" "x \<notin> set xs" "distinct xs" by auto
  show ?case
  proof (cases "xs = []")
    case True
    have "chain (h(x := (h x)\<lparr>w_next := r\<rparr>)) r zs" using Cons.prems(4,5) chain_upd [of x zs h _ r] by simp
    moreover have "last (x # xs) = x" using True by simp
    ultimately show ?thesis using True c(1) by (simp only: append_Cons append_Nil chain.simps fun_upd_same) simp
  next
    case False
    then have "last xs \<noteq> x" using c(3) last_in_set by fastforce
    then show ?thesis using Cons.IH [OF False c(4,2)] Cons.prems(4,5) c(1) False by simp
  qed
qed simp

lemma enqueue_ok:
  assumes "queue_ok s xs" "k \<notin> set xs"
  shows "queue_ok (mutex_enqueue k s) (xs @ [k]) \<and> same_lock s (mutex_enqueue k s)"
proof (cases "xs = []")
  case True
  with assms show ?thesis by (simp add: queue_ok_def mutex_enqueue_def same_lock_def)
next
  case False
  let ?h = "(wtrs s)(k := (wtrs s k)\<lparr>w_next := None\<rparr>)"
  have q: "chain (wtrs s) (q_head s) xs" "q_tail s = Some (last xs)" "distinct xs"
    using assms(1) False by (simp_all add: queue_ok_def tail_of_def)
  have "last xs \<noteq> k" using assms(2) False last_in_set by blast
  moreover have "chain ?h (q_head s) (xs @ [])" using q(1) assms(2) by (simp add: chain_upd)
  from chain_relink [OF False q(3) this, of "Some k" "[k]"] assms(2)
  have "chain (?h(last xs := (?h (last xs))\<lparr>w_next := Some k\<rparr>)) (q_head s) (xs @ [k])" by simp
  moreover have "mutex_enqueue k s = (upd_wtr (last xs) (\<lambda>x. x\<lparr>w_next := Some k\<rparr>)
      (upd_wtr k (\<lambda>x. x\<lparr>w_next := None\<rparr>) s))\<lparr>q_tail := Some k\<rparr>"
    using q(2) by (simp add: mutex_enqueue_def)
  ultimately show ?thesis using q(3) assms(2) by (simp add: queue_ok_def same_lock_def)
qed

lemma dequeue_ok:
  assumes "queue_ok s (x # xs)"
  obtains s' where "mutex_dequeue s = (Some x, s')" "queue_ok s' xs" "same_lock s s'"
    "wtrs s' = (wtrs s)(x := (wtrs s x)\<lparr>w_next := None\<rparr>)"
proof -
  from assms have c: "q_head s = Some x" "chain (wtrs s) (w_next (wtrs s x)) xs" "x \<notin> set xs" "distinct xs"
    "q_tail s = tail_of (x # xs)" by (auto simp: queue_ok_def)
  define s' where "s' = snd (mutex_dequeue s)"
  have n: "w_next (wtrs s x) = None \<longleftrightarrow> xs = []" using c(2) by (cases xs) auto
  have "mutex_dequeue s = (Some x, s')" by (simp add: s'_def mutex_dequeue_def c(1) Let_def)
  moreover have "wtrs s' = (wtrs s)(x := (wtrs s x)\<lparr>w_next := None\<rparr>)" by (simp add: s'_def mutex_dequeue_def c(1) Let_def)
  moreover have "same_lock s s'" by (simp add: s'_def mutex_dequeue_def c(1) Let_def same_lock_def)
  moreover have "queue_ok s' xs" using c(2-5) n
    by (cases xs) (simp_all add: s'_def mutex_dequeue_def c(1) Let_def queue_ok_def chain_upd)
  ultimately show ?thesis using that by blast
qed

lemma same_lockD:
  assumes "same_lock s s'"
  shows "active_readers s' = active_readers s" "writer_active s' = writer_active s"
    "waiting_writers s' = waiting_writers s" "ctxs s' = ctxs s" "requests s' = requests s"
    "gate (wtrs s' k) = gate (wtrs s k)" "is_writer (wtrs s' k) = is_writer (wtrs s k)"
    "w_ctx (wtrs s' k) = w_ctx (wtrs s k)"
  using assms by (auto simp: same_lock_def fixed_def)

section \<open>Granting\<close>

lemma grant_gates_ok: "chain (wtrs s) it gs \<Longrightarrow> grant_gates it s = Some (map (\<lambda>k. gate (wtrs s k)) gs)"
  by (induction gs arbitrary: it) (subst grant_gates.simps, auto)+

text \<open>What the locked part of a grant promises: the batch, in order, is marked as acquired.\<close>

definition acquire :: "nat set \<Rightarrow> (nat \<Rightarrow> goc_mutex_release_ctx) \<Rightarrow> nat \<Rightarrow> goc_mutex_release_ctx" where
  "acquire A c = (\<lambda>k. if k \<in> A then (c k)\<lparr>acquired := True\<rparr> else c k)"

lemma acquire_Un: "acquire A (acquire B c) = acquire (A \<union> B) c"
  by (auto simp: acquire_def fun_eq_iff)

lemma acquire_single: "c(k := (c k)\<lparr>acquired := True\<rparr>) = acquire {k} c"
  by (auto simp: acquire_def fun_eq_iff)

lemma grant_reader_ok:
  assumes "chain (wtrs s) gh gs" "gt = tail_of gs" "distinct gs" "r \<notin> set gs" "w_next (wtrs s r) = None"
    "queue_ok s xs" "set gs \<inter> set xs = {}" "w_ctx (wtrs s r) = r" "Suc (active_readers s) < 2 ^ 64"
  obtains gh' s' where "grant_reader gh gt r s = (gh', Some r, s')" "chain (wtrs s') gh' (gs @ [r])" "queue_ok s' xs"
    "active_readers s' = Suc (active_readers s)" "ctxs s' = acquire {r} (ctxs s)"
    "writer_active s' = writer_active s" "waiting_writers s' = waiting_writers s" "requests s' = requests s"
    "\<forall>k. fixed (wtrs s' k) = fixed (wtrs s k)"
proof -
  let ?s2 = "upd_ctx r (\<lambda>c. c\<lparr>acquired := True\<rparr>) (s\<lparr>active_readers := Suc (active_readers s)\<rparr>)"
  show ?thesis
  proof (cases "gs = []")
    case True
    then show ?thesis using assms that [of "Some r" ?s2]
      by (simp add: grant_reader_def size_arith acquire_single)
  next
    case False
    let ?t = "last gs"
    let ?s' = "upd_wtr ?t (\<lambda>x. x\<lparr>w_next := Some r\<rparr>) ?s2"
    have "grant_reader gh gt r s = (gh, Some r, ?s')"
      using assms(2,8,9) False by (simp add: grant_reader_def size_arith tail_of_def)
    moreover have "chain (wtrs ?s') gh (gs @ [r])"
      using chain_relink [OF False assms(3), of "wtrs s" gh "[]" "Some r" "[r]"] assms(1,4,5) by simp
    moreover have "queue_ok ?s' xs"
      using assms(6) chain_upd [of ?t xs "wtrs s" _ "q_head s"] disjoint_iff [THEN iffD1, OF assms(7)]
        last_in_set [OF False] by (simp add: queue_ok_def)
    ultimately show ?thesis using that [of gh ?s'] by (simp add: acquire_single)
  qed
qed

lemma reader_loop_ok:
  assumes "chain (wtrs s) gh gs" "gt = tail_of gs" "distinct gs" "queue_ok s xs" "set gs \<inter> set xs = {}"
    "\<forall>k \<in> set xs. w_ctx (wtrs s k) = k" "active_readers s + length xs < 2 ^ 64"
    "us = takeWhile (\<lambda>k. \<not> is_writer (wtrs s k)) xs"
  shows "\<exists>gh' s'. reader_loop gh gt s = Some (gh', s') \<and> chain (wtrs s') gh' (gs @ us) \<and>
    queue_ok s' (drop (length us) xs) \<and> active_readers s' = active_readers s + length us \<and>
    ctxs s' = acquire (set us) (ctxs s) \<and> writer_active s' = writer_active s \<and>
    waiting_writers s' = waiting_writers s \<and> requests s' = requests s \<and> (\<forall>k. fixed (wtrs s' k) = fixed (wtrs s k))"
  using assms
proof (induction xs arbitrary: s gh gs gt us)
  case Nil
  then show ?case by (subst reader_loop.simps) (simp add: queue_ok_def acquire_def)
next
  case (Cons x xs)
  have h: "q_head s = Some x" using Cons.prems(4) by (simp add: queue_ok_def)
  show ?case
  proof (cases "is_writer (wtrs s x)")
    case True
    then show ?thesis using Cons.prems h by (subst reader_loop.simps) (simp add: acquire_def)
  next
    case False
    obtain s1 where d: "mutex_dequeue s = (Some x, s1)" "queue_ok s1 xs" "same_lock s s1"
      "wtrs s1 = (wtrs s)(x := (wtrs s x)\<lparr>w_next := None\<rparr>)"
      by (rule dequeue_ok [OF Cons.prems(4)])
    note sl = same_lockD [OF d(3)]
    have 1: "chain (wtrs s1) gh gs" "x \<notin> set gs" "w_next (wtrs s1 x) = None" "set gs \<inter> set xs = {}"
      "w_ctx (wtrs s1 x) = x" "Suc (active_readers s1) < 2 ^ 64" "x \<notin> set xs" "distinct xs"
      using Cons.prems d(4) sl by (auto simp: chain_upd queue_ok_def)
    obtain gh2 s2 where g: "grant_reader gh gt x s1 = (gh2, Some x, s2)" "chain (wtrs s2) gh2 (gs @ [x])" "queue_ok s2 xs"
      "active_readers s2 = Suc (active_readers s1)" "ctxs s2 = acquire {x} (ctxs s1)"
      "writer_active s2 = writer_active s1" "waiting_writers s2 = waiting_writers s1" "requests s2 = requests s1"
      "\<forall>k. fixed (wtrs s2 k) = fixed (wtrs s1 k)"
      by (rule grant_reader_ok [OF 1(1) Cons.prems(2,3) 1(2,3) d(2) 1(4,5,6)])
    have f: "fixed (wtrs s2 k) = fixed (wtrs s k)" for k using g(9) d(3) by (simp add: same_lock_def)
    then have iw: "is_writer (wtrs s2 k) = is_writer (wtrs s k)" "w_ctx (wtrs s2 k) = w_ctx (wtrs s k)" for k
      by (auto simp: fixed_def)
    let ?us = "takeWhile (\<lambda>k. \<not> is_writer (wtrs s2 k)) xs"
    have us: "us = x # ?us" using Cons.prems(8) False by (simp add: iw)
    have "\<exists>gh' s'. reader_loop gh2 (Some x) s2 = Some (gh', s') \<and> chain (wtrs s') gh' ((gs @ [x]) @ ?us) \<and>
      queue_ok s' (drop (length ?us) xs) \<and> active_readers s' = active_readers s2 + length ?us \<and>
      ctxs s' = acquire (set ?us) (ctxs s2) \<and> writer_active s' = writer_active s2 \<and>
      waiting_writers s' = waiting_writers s2 \<and> requests s' = requests s2 \<and> (\<forall>k. fixed (wtrs s' k) = fixed (wtrs s2 k))"
      using Cons.prems 1 sl(1) g(4) iw by (intro Cons.IH [OF g(2) _ _ g(3)]) auto
    moreover have "reader_loop gh gt s = reader_loop gh2 (Some x) s2"
      using h False d(1) g(1) by (subst reader_loop.simps) simp
    ultimately show ?thesis using us sl g f by (auto simp: acquire_Un)
  qed
qed

definition readers_in :: "(nat \<times> bool) list \<Rightarrow> nat" where
  "readers_in ps = length (filter (\<lambda>p. \<not> snd p) ps)"

definition writers_in :: "(nat \<times> bool) list \<Rightarrow> nat" where
  "writers_in ps = length (filter snd ps)"

lemma counts_simps [simp]:
  "readers_in [] = 0" "readers_in (p # ps) = (if snd p then 0 else 1) + readers_in ps"
  "readers_in (ps @ qs) = readers_in ps + readers_in qs"
  "writers_in [] = 0" "writers_in (p # ps) = (if snd p then 1 else 0) + writers_in ps"
  "writers_in (ps @ qs) = writers_in ps + writers_in qs"
  by (simp_all add: readers_in_def writers_in_def)

lemma counts_le: "readers_in ps \<le> length ps" "writers_in ps \<le> length ps"
  by (simp_all add: readers_in_def writers_in_def)

lemma readers_only:
  "\<forall>p \<in> set ps. \<not> snd p \<Longrightarrow> readers_in ps = length ps" "\<forall>p \<in> set ps. \<not> snd p \<Longrightarrow> writers_in ps = 0"
  by (simp_all add: readers_in_def writers_in_def)

lemma size_sub_Suc: "Suc n < 2 ^ 64 \<Longrightarrow> size_sub (Suc n) (Suc 0) = n"
  by (simp add: size_sub_eq)

lemma hand_over_ok:
  assumes "queue_ok s (map fst ws)" "\<forall>p \<in> set ws. is_writer (wtrs s (fst p)) = snd p \<and> w_ctx (wtrs s (fst p)) = fst p"
    "\<not> writer_active s" "active_readers s = 0" "length ws < 2 ^ 64" "waiting_writers s = writers_in ws"
  shows "\<exists>gh s'. hand_over s = Some (gh, s') \<and> chain (wtrs s') gh (map fst (batch ws)) \<and>
    queue_ok s' (map fst (drop (length (batch ws)) ws)) \<and> active_readers s' = readers_in (batch ws) \<and>
    writer_active s' = (\<exists>p \<in> set (batch ws). snd p) \<and> waiting_writers s' = writers_in (drop (length (batch ws)) ws) \<and>
    ctxs s' = acquire (fst ` set (batch ws)) (ctxs s) \<and> requests s' = requests s \<and>
    (\<forall>k. fixed (wtrs s' k) = fixed (wtrs s k))"
proof (cases ws)
  case Nil
  then show ?thesis using assms by (simp add: hand_over_def batch_def acquire_def queue_ok_def)
next
  case (Cons p ps)
  have h: "q_head s = Some (fst p)" using assms(1) Cons by (simp add: queue_ok_def)
  show ?thesis
  proof (cases "snd p")
    case True
    obtain s1 where d: "mutex_dequeue s = (Some (fst p), s1)" "queue_ok s1 (map fst ps)" "same_lock s s1"
      "wtrs s1 = (wtrs s)(fst p := (wtrs s (fst p))\<lparr>w_next := None\<rparr>)"
      using dequeue_ok [of s "fst p" "map fst ps"] assms(1) Cons by auto
    have "size_sub (Suc (writers_in ps)) 1 = writers_in ps"
      using counts_le(2) [of ps] assms(5) Cons by (simp add: size_sub_eq)
    then show ?thesis using True Cons h d assms same_lockD [OF d(3)]
      by (simp add: hand_over_def batch_def grant_writer_def size_arith acquire_single same_lock_def)
  next
    case False
    let ?us = "takeWhile (\<lambda>k. \<not> is_writer (wtrs s k)) (map fst ws)"
    have b: "batch ws = takeWhile (\<lambda>q. \<not> snd q) ws" using False Cons by (simp add: batch_def)
    have us: "?us = map fst (batch ws)"
      using assms(2) unfolding b by (induction ws) auto
    have br: "\<forall>p \<in> set (batch ws). \<not> snd p" unfolding b by (auto dest: set_takeWhileD)
    obtain b' rest where "batch ws = b'" "ws = b' @ rest" "drop (length (batch ws)) ws = rest"
      "ws \<noteq> [] \<longrightarrow> b' \<noteq> []" "(\<exists>p \<in> set b'. snd p) \<longrightarrow> length b' = 1"
      by (rule batch_split)
    then have w: "writers_in (drop (length (batch ws)) ws) = writers_in ws" using readers_only(2) [OF br] by simp
    have "hand_over s = reader_loop None None s"
      using h assms False Cons by (simp add: hand_over_def)
    moreover have "\<exists>gh' s'. reader_loop None None s = Some (gh', s') \<and> chain (wtrs s') gh' ([] @ ?us) \<and>
      queue_ok s' (drop (length ?us) (map fst ws)) \<and> active_readers s' = active_readers s + length ?us \<and>
      ctxs s' = acquire (set ?us) (ctxs s) \<and> writer_active s' = writer_active s \<and>
      waiting_writers s' = waiting_writers s \<and> requests s' = requests s \<and> (\<forall>k. fixed (wtrs s' k) = fixed (wtrs s k))"
      by (rule reader_loop_ok) (use assms in auto)
    ultimately show ?thesis using us br w assms(3,4,6) readers_only(1) [OF br] by (auto simp: drop_map)
  qed
qed

section \<open>Withdrawing\<close>

lemma unlink_ok:
  assumes "queue_ok s (ys @ c # zs)" "waiting_writers s = n + (if is_writer (wtrs s c) then 1 else 0)" "waiting_writers s < 2 ^ 64"
  shows "queue_ok (unlink (tail_of ys) c s) (ys @ zs) \<and> waiting_writers (unlink (tail_of ys) c s) = n \<and>
    active_readers (unlink (tail_of ys) c s) = active_readers s \<and> writer_active (unlink (tail_of ys) c s) = writer_active s \<and>
    ctxs (unlink (tail_of ys) c s) = ctxs s \<and> requests (unlink (tail_of ys) c s) = requests s \<and>
    (\<forall>k. fixed (wtrs (unlink (tail_of ys) c s) k) = fixed (wtrs s k))"
proof -
  have q: "chain (wtrs s) (q_head s) (ys @ c # zs)" "q_tail s = tail_of (c # zs)" "distinct (ys @ c # zs)"
    using assms(1) by (simp_all add: queue_ok_def)
  have z: "chain (wtrs s) (w_next (wtrs s c)) zs" using chain_cut [OF q(1)] by simp
  have t: "tail_of (c # zs) = Some c \<longleftrightarrow> zs = []" using q(3) last_in_set [of zs] by (auto simp: tail_of_def)
  have n: "is_writer (wtrs s c) \<Longrightarrow> size_sub (Suc n) (Suc 0) = n" using assms(2,3) by (simp add: size_sub_Suc)
  show ?thesis
  proof (cases "ys = []")
    case True
    then show ?thesis using q z t assms(2) n
      by (cases zs) (simp_all add: unlink_def Let_def queue_ok_def)
  next
    case False
    let ?h = "(wtrs s)(last ys := (wtrs s (last ys))\<lparr>w_next := w_next (wtrs s c)\<rparr>)"
    have "chain ?h (q_head s) (ys @ zs)" using chain_relink [OF False _ q(1) z] q(3) by auto
    moreover have "tail_of (ys @ zs) = (if zs = [] then tail_of ys else tail_of (c # zs))" by (cases zs) simp_all
    moreover have "last ys \<noteq> c" using False q(3) last_in_set by fastforce
    moreover have "tail_of ys = Some (last ys)" using False by (simp add: tail_of_def)
    ultimately show ?thesis using q t assms(2) n
      by (auto simp: unlink_def Let_def queue_ok_def)
  qed
qed

lemma cancel_loop_ok:
  "\<lbrakk>chain (wtrs s) cur (zs @ c # us); c \<notin> set zs\<rbrakk>
   \<Longrightarrow> cancel_loop c (tail_of ys) cur s = Some (unlink (tail_of (ys @ zs)) c s)"
proof (induction zs arbitrary: cur ys)
  case Nil
  then show ?case by (subst cancel_loop.simps) simp
next
  case (Cons z zs)
  have "cancel_loop c (tail_of ys) cur s = cancel_loop c (tail_of (ys @ [z])) (w_next (wtrs s z)) s"
    using Cons.prems by (subst cancel_loop.simps) simp
  then show ?case using Cons.IH [of "w_next (wtrs s z)" "ys @ [z]"] Cons.prems by simp
qed

lemma cancel_waiter_ok:
  assumes "queue_ok s (map fst ws)" "\<forall>p \<in> set ws. is_writer (wtrs s (fst p)) = snd p" "k \<in> fst ` set ws"
    "waiting_writers s = writers_in ws" "length ws < 2 ^ 64"
  shows "\<exists>s'. mutex_cancel_waiter k s = Some s' \<and> queue_ok s' (map fst (without k ws)) \<and>
    waiting_writers s' = writers_in (without k ws) \<and>
    active_readers s' = active_readers s \<and> writer_active s' = writer_active s \<and>
    ctxs s' = ctxs s \<and> requests s' = requests s \<and> (\<forall>k. fixed (wtrs s' k) = fixed (wtrs s k))"
proof -
  obtain p where p: "p \<in> set ws" "fst p = k" using assms(3) by auto
  then obtain ys zs where ws: "ws = ys @ p # zs" by (meson split_list)
  have d: "distinct (map fst ws)" using assms(1) by (simp add: queue_ok_def)
  then have "k \<notin> fst ` set ys" "k \<notin> fst ` set zs" using p(2) by (auto simp: ws)
  then have "filter (\<lambda>p. fst p \<noteq> k) ys = ys" "filter (\<lambda>p. fst p \<noteq> k) zs = zs" by (intro filter_True; force)+
  then have wo: "without k ws = ys @ zs" using p(2) by (simp add: ws without_def)
  have q: "queue_ok s (map fst ys @ k # map fst zs)" using assms(1) ws p(2) by simp
  have w: "waiting_writers s = (writers_in ys + writers_in zs) + (if is_writer (wtrs s k) then 1 else 0)"
    "waiting_writers s < 2 ^ 64"
    using assms(2,4,5) counts_le(2) [of ws] p by (auto simp: ws)
  have "mutex_cancel_waiter k s = Some (unlink (tail_of (map fst ys)) k s)"
    using cancel_loop_ok [of s "q_head s" "map fst ys" k "map fst zs" "[]"] q
    by (auto simp: mutex_cancel_waiter_def queue_ok_def)
  then show ?thesis using unlink_ok [OF q w] by (simp add: wo)
qed

end
