(* ===== verification/Goc_Mutex_Props.thy ===== *)
theory Goc_Mutex_Props
  imports Goc_Mutex_Queue
begin

text \<open>
  The mutex of mutex.c is the fair read-write lock: the refinement of the linked queue, the
  counters and the context flags to the abstract lock, and what follows for every sequence of
  requests and closes: exclusion, service in order of request, no lost wakeup, and grants that
  never block the one who sends them.
\<close>

section \<open>Refinement\<close>

definition counters_ok :: "mutex_state \<Rightarrow> rw_lock \<Rightarrow> bool" where
  "counters_ok s x = (active_readers s = readers_in (holders x) \<and>
     writer_active s = (\<exists>p \<in> set (holders x). snd p) \<and> waiting_writers s = writers_in (waiting x))"

definition request_ok :: "mutex_state \<Rightarrow> rw_lock \<Rightarrow> nat \<Rightarrow> bool" where
  "request_ok s x k = (w_ctx (wtrs s k) = k \<and> gate (wtrs s k) = k \<and> ctx_waiter (ctxs s k) = k \<and>
     ctx_writer (ctxs s k) = is_writer (wtrs s k) \<and>
     (handled (ctxs s k) \<longleftrightarrow> k \<notin> fst ` set (holders x) \<and> k \<notin> fst ` set (waiting x)) \<and>
     (k \<in> fst ` set (holders x) \<longrightarrow> acquired (ctxs s k)) \<and> (k \<in> fst ` set (waiting x) \<longrightarrow> \<not> acquired (ctxs s k)))"

definition mutex_rel :: "nat \<Rightarrow> mutex_state \<Rightarrow> rw_lock \<Rightarrow> bool" where
  "mutex_rel n s x = (rw_ok x \<and> queue_ok s (map fst (waiting x)) \<and> requests s = issued x \<and>
     (\<forall>k < issued x. request_ok s x k) \<and> counters_ok s x \<and>
     (\<forall>p \<in> set (holders x) \<union> set (waiting x). is_writer (wtrs s (fst p)) = snd p) \<and>
     length (holders x) + length (waiting x) + n < 2 ^ 64)"

text \<open>The requests and the closes of gates that were handed out, with the gates each one grants.\<close>

definition mutex_exec :: "mutex_op \<Rightarrow> mutex_state \<Rightarrow> (nat list \<times> mutex_state) out" where
  "mutex_exec c s =
     (case c of
        Lock wr \<Rightarrow>
          (case new_request wr s of (k, s1) \<Rightarrow>
           case request_locked wr k s1 of (grant_now, s2) \<Rightarrow>
             Some (Inr (if grant_now \<and> \<not> handled (ctxs s2 k) then [k] else [], s2)))
      | Unlock k \<Rightarrow>
          if k < requests s then map_option Inr (mutex_closed_locked k s) else Some (Inr ([], s)))"


lemma writer_alone: "\<lbrakk>rw_ok x; p \<in> set (holders x); snd p\<rbrakk> \<Longrightarrow> holders x = [p]"
  by (cases "holders x") (auto simp: rw_ok_def)

lemma readers_without:
  "\<lbrakk>distinct (map fst ps); p \<in> set ps; \<forall>q \<in> set ps. \<not> snd q\<rbrakk> \<Longrightarrow> readers_in (without (fst p) ps) = readers_in ps - 1"
proof (induction ps)
  case (Cons q qs)
  then have d: "fst q \<notin> fst ` set qs" "distinct (map fst qs)" by auto
  show ?case
  proof (cases "p = q")
    case True
    have "filter (\<lambda>p. fst p \<noteq> fst q) qs = qs" using d(1) by (intro filter_True) (metis imageI)
    then show ?thesis using True Cons.prems(3) by (simp add: without_def)
  next
    case False
    then have "p \<in> set qs" "fst q \<noteq> fst p" using Cons.prems d(1) by auto
    then have "0 < readers_in qs" using Cons.prems(3) by (auto simp: readers_in_def filter_empty_conv)
    then show ?thesis using Cons \<open>p \<in> set qs\<close> \<open>fst q \<noteq> fst p\<close> d(2) by (simp add: without_def)
  qed
qed simp

lemma idle_iff: "\<not> (\<exists>p \<in> set ps. snd p) \<and> readers_in ps = 0 \<longleftrightarrow> ps = []"
  by (cases ps) auto

lemma lock_ok:
  assumes "mutex_rel (Suc n) s x" "spec_lock wr x = (gs, y)"
  shows "\<exists>s'. mutex_exec (Lock wr) s = Some (Inr (gs, s')) \<and> mutex_rel n s' y"
proof -
  let ?k = "issued x"
  obtain s1 where s1: "new_request wr s = (?k, s1)" using assms(1) by (simp add: new_request_def mutex_rel_def Let_def)
  have x: "rw_ok x" "queue_ok s (map fst (waiting x))" "requests s = ?k" "\<forall>k < ?k. request_ok s x k" "counters_ok s x"
    "\<forall>p \<in> set (holders x) \<union> set (waiting x). is_writer (wtrs s (fst p)) = snd p"
    "length (holders x) + length (waiting x) + Suc n < 2 ^ 64"
    using assms(1) by (simp_all add: mutex_rel_def)
  have e1: "wtrs s1 = (wtrs s)(?k := \<lparr>w_next = None, gate = ?k, is_writer = wr, w_ctx = ?k\<rparr>)"
    "ctxs s1 = (ctxs s)(?k := \<lparr>ctx_waiter = ?k, ctx_writer = wr, acquired = False, handled = False\<rparr>)"
    "requests s1 = Suc ?k" "active_readers s1 = active_readers s" "writer_active s1 = writer_active s"
    "waiting_writers s1 = waiting_writers s" "q_head s1 = q_head s" "q_tail s1 = q_tail s"
    using s1 x(3) by (auto simp: new_request_def Let_def)
  have old: "fst p < ?k" if "p \<in> set (holders x) \<union> set (waiting x)" for p using x(1) that by (auto simp: rw_ok_def)
  then have k: "?k \<notin> set (map fst (waiting x))" "?k \<notin> fst ` set (holders x)" by force+
  have nk: "\<forall>p \<in> set (holders x) \<union> set (waiting x). fst p \<noteq> ?k" using old by (metis less_irrefl)
  have q1: "queue_ok s1 (map fst (waiting x))" using x(2) k(1) by (simp add: queue_ok_def e1 chain_upd)
  have hd: "q_head s1 = None \<longleftrightarrow> waiting x = []" using q1 by (cases "waiting x") (auto simp: queue_ok_def)
  have y: "rw_ok y" using spec_lock_ok [OF x(1) assms(2)] by simp
  show ?thesis
  proof (cases "lock_free wr x")
    case True
    then have f: "waiting x = []" "if wr then holders x = [] else (\<forall>p \<in> set (holders x). \<not> snd p)"
      by (auto simp: lock_free_def)
    have y': "gs = [?k]" "y = x\<lparr>holders := holders x @ [(?k, wr)], issued := Suc ?k\<rparr>"
      using True assms(2) by (auto simp: spec_lock_def)
    define s2 where "s2 = upd_ctx ?k (\<lambda>c. c\<lparr>acquired := True\<rparr>)
        (if wr then s1\<lparr>writer_active := True\<rparr> else s1\<lparr>active_readers := Suc (active_readers s1)\<rparr>)"
    have ar: "active_readers s = length (holders x)" if "\<not> wr"
      using f(2) that x(5) readers_only(1) by (simp add: counters_ok_def)
    have "request_locked wr ?k s1 = (True, s2)"
      using f hd x(5,7) ar by (auto simp: request_locked_def s2_def e1 counters_ok_def size_arith)
    then have "mutex_exec (Lock wr) s = Some (Inr (gs, s2))"
      by (simp add: mutex_exec_def s1 y'(1) s2_def e1)
    moreover have "counters_ok s2 y" using f x(5) ar unfolding y'
      by (auto simp: s2_def counters_ok_def e1)
    moreover have "\<forall>j < issued y. request_ok s2 y j"
      using x(4) k f(1) unfolding y' by (auto simp: s2_def e1 request_ok_def less_Suc_eq)
    moreover have "\<forall>p \<in> set (holders y) \<union> set (waiting y). is_writer (wtrs s2 (fst p)) = snd p"
      using x(6) nk unfolding y' by (simp add: s2_def e1 ball_Un)
    ultimately show ?thesis using y x(7) q1 unfolding mutex_rel_def y'
      by (intro exI [of _ s2]) (simp add: s2_def e1)
  next
    case False
    then have y': "gs = []" "y = x\<lparr>waiting := waiting x @ [(?k, wr)], issued := Suc ?k\<rparr>"
      using assms(2) by (auto simp: spec_lock_def)
    define s2 where "s2 = (mutex_enqueue ?k s1)\<lparr>waiting_writers := writers_in (waiting y)\<rparr>"
    note eq = enqueue_ok [OF q1 k(1)]
    note sl = same_lockD [OF conjunct2 [OF eq]]
    have nf: "\<not> (waiting x = [] \<and> (if wr then \<not> writer_active s \<and> active_readers s = 0 else \<not> writer_active s))"
      using False x(5) idle_iff [of "holders x"] by (cases wr) (auto simp: lock_free_def counters_ok_def)
    have "size_add (waiting_writers s) 1 = Suc (waiting_writers s)"
      using x(5,7) counts_le(2) [of "waiting x"] by (simp add: counters_ok_def size_arith)
    then have "request_locked wr ?k s1 = (False, s2)"
      using nf hd x(5) sl(3) by (cases wr) (auto simp: request_locked_def s2_def e1 counters_ok_def y')
    then have "mutex_exec (Lock wr) s = Some (Inr (gs, s2))"
      by (simp add: mutex_exec_def s1 y'(1))
    moreover have "counters_ok s2 y" using x(5) unfolding y'
      by (simp add: s2_def counters_ok_def e1 sl y')
    moreover have "\<forall>j < issued y. request_ok s2 y j"
      using x(4) k unfolding y' by (auto simp: s2_def e1 request_ok_def less_Suc_eq sl)
    moreover have "\<forall>p \<in> set (holders y) \<union> set (waiting y). is_writer (wtrs s2 (fst p)) = snd p"
      using x(6) nk unfolding y' by (simp add: s2_def e1 sl ball_Un)
    ultimately show ?thesis using y x(7) eq unfolding mutex_rel_def y'
      by (intro exI [of _ s2]) (simp add: s2_def e1 sl y')
  qed
qed

lemma without_absent: "k \<notin> fst ` set ps \<Longrightarrow> without k ps = ps"
  unfolding without_def by (intro filter_True) (metis imageI)

text \<open>The context flags after the close handler has marked the request and granted others.\<close>

lemma acquire_empty [simp]: "acquire {} c = c"
  by (simp add: acquire_def)

lemma requests_after:
  assumes "\<forall>j < n. request_ok s x j" "ctxs s' = acquire G ((ctxs s)(k := (ctxs s k)\<lparr>handled := True\<rparr>))"
    "\<forall>j. fixed (wtrs s' j) = fixed (wtrs s j)"
    "fst ` set (holders y) = fst ` set (holders x) - {k} \<union> G" "fst ` set (waiting y) = fst ` set (waiting x) - {k} - G"
    "G \<subseteq> fst ` set (waiting x)" "k \<notin> G"
  shows "\<forall>j < n. request_ok s' y j"
proof (intro allI impI)
  fix j assume "j < n"
  then have r: "request_ok s x j" using assms(1) by blast
  have f: "gate (wtrs s' j) = gate (wtrs s j)" "is_writer (wtrs s' j) = is_writer (wtrs s j)" "w_ctx (wtrs s' j) = w_ctx (wtrs s j)"
    using assms(3) by (simp_all add: fixed_def)
  show "request_ok s' y j"
  proof (cases "j = k")
    case True
    then show ?thesis using r f assms(7) unfolding request_ok_def assms(2,4,5) by (simp add: acquire_def)
  next
    case False
    then show ?thesis using r f assms(6) unfolding request_ok_def assms(2,4,5) by (auto simp: acquire_def)
  qed
qed

lemma fixed_fields:
  "\<forall>j. fixed (wtrs s' j) = fixed (wtrs s j) \<Longrightarrow> gate (wtrs s' k) = gate (wtrs s k) \<and>
     is_writer (wtrs s' k) = is_writer (wtrs s k) \<and> w_ctx (wtrs s' k) = w_ctx (wtrs s k)"
  by (simp add: fixed_def)

lemma cancel_ok:
  assumes "mutex_rel (Suc n) s x" "k < issued x" "k \<notin> fst ` set (holders x)"
  shows "\<exists>s'. mutex_exec (Unlock k) s = Some (Inr ([], s')) \<and> mutex_rel n s' (x\<lparr>waiting := without k (waiting x)\<rparr>)"
proof -
  have x: "rw_ok x" "queue_ok s (map fst (waiting x))" "requests s = issued x" "\<forall>k < issued x. request_ok s x k" "counters_ok s x"
    "\<forall>p \<in> set (holders x) \<union> set (waiting x). is_writer (wtrs s (fst p)) = snd p"
    "length (holders x) + length (waiting x) + Suc n < 2 ^ 64"
    using assms(1) by (simp_all add: mutex_rel_def)
  have r: "request_ok s x k" using x(4) assms(2) by simp
  show ?thesis
  proof (cases "k \<in> fst ` set (waiting x)")
    case False
    then have "handled (ctxs s k)" using r assms(3) by (simp add: request_ok_def)
    then have "mutex_exec (Unlock k) s = Some (Inr ([], s))"
      using assms(2) x(3) by (simp add: mutex_exec_def mutex_closed_locked_def)
    then show ?thesis using False assms(1) by (auto simp: without_absent mutex_rel_def)
  next
    case True
    let ?s1 = "upd_ctx k (\<lambda>c. c\<lparr>handled := True\<rparr>) s" and ?y = "x\<lparr>waiting := without k (waiting x)\<rparr>"
    have "\<exists>s'. mutex_cancel_waiter k ?s1 = Some s' \<and> queue_ok s' (map fst (without k (waiting x))) \<and>
      waiting_writers s' = writers_in (without k (waiting x)) \<and>
      active_readers s' = active_readers ?s1 \<and> writer_active s' = writer_active ?s1 \<and>
      ctxs s' = ctxs ?s1 \<and> requests s' = requests ?s1 \<and> (\<forall>k. fixed (wtrs s' k) = fixed (wtrs ?s1 k))"
      by (rule cancel_waiter_ok) (use x True in \<open>auto simp: counters_ok_def\<close>)
    then obtain s' where s': "mutex_cancel_waiter k ?s1 = Some s'" "queue_ok s' (map fst (without k (waiting x)))"
      "waiting_writers s' = writers_in (without k (waiting x))" "active_readers s' = active_readers s"
      "writer_active s' = writer_active s" "ctxs s' = acquire {} ((ctxs s)(k := (ctxs s k)\<lparr>handled := True\<rparr>))"
      "requests s' = requests s" "\<forall>k. fixed (wtrs s' k) = fixed (wtrs s k)"
      by auto
    have "\<not> handled (ctxs s k)" "\<not> acquired (ctxs s k)" "ctx_waiter (ctxs s k) = k"
      using r True by (simp_all add: request_ok_def)
    then have "mutex_exec (Unlock k) s = Some (Inr ([], s'))"
      using assms(2) x(3) s'(1) by (simp add: mutex_exec_def mutex_closed_locked_def)
    moreover have "rw_ok ?y" using spec_unlock_ok [OF x(1), of k "[]" ?y] assms(3) by (simp add: spec_unlock_def)
    moreover have "\<forall>j < issued x. request_ok s' ?y j"
      by (rule requests_after [OF x(4) s'(6,8)]) (use assms(3) in \<open>auto simp: image_iff\<close>)
    moreover have "counters_ok s' ?y" using x(5) s'(3-5) by (simp add: counters_ok_def)
    moreover have "length (without k (waiting x)) \<le> length (waiting x)" by (simp add: without_def)
    ultimately show ?thesis using x(3,6,7) s'(2,7) fixed_fields [OF s'(8)] unfolding mutex_rel_def by auto
  qed
qed

text \<open>The three ways a release goes: the holder was a writer, the last reader, or one of several readers.\<close>

lemma give_up_ok:
  assumes "rw_ok x" "counters_ok s x" "p \<in> set (holders x)" "length (holders x) < 2 ^ 64"
  shows "active_readers (give_up (snd p) s) = readers_in (without (fst p) (holders x))"
    "\<not> writer_active (give_up (snd p) s)" "without (fst p) (holders x) \<noteq> [] \<Longrightarrow> \<not> (\<exists>q \<in> set (holders x). snd q)"
    "give_up (snd p) s = s\<lparr>active_readers := active_readers (give_up (snd p) s), writer_active := False\<rparr>"
proof -
  have c: "active_readers s = readers_in (holders x)" "writer_active s = (\<exists>q \<in> set (holders x). snd q)"
    using assms(2) by (simp_all add: counters_ok_def)
  have d: "distinct (map fst (holders x))" using assms(1) by (simp add: rw_ok_def)
  show nw: "without (fst p) (holders x) \<noteq> [] \<Longrightarrow> \<not> (\<exists>q \<in> set (holders x). snd q)"
    using writer_alone [OF assms(1)] assms(3) by (fastforce simp: without_def)
  show "active_readers (give_up (snd p) s) = readers_in (without (fst p) (holders x))"
    "\<not> writer_active (give_up (snd p) s)"
    "give_up (snd p) s = s\<lparr>active_readers := active_readers (give_up (snd p) s), writer_active := False\<rparr>"
  proof -
    consider "snd p" | "\<not> snd p" by blast
    then have "active_readers (give_up (snd p) s) = readers_in (without (fst p) (holders x)) \<and>
      \<not> writer_active (give_up (snd p) s) \<and>
      give_up (snd p) s = s\<lparr>active_readers := active_readers (give_up (snd p) s), writer_active := False\<rparr>"
    proof cases
      case 1
      then have "holders x = [p]" using writer_alone [OF assms(1,3)] by simp
      then show ?thesis using 1 c by (simp add: give_up_def without_def)
    next
      case 2
      then have r: "\<forall>q \<in> set (holders x). \<not> snd q" using writer_alone [OF assms(1)] assms(3) by fastforce
      have "0 < length (holders x)" using assms(3) by (cases "holders x") auto
      then have "size_sub (length (holders x)) 1 = length (holders x) - 1" using assms(4) by (intro size_sub_eq) (auto simp: Suc_le_eq)
      then show ?thesis
        using 2 r c readers_only(1) [OF r] readers_without [OF d assms(3) r] by (simp add: give_up_def)
    qed
    then show "active_readers (give_up (snd p) s) = readers_in (without (fst p) (holders x))"
      "\<not> writer_active (give_up (snd p) s)"
      "give_up (snd p) s = s\<lparr>active_readers := active_readers (give_up (snd p) s), writer_active := False\<rparr>" by blast+
  qed
qed

lemma release_ok:
  assumes "mutex_rel (Suc n) s x" "p \<in> set (holders x)" "spec_unlock (fst p) x = (gs, y)"
  shows "\<exists>s'. mutex_exec (Unlock (fst p)) s = Some (Inr (gs, s')) \<and> mutex_rel n s' y"
proof -
  let ?k = "fst p" and ?b = "batch (waiting x)"
  have x: "rw_ok x" "queue_ok s (map fst (waiting x))" "requests s = issued x" "\<forall>k < issued x. request_ok s x k" "counters_ok s x"
    "\<forall>p \<in> set (holders x) \<union> set (waiting x). is_writer (wtrs s (fst p)) = snd p"
    "length (holders x) + length (waiting x) + Suc n < 2 ^ 64"
    using assms(1) by (simp_all add: mutex_rel_def)
  have k: "?k < issued x" "?k \<notin> fst ` set (waiting x)" using x(1) assms(2) by (fastforce simp: rw_ok_def)+
  then have r: "request_ok s x ?k" using x(4) by simp
  define s1 where "s1 = upd_ctx ?k (\<lambda>c. c\<lparr>handled := True\<rparr>) s"
  define s2 where "s2 = give_up (snd p) s1"
  have "counters_ok s1 x" using x(5) by (simp add: s1_def counters_ok_def)
  note gu = give_up_ok [OF x(1) this assms(2), folded s2_def]
  have s2: "active_readers s2 = readers_in (without ?k (holders x))" "\<not> writer_active s2"
    "queue_ok s2 (map fst (waiting x))" "wtrs s2 = wtrs s" "ctxs s2 = (ctxs s)(?k := (ctxs s ?k)\<lparr>handled := True\<rparr>)"
    "requests s2 = requests s" "waiting_writers s2 = writers_in (waiting x)"
    using gu(1,2) x(2,5,7) by (subst gu(4), simp, simp add: s1_def counters_ok_def)+
  have "\<not> handled (ctxs s ?k)" "acquired (ctxs s ?k)" "ctx_writer (ctxs s ?k) = snd p"
    using r assms(2) x(6) by (auto simp: request_ok_def)
  then have ex: "mutex_exec (Unlock ?k) s = map_option Inr (mutex_release_locked (snd p) s1)"
    using k(1) x(3) by (simp add: mutex_exec_def mutex_closed_locked_def s1_def)
  have y: "rw_ok y" using spec_unlock_ok [OF x(1) assms(3)] by simp
  show ?thesis
  proof (cases "without ?k (holders x) = []")
    case False
    then have y': "gs = []" "y = x\<lparr>holders := without ?k (holders x)\<rparr>"
      using assms(2,3) by (auto simp: spec_unlock_def)
    have nw: "\<not> (\<exists>q \<in> set (holders x). snd q)" using gu(3) x(7) False by simp
    then have "readers_in (without ?k (holders x)) \<noteq> 0" using idle_iff [of "without ?k (holders x)"] False by auto
    then have "hand_over s2 = Some (None, s2)" using s2(1) by (simp add: hand_over_def split: option.splits)
    then have "mutex_exec (Unlock ?k) s = Some (Inr (gs, s2))"
      by (simp add: ex mutex_release_locked_def s2_def [symmetric] grant_gates.simps y'(1))
    moreover have "counters_ok s2 y" using s2(1,2,7) nw by (auto simp: y' counters_ok_def)
    moreover have "\<forall>j < issued x. request_ok s2 y j"
      by (rule requests_after [OF x(4), where G = "{}" and k = ?k]) (use s2(4,5) k(2) in \<open>auto simp: y' image_iff\<close>)
    moreover have "length (without ?k (holders x)) \<le> length (holders x)" by (simp add: without_def)
    ultimately show ?thesis using y x(3,6,7) s2(3,4,6) unfolding mutex_rel_def y' by auto
  next
    case True
    obtain b rest where b: "?b = b" "waiting x = b @ rest" "drop (length ?b) (waiting x) = rest"
      "waiting x \<noteq> [] \<longrightarrow> b \<noteq> []" "(\<exists>p \<in> set b. snd p) \<longrightarrow> length b = 1"
      by (rule batch_split)
    have y': "gs = map fst b" "y = x\<lparr>holders := b, waiting := rest\<rparr>"
      using assms(2,3) True b(1,3) by (auto simp: spec_unlock_def)
    have bs: "\<forall>q \<in> set (waiting x). fst q < issued x" "distinct (map fst (waiting x))"
      using x(1,2) by (auto simp: rw_ok_def queue_ok_def)
    have "\<exists>gh s'. hand_over s2 = Some (gh, s') \<and> chain (wtrs s') gh (map fst ?b) \<and>
      queue_ok s' (map fst (drop (length ?b) (waiting x))) \<and> active_readers s' = readers_in ?b \<and>
      writer_active s' = (\<exists>p \<in> set ?b. snd p) \<and> waiting_writers s' = writers_in (drop (length ?b) (waiting x)) \<and>
      ctxs s' = acquire (fst ` set ?b) (ctxs s2) \<and> requests s' = requests s2 \<and>
      (\<forall>k. fixed (wtrs s' k) = fixed (wtrs s2 k))"
      by (rule hand_over_ok) (use s2 x(4,6,7) True bs(1) in \<open>auto simp: request_ok_def\<close>)
    then obtain gh s' where h: "hand_over s2 = Some (gh, s')" "chain (wtrs s') gh (map fst b)" "queue_ok s' (map fst rest)"
      "active_readers s' = readers_in b" "writer_active s' = (\<exists>p \<in> set b. snd p)" "waiting_writers s' = writers_in rest"
      "ctxs s' = acquire (fst ` set b) ((ctxs s)(?k := (ctxs s ?k)\<lparr>handled := True\<rparr>))" "requests s' = issued x"
      "\<forall>k. fixed (wtrs s' k) = fixed (wtrs s k)"
      using s2(4,5,6) x(3) unfolding b(3) unfolding b(1) by auto
    note ff = fixed_fields [OF h(9)]
    have "map (\<lambda>k. gate (wtrs s' k)) (map fst b) = map fst b"
      using ff x(4) bs(1) by (auto simp: request_ok_def b(2))
    then have "mutex_exec (Unlock ?k) s = Some (Inr (gs, s'))"
      using grant_gates_ok [OF h(2)] by (simp add: ex mutex_release_locked_def s2_def [symmetric] h(1) y'(1))
    moreover have "counters_ok s' y" using h(4-6) by (simp add: y' counters_ok_def)
    moreover have "\<forall>j < issued x. request_ok s' y j"
    proof (rule requests_after [OF x(4) h(7,9)])
      have "set (map fst b) \<inter> set (map fst rest) = {}" using bs(2) by (simp add: b(2))
      then show "fst ` set (waiting y) = fst ` set (waiting x) - {?k} - fst ` set b"
        using k(2) by (auto simp: y' b(2))
      show "fst ` set (holders y) = fst ` set (holders x) - {?k} \<union> fst ` set b"
        using True by (auto simp: y' without_def filter_empty_conv)
    qed (use k(2) in \<open>auto simp: b(2)\<close>)
    moreover have "length b + length rest + n < 2 ^ 64" using x(7) by (simp add: b(2))
    ultimately show ?thesis using y x(6) h(3,8) ff unfolding mutex_rel_def y' by (auto simp: b(2))
  qed
qed

lemma mutex_exec_ok:
  assumes "mutex_rel (Suc n) s x" "mutex_spec c x = Some (gs, y)"
  shows "\<exists>s'. mutex_exec c s = Some (Inr (gs, s')) \<and> mutex_rel n s' y"
proof (cases c)
  case (Lock wr)
  then show ?thesis using lock_ok [OF assms(1), of wr gs y] assms(2) by (simp add: mutex_spec_def)
next
  case (Unlock k)
  then have u: "spec_unlock k x = (gs, y)" using assms(2) by (simp add: mutex_spec_def)
  show ?thesis
  proof (cases "k \<in> fst ` set (holders x)")
    case True
    then show ?thesis using release_ok [OF assms(1)] u Unlock by auto
  next
    case False
    then have y: "gs = []" "y = x\<lparr>waiting := without k (waiting x)\<rparr>" using u by (auto simp: spec_unlock_def)
    show ?thesis
    proof (cases "k < issued x")
      case True
      then show ?thesis using cancel_ok [OF assms(1) True False] y Unlock by simp
    next
      case far: False
      then have "k \<notin> fst ` set (waiting x)" using assms(1) by (auto simp: mutex_rel_def rw_ok_def)
      moreover have "mutex_exec c s = Some (Inr ([], s))"
        using far assms(1) by (simp add: mutex_exec_def Unlock mutex_rel_def)
      ultimately show ?thesis using assms(1) y by (auto simp: without_absent mutex_rel_def)
    qed
  qed
qed

interpretation mutex: op_simulation mutex_rel mutex_exec mutex_spec "\<lambda>_. True"
proof unfold_locales
  fix c n s x v y
  assume "mutex_rel (Suc n) s x" "mutex_spec c x = Some (v, y)"
  then show "\<exists>s'. mutex_exec c s = Some (Inr (v, s')) \<and> mutex_rel n s' y" by (rule mutex_exec_ok)
qed (simp add: mutex_spec_def)

lemma mutex_make_rel: "n < 2 ^ 64 \<Longrightarrow> mutex_rel n goc_mutex_make rw_make"
  by (simp add: mutex_rel_def goc_mutex_make_def rw_make_def rw_ok_def queue_ok_def counters_ok_def)

text \<open>Who holds the lock and who waits for it, read off the flags of the contexts.\<close>

definition held :: "mutex_state \<Rightarrow> nat \<Rightarrow> bool" where
  "held s k = (k < requests s \<and> acquired (ctxs s k) \<and> \<not> handled (ctxs s k))"

definition queued :: "mutex_state \<Rightarrow> nat \<Rightarrow> bool" where
  "queued s k = (k < requests s \<and> \<not> acquired (ctxs s k) \<and> \<not> handled (ctxs s k))"

lemma held_iff:
  assumes "mutex_rel n s x"
  shows "held s k \<longleftrightarrow> k \<in> fst ` set (holders x)" "queued s k \<longleftrightarrow> k \<in> fst ` set (waiting x)"
proof -
  have b: "k < issued x" if "k \<in> fst ` set (holders x) \<union> fst ` set (waiting x)"
    using assms that by (auto simp: mutex_rel_def rw_ok_def)
  have r: "request_ok s x k" if "k < issued x" using assms that by (simp add: mutex_rel_def)
  have n: "requests s = issued x" using assms by (simp add: mutex_rel_def)
  show "held s k \<longleftrightarrow> k \<in> fst ` set (holders x)"
    using b r n by (cases "k < issued x") (auto simp: held_def request_ok_def)
  show "queued s k \<longleftrightarrow> k \<in> fst ` set (waiting x)"
    using b r n by (cases "k < issued x") (auto simp: queued_def request_ok_def)
qed

lemma mutex_run:
  assumes "length ops < 2 ^ 64" "impl_run mutex_exec ops goc_mutex_make = Some (Inr (gs, s))"
  obtains x where "spec_run mutex_spec ops rw_make = Some (gs, x)" "mutex_rel 0 s x"
proof -
  obtain hs x where x: "spec_run mutex_spec ops rw_make = Some (hs, x)" using mutex_run_total by blast
  have "mutex_rel (length ops + 0) goc_mutex_make rw_make" using mutex_make_rel assms(1) by simp
  from mutex.run_ok [OF _ this x] assms(2) x show ?thesis using that by auto
qed

lemma unlock_all:
  "\<lbrakk>rw_ok x; distinct hs; set hs = fst ` set (holders x); waiting x = p # ps;
    spec_run mutex_spec (map Unlock hs) x = Some (gs, y)\<rbrakk>
   \<Longrightarrow> fst p \<in> set (concat gs) \<and> fst p \<in> fst ` set (holders y)"
proof (induction hs arbitrary: x gs)
  case Nil
  then show ?case by (auto simp: rw_ok_def)
next
  case (Cons h hs)
  obtain g z where z: "spec_unlock h x = (g, z)" by fastforce
  obtain gs1 where r: "spec_run mutex_spec (map Unlock hs) z = Some (gs1, y)" "gs = g # gs1"
    using Cons.prems(5) z mutex_spec_def [of "Unlock h" x] by auto
  have h: "h \<in> fst ` set (holders x)" "fst ` set (without h (holders x)) = set hs"
    using Cons.prems(2,3) by (auto simp: image_iff)
  show ?case
  proof (cases "hs = []")
    case True
    then have "without h (holders x) = []" using h(2) by (simp del: without_set)
    moreover have "p \<in> set (batch (waiting x))" using Cons.prems(4) by (simp add: batch_def)
    ultimately show ?thesis using z h(1) r True by (auto simp: spec_unlock_def)
  next
    case False
    then have "without h (holders x) \<noteq> []" using h(2) by (auto simp del: without_set)
    then have "z = x\<lparr>holders := without h (holders x)\<rparr>" using z h(1) by (simp add: spec_unlock_def)
    with Cons.IH [of z gs1] spec_unlock_ok [OF Cons.prems(1) z] Cons.prems(2,4) h(2) r show ?thesis by auto
  qed
qed

section \<open>Sending the grants\<close>







section \<open>Properties\<close>

text \<open>C5:
  Every sequence of requests and closes on a new mutex returns, grants exactly the gates
  that the fair read-write lock grants at each step, and ends in a state that represents that
  lock: the linked queue, the counters and the context flags agree with it.
\<close>

theorem mutex_refines:
  assumes "length ops < 2 ^ 64"
  shows "\<exists>gs s x. spec_run mutex_spec ops rw_make = Some (gs, x) \<and>
    impl_run mutex_exec ops goc_mutex_make = Some (Inr (gs, s)) \<and> mutex_rel 0 s x"
proof -
  obtain gs x where x: "spec_run mutex_spec ops rw_make = Some (gs, x)" using mutex_run_total by blast
  have "mutex_rel (length ops + 0) goc_mutex_make rw_make" using mutex_make_rel assms by simp
  from mutex.run_ok [OF _ this x] x show ?thesis by auto
qed

text \<open>C17:
  The lock excludes: when two requests hold it at once, neither of them is for writing; and no
  wakeup is lost: as long as a request waits, some request holds the lock.
\<close>

theorem mutex_excludes:
  assumes "length ops < 2 ^ 64" "impl_run mutex_exec ops goc_mutex_make = Some (Inr (gs, s))"
  shows "(held s i \<and> held s j \<and> i \<noteq> j \<longrightarrow> \<not> is_writer (wtrs s i) \<and> \<not> is_writer (wtrs s j)) \<and>
    (queued s k \<longrightarrow> (\<exists>h. held s h))"
proof -
  obtain x where x: "mutex_rel 0 s x" by (rule mutex_run [OF assms]) auto
  then have ok: "rw_ok x" "\<forall>p \<in> set (holders x). is_writer (wtrs s (fst p)) = snd p" by (auto simp: mutex_rel_def)
  have "\<not> is_writer (wtrs s a)" if ab: "held s a" "held s b" "a \<noteq> b" for a b
  proof -
    obtain p q where "p \<in> set (holders x)" "q \<in> set (holders x)" "a = fst p" "b = fst q"
      using ab(1,2) held_iff(1) [OF x] by auto
    then show ?thesis using writer_alone [OF ok(1), of p] ok(2) ab(3) by auto
  qed
  moreover have "\<exists>h. held s h" if "queued s k"
  proof -
    have "holders x \<noteq> []" using that ok(1) held_iff(2) [OF x] by (auto simp: rw_ok_def)
    then show ?thesis using held_iff(1) [OF x, of "fst (hd (holders x))"] by auto
  qed
  ultimately show ?thesis by metis
qed

text \<open>C18:
  Requests are served in the order in which they were made, and each at most once: the gates
  granted over any sequence of operations have strictly increasing request numbers.
\<close>

theorem mutex_serves_in_order:
  assumes "length ops < 2 ^ 64" "impl_run mutex_exec ops goc_mutex_make = Some (Inr (gs, s))"
  shows "sorted_wrt (<) (concat gs)"
proof -
  obtain x where "spec_run mutex_spec ops rw_make = Some (gs, x)" by (rule mutex_run [OF assms])
  then show ?thesis using mutex_run_sorted [of rw_make ops gs x] by (simp add: rw_ok_def rw_make_def)
qed

text \<open>C19:
  Whoever waits longest gets the lock when its holders are done: closing the gates of all
  present holders, in any order, returns, grants the oldest waiting request and makes it a holder.
\<close>

theorem mutex_hands_on:
  assumes "length ops + length hs < 2 ^ 64" "impl_run mutex_exec ops goc_mutex_make = Some (Inr (gs, s))"
    and "distinct hs" "\<forall>j. j \<in> set hs \<longleftrightarrow> held s j" "queued s k" "\<forall>j. queued s j \<longrightarrow> k \<le> j"
  shows "\<exists>gs' s'. impl_run mutex_exec (map Unlock hs) s = Some (Inr (gs', s')) \<and> k \<in> set (concat gs') \<and> held s' k"
proof -
  obtain gs0 x where x: "spec_run mutex_spec ops rw_make = Some (gs0, x)" using mutex_run_total by blast
  have "mutex_rel (length ops + length hs) goc_mutex_make rw_make" using mutex_make_rel assms(1) by simp
  from mutex.run_ok [OF _ this x] assms(2) have r: "mutex_rel (length (map Unlock hs) + 0) s x" by auto
  note hi = held_iff [OF r]
  obtain p ps where w: "waiting x = p # ps" using assms(5) hi(2) by (cases "waiting x") auto
  have ok: "rw_ok x" using r by (simp add: mutex_rel_def)
  then have "\<forall>q \<in> set (waiting x). fst p \<le> fst q" by (auto simp: rw_ok_def w less_imp_le)
  then have "fst p = k" using assms(5,6) hi(2) w by (auto simp: le_antisym)
  obtain gs1 y where y: "spec_run mutex_spec (map Unlock hs) x = Some (gs1, y)" using mutex_run_total by blast
  have "set hs = fst ` set (holders x)" using assms(4) hi(1) by blast
  from unlock_all [OF ok assms(3) this w y] \<open>fst p = k\<close>
  have "k \<in> set (concat gs1)" "k \<in> fst ` set (holders y)" by auto
  moreover obtain s' where "impl_run mutex_exec (map Unlock hs) s = Some (Inr (gs1, s'))" "mutex_rel 0 s' y"
    using mutex.run_ok [OF _ r y] by auto
  ultimately show ?thesis using held_iff(1) by blast
qed


section \<open>Two readers and a writer\<close>

text \<open>Two readers hold the lock and a writer waits for it.\<close>

definition demo_ops :: "mutex_op list" where
  "demo_ops = [Lock False, Lock False, Lock True]"

definition demo_mutex :: mutex_state where
  "demo_mutex = (case impl_run mutex_exec demo_ops goc_mutex_make of Some (Inr (gs, s)) \<Rightarrow> s | _ \<Rightarrow> goc_mutex_make)"

lemma demo_run: "impl_run mutex_exec demo_ops goc_mutex_make = Some (Inr ([[0], [1], []], demo_mutex))"
  by (simp add: demo_mutex_def demo_ops_def mutex_exec_def goc_mutex_make_def new_request_def request_locked_def
      mutex_enqueue_def upd_ctx_def upd_wtr_def Let_def size_add_def)

lemma demo_mutex_facts:
  "requests demo_mutex = 3" "held demo_mutex j \<longleftrightarrow> j = 0 \<or> j = 1" "queued demo_mutex j \<longleftrightarrow> j = 2"
  by (auto simp: held_def queued_def demo_mutex_def demo_ops_def mutex_exec_def goc_mutex_make_def new_request_def
      request_locked_def mutex_enqueue_def upd_ctx_def upd_wtr_def Let_def size_add_def)

theorem mutex_refines_witness:
  "\<exists>s. impl_run mutex_exec [Lock False, Lock True, Lock False, Lock False, Unlock 0, Unlock 2, Unlock 1] goc_mutex_make
     = Some (Inr ([[0], [], [], [], [1], [], [3]], s))"
proof -
  let ?ops = "[Lock False, Lock True, Lock False, Lock False, Unlock 0, Unlock 2, Unlock 1]"
  have e: "\<exists>x. spec_run mutex_spec ?ops rw_make = Some ([[0], [], [], [], [1], [], [3]], x)"
    by (simp add: mutex_spec_def spec_lock_def spec_unlock_def rw_make_def lock_free_def batch_def without_def)
  have "length ?ops < 2 ^ 64" by simp
  from mutex_refines [OF this] obtain gs s x where "spec_run mutex_spec ?ops rw_make = Some (gs, x)"
    "impl_run mutex_exec ?ops goc_mutex_make = Some (Inr (gs, s))" by blast
  with e show ?thesis by (auto simp del: impl_run.simps spec_run.simps)
qed

theorem mutex_excludes_witness:
  "\<not> is_writer (wtrs demo_mutex 0) \<and> \<not> is_writer (wtrs demo_mutex 1) \<and> (\<exists>h. held demo_mutex h)"
proof -
  have "length demo_ops < 2 ^ 64" by (simp add: demo_ops_def)
  from mutex_excludes [OF this demo_run, of 0 1 2] show ?thesis by (simp add: demo_mutex_facts)
qed

theorem mutex_serves_in_order_witness: "sorted_wrt (<) (concat [[0 :: nat], [1], []])"
proof -
  have "length demo_ops < 2 ^ 64" by (simp add: demo_ops_def)
  from mutex_serves_in_order [OF this demo_run] show ?thesis by simp
qed

theorem mutex_hands_on_witness:
  "\<exists>gs' s'. impl_run mutex_exec [Unlock 1, Unlock 0] demo_mutex = Some (Inr (gs', s')) \<and> 2 \<in> set (concat gs') \<and> held s' 2"
proof -
  have "length demo_ops + length [1, 0 :: nat] < 2 ^ 64" by (simp add: demo_ops_def)
  from mutex_hands_on [OF this demo_run, of 2] show ?thesis by (auto simp: demo_mutex_facts simp del: impl_run.simps)
qed


end
