(* ===== verification/Goc_Timer_Heap.thy ===== *)
theory Goc_Timer_Heap
  imports Goc_Prelude "HOL-Library.Word" "HOL-Library.Multiset"
begin

text \<open>
  The binary heap of pending timeouts in loop.c. The live part of the array is a list of deadlines
  with their contexts; every context knows its position in it.
\<close>

section \<open>The heap\<close>

record timer_heap_entry =
  deadline_ns :: "64 word"
  ctx :: nat

record goc_timeout_timer_ctx =
  start_state :: nat
  cancel_requested :: bool
  heap_idx :: nat

text \<open>
  The state of the loop thread's timers: the heap with its capacity, the contexts (each with its
  channel, whose number is the context's), when the backing \<open>uv_timer_t\<close> was last started and with
  which delay in milliseconds, the channels closed so far, the tasks posted to the loop, and the two counters.
\<close>

record goc_timeout_req =
  timer_ctx :: nat
  ms :: "64 word"
  call_ns :: "64 word"

datatype timer_task = StartTimer goc_timeout_req | CancelTimer nat

record timer_mgr =
  g_timer_heap :: "timer_heap_entry list"
  g_timer_heap_cap :: nat
  tctxs :: "nat \<Rightarrow> goc_timeout_timer_ctx"
  armed :: "(64 word \<times> 64 word) option"
  closed_chs :: "nat set"
  tasks :: "timer_task list"
  allocations :: nat
  expirations :: nat

abbreviation key_at :: "timer_heap_entry list \<Rightarrow> nat \<Rightarrow> 64 word" where
  "key_at h i \<equiv> deadline_ns (h ! i)"

definition set_idx :: "nat \<Rightarrow> nat \<Rightarrow> timer_mgr \<Rightarrow> timer_mgr" where
  "set_idx c i m = m\<lparr>tctxs := (tctxs m)(c := (tctxs m c)\<lparr>heap_idx := i\<rparr>)\<rparr>"

definition timer_heap_swap :: "nat \<Rightarrow> nat \<Rightarrow> timer_mgr \<Rightarrow> timer_mgr" where
  "timer_heap_swap a b m =
     (let h = g_timer_heap m; h1 = h[a := h ! b, b := h ! a] in
      set_idx (ctx (h1 ! b)) b (set_idx (ctx (h1 ! a)) a (m\<lparr>g_timer_heap := h1\<rparr>)))"

function timer_heap_sift_up :: "nat \<Rightarrow> timer_mgr \<Rightarrow> timer_mgr" where
  "timer_heap_sift_up i m =
     (if i = 0 then m
      else
        let parent = (i - 1) div 2 in
        if key_at (g_timer_heap m) parent \<le> key_at (g_timer_heap m) i then m
        else timer_heap_sift_up parent (timer_heap_swap parent i m))"
  by auto
termination by (relation "measure fst") auto

definition smallest_of :: "timer_heap_entry list \<Rightarrow> nat \<Rightarrow> nat" where
  "smallest_of h i =
     (let left = 2 * i + 1; right = 2 * i + 2;
          s1 = (if left < length h \<and> key_at h left < key_at h i then left else i)
      in if right < length h \<and> key_at h right < key_at h s1 then right else s1)"

function timer_heap_sift_down :: "nat \<Rightarrow> timer_mgr \<Rightarrow> timer_mgr" where
  "timer_heap_sift_down i m =
     (let smallest = smallest_of (g_timer_heap m) i in
      if smallest = i then m
      else timer_heap_sift_down smallest (timer_heap_swap i smallest m))"
  by auto
termination
  by (relation "measure (\<lambda>(i, m). length (g_timer_heap m) - i)")
    (auto simp: smallest_of_def timer_heap_swap_def set_idx_def Let_def split: if_splits)

declare timer_heap_sift_up.simps [simp del] timer_heap_sift_down.simps [simp del]

section \<open>What moves and what stays\<close>

definition swapped :: "nat \<Rightarrow> nat \<Rightarrow> timer_heap_entry list \<Rightarrow> timer_heap_entry list" where
  "swapped a b h = h[a := h ! b, b := h ! a]"

lemma swapped_key:
  "\<lbrakk>a < length h; b < length h; j < length h\<rbrakk>
   \<Longrightarrow> swapped a b h ! j = (if j = a then h ! b else if j = b then h ! a else h ! j)"
  by (simp add: swapped_def nth_list_update)

lemma swapped_simps [simp]:
  "length (swapped a b h) = length h" "\<lbrakk>a < length h; b < length h\<rbrakk> \<Longrightarrow> mset (swapped a b h) = mset h"
  by (simp_all add: swapped_def mset_swap)

text \<open>Only the positions of contexts change beside the heap.\<close>

definition idx_free :: "goc_timeout_timer_ctx \<Rightarrow> nat \<times> bool" where
  "idx_free x = (start_state x, cancel_requested x)"

definition same_timers :: "timer_mgr \<Rightarrow> timer_mgr \<Rightarrow> bool" where
  "same_timers m m' = ((\<forall>c. idx_free (tctxs m' c) = idx_free (tctxs m c)) \<and>
     g_timer_heap_cap m' = g_timer_heap_cap m \<and> armed m' = armed m \<and> closed_chs m' = closed_chs m \<and>
     tasks m' = tasks m \<and> allocations m' = allocations m \<and> expirations m' = expirations m)"

lemma same_timers_refl [simp]: "same_timers m m"
  by (simp add: same_timers_def)

lemma same_timers_trans: "\<lbrakk>same_timers a b; same_timers b c\<rbrakk> \<Longrightarrow> same_timers a c"
  by (simp add: same_timers_def)

text \<open>Every context in the heap knows its place, and no other context has one.\<close>

definition places_ok :: "timer_mgr \<Rightarrow> bool" where
  "places_ok m = (distinct (map ctx (g_timer_heap m)) \<and>
     (\<forall>i < length (g_timer_heap m). heap_idx (tctxs m (ctx (g_timer_heap m ! i))) = i) \<and>
     (\<forall>c. c \<notin> ctx ` set (g_timer_heap m) \<longrightarrow> heap_idx (tctxs m c) = SIZE_MAX))"

lemma swap_ok:
  assumes "a < length (g_timer_heap m)" "b < length (g_timer_heap m)" "places_ok m"
  shows "g_timer_heap (timer_heap_swap a b m) = swapped a b (g_timer_heap m)" "places_ok (timer_heap_swap a b m)"
    "same_timers m (timer_heap_swap a b m)"
proof -
  let ?h = "g_timer_heap m" and ?m = "timer_heap_swap a b m"
  show h: "g_timer_heap ?m = swapped a b ?h" by (simp add: timer_heap_swap_def set_idx_def Let_def swapped_def)
  show "same_timers m ?m"
    by (simp add: timer_heap_swap_def set_idx_def Let_def same_timers_def idx_free_def)
  have d: "distinct (map ctx ?h)" "\<forall>i < length ?h. heap_idx (tctxs m (ctx (?h ! i))) = i"
    "\<forall>c. c \<notin> ctx ` set ?h \<longrightarrow> heap_idx (tctxs m c) = SIZE_MAX"
    using assms(3) by (auto simp: places_ok_def)
  have inj: "ctx (?h ! i) = ctx (?h ! j) \<longleftrightarrow> i = j" if "i < length ?h" "j < length ?h" for i j
    using d(1) that nth_eq_iff_index_eq [OF d(1), of i j] by simp
  have t: "tctxs ?m = (tctxs m)(ctx (?h ! b) := (tctxs m (ctx (?h ! b)))\<lparr>heap_idx := a\<rparr>,
      ctx (?h ! a) := (if a = b then (tctxs m (ctx (?h ! b)))\<lparr>heap_idx := b\<rparr> else (tctxs m (ctx (?h ! a)))\<lparr>heap_idx := b\<rparr>))"
    using assms(1,2) inj [OF assms(1,2)]
    by (auto simp: timer_heap_swap_def set_idx_def Let_def nth_list_update)
  have set: "set (swapped a b ?h) = set ?h" using assms(1,2) swapped_simps(2) mset_eq_setD by blast
  have "mset (map ctx (swapped a b ?h)) = mset (map ctx ?h)" using assms(1,2) by simp
  then have "distinct (map ctx (swapped a b ?h))" using d(1) mset_eq_imp_distinct_iff by blast
  moreover have "\<forall>i < length ?h. heap_idx (tctxs ?m (ctx (swapped a b ?h ! i))) = i"
    using d(2) assms(1,2) by (auto simp: t swapped_key inj)
  moreover have "\<forall>c. c \<notin> ctx ` set ?h \<longrightarrow> heap_idx (tctxs ?m c) = SIZE_MAX"
    using d(3) assms(1,2) nth_mem by (fastforce simp: t)
  ultimately show "places_ok ?m" unfolding places_ok_def h set by simp
qed

section \<open>Heap order\<close>

abbreviation par :: "nat \<Rightarrow> nat" where
  "par i \<equiv> (i - 1) div 2"

definition min_heap :: "timer_heap_entry list \<Rightarrow> bool" where
  "min_heap h = (\<forall>j < length h. 0 < j \<longrightarrow> key_at h (par j) \<le> key_at h j)"

text \<open>A heap whose entry at \<open>i\<close> may be out of order with its neighbours.\<close>

definition hole :: "nat \<Rightarrow> timer_heap_entry list \<Rightarrow> bool" where
  "hole i h = ((\<forall>j < length h. 0 < j \<and> j \<noteq> i \<and> par j \<noteq> i \<longrightarrow> key_at h (par j) \<le> key_at h j) \<and>
     (\<forall>j < length h. 0 < i \<and> 0 < j \<and> par j = i \<longrightarrow> key_at h (par i) \<le> key_at h j))"

definition above_children :: "nat \<Rightarrow> timer_heap_entry list \<Rightarrow> bool" where
  "above_children i h = (\<forall>j < length h. 0 < j \<and> par j = i \<longrightarrow> key_at h i \<le> key_at h j)"

definition below_parent :: "nat \<Rightarrow> timer_heap_entry list \<Rightarrow> bool" where
  "below_parent i h = (0 < i \<longrightarrow> key_at h (par i) \<le> key_at h i)"

lemma par_less: "0 < i \<Longrightarrow> par i < i"
  by auto

lemma par_child: "0 < j \<Longrightarrow> par j = i \<longleftrightarrow> j = 2 * i + 1 \<or> j = 2 * i + 2"
  by auto

lemma heap_iff_hole: "i < length h \<Longrightarrow> min_heap h \<longleftrightarrow> hole i h \<and> above_children i h \<and> below_parent i h"
proof
  assume "min_heap h" and i: "i < length h"
  then have k: "key_at h (par j) \<le> key_at h j" if "j < length h" "0 < j" for j using that by (simp add: min_heap_def)
  have "key_at h (par i) \<le> key_at h j" if "0 < i" "0 < j" "par j = i" "j < length h" for j
    using k [OF i that(1)] k [OF that(4,2)] that(3) by simp
  then show "hole i h \<and> above_children i h \<and> below_parent i h"
    using k i by (auto simp: hole_def above_children_def below_parent_def)
next
  assume h: "hole i h \<and> above_children i h \<and> below_parent i h"
  show "min_heap h"
    unfolding min_heap_def
  proof (intro allI impI)
    fix j assume "j < length h" "0 < j"
    with h show "key_at h (par j) \<le> key_at h j"
      by (cases "j = i"; cases "par j = i") (simp_all add: hole_def above_children_def below_parent_def)
  qed
qed

lemma heap_root_least: "\<lbrakk>min_heap h; j < length h\<rbrakk> \<Longrightarrow> key_at h 0 \<le> key_at h j"
proof (induction j rule: less_induct)
  case (less j)
  show ?case
  proof (cases "j = 0")
    case False
    then have "key_at h 0 \<le> key_at h (par j)" using less par_less [of j] by (meson less_trans neq0_conv)
    also have "\<dots> \<le> key_at h j" using less.prems False by (simp add: min_heap_def)
    finally show ?thesis .
  qed simp
qed

lemma swap_up:
  assumes "hole i h" "0 < i" "i < length h" "key_at h i < key_at h (par i)"
  shows "hole (par i) (swapped (par i) i h)" "above_children (par i) (swapped (par i) i h)"
proof -
  let ?p = "par i" and ?h = "swapped (par i) i h"
  have p: "?p < i" "?p < length h" using assms(2,3) par_less [of i] by auto
  have k: "key_at ?h j = (if j = ?p then key_at h i else if j = i then key_at h ?p else key_at h j)"
    if "j < length h" for j
    using swapped_key [OF p(2) assms(3) that] by simp
  have 1: "key_at h (par j) \<le> key_at h j" if "j < length h" "0 < j" "j \<noteq> i" "par j \<noteq> i" for j
    using assms(1) that by (simp add: hole_def)
  have 2: "key_at h ?p \<le> key_at h j" if "j < length h" "0 < j" "par j = i" for j
    using assms(1,2) that by (simp add: hole_def)
  have sib: "key_at h ?p \<le> key_at h j" if "j < length h" "0 < j" "par j = ?p" "j \<noteq> i" for j
    using 1 [OF that(1,2,4)] that(3) p(1) by simp
  show "above_children ?p ?h"
    unfolding above_children_def
  proof (intro allI impI, elim conjE)
    fix j assume j: "j < length ?h" "0 < j" "par j = ?p"
    then have "j \<noteq> ?p" using par_less [of j] by auto
    then show "key_at ?h ?p \<le> key_at ?h j"
      using j sib [of j] k [of j] k [OF p(2)] assms(4) by (cases "j = i") auto
  qed
  show "hole ?p ?h"
    unfolding hole_def
  proof (intro conjI allI impI; elim conjE)
    fix j assume j: "j < length ?h" "0 < j" "j \<noteq> ?p" "par j \<noteq> ?p"
    then have "j \<noteq> i" "par j < length h" using par_less [of j] by auto
    then show "key_at ?h (par j) \<le> key_at ?h j"
      using j k [of j] k [of "par j"] 1 [of j] 2 [of j] by (cases "par j = i") auto
  next
    fix j assume j: "j < length ?h" "0 < ?p" "0 < j" "par j = ?p"
    have pp: "par ?p < ?p" "par ?p < length h" using j(2) p(2) par_less [of ?p] by auto
    have "key_at h (par ?p) \<le> key_at h ?p" using 1 [of ?p] j(2) p pp(1) by auto
    moreover have "j \<noteq> ?p" using j(3,4) par_less [of j] by auto
    ultimately show "key_at ?h (par ?p) \<le> key_at ?h j"
      using j k [of j] k [OF pp(2)] pp(1) p(1) sib [of j] by (cases "j = i") auto
  qed
qed

lemma sift_up_ok:
  "\<lbrakk>hole i (g_timer_heap m); above_children i (g_timer_heap m); i < length (g_timer_heap m); places_ok m\<rbrakk>
   \<Longrightarrow> min_heap (g_timer_heap (timer_heap_sift_up i m)) \<and> places_ok (timer_heap_sift_up i m) \<and>
     mset (g_timer_heap (timer_heap_sift_up i m)) = mset (g_timer_heap m) \<and> same_timers m (timer_heap_sift_up i m)"
proof (induction i m rule: timer_heap_sift_up.induct)
  case (1 i m)
  let ?h = "g_timer_heap m"
  show ?case
  proof (cases "i = 0 \<or> key_at ?h (par i) \<le> key_at ?h i")
    case True
    then have "timer_heap_sift_up i m = m" by (subst timer_heap_sift_up.simps) (auto simp: Let_def)
    then show ?thesis using True 1(2-5) heap_iff_hole [of i ?h] by (auto simp: below_parent_def)
  next
    case False
    let ?m = "timer_heap_swap (par i) i m"
    have p: "par i < length ?h" "0 < i" "key_at ?h i < key_at ?h (par i)" using False 1(4) par_less [of i] by auto
    note sw = swap_ok [OF p(1) 1(4,5)]
    have "timer_heap_sift_up i m = timer_heap_sift_up (par i) ?m"
      using False by (subst timer_heap_sift_up.simps) (simp add: Let_def)
    moreover have "min_heap (g_timer_heap (timer_heap_sift_up (par i) ?m)) \<and> places_ok (timer_heap_sift_up (par i) ?m) \<and>
      mset (g_timer_heap (timer_heap_sift_up (par i) ?m)) = mset (g_timer_heap ?m) \<and>
      same_timers ?m (timer_heap_sift_up (par i) ?m)"
      using 1(1) [of "par i"] False swap_up [OF 1(2) p(2) 1(4) p(3)] sw p(1) by simp
    ultimately show ?thesis using sw p(1) 1(4) same_timers_trans [OF sw(3)] by simp
  qed
qed

lemma smallest_cases:
  assumes "i < length h"
  shows "smallest_of h i = i \<Longrightarrow> above_children i h"
    "smallest_of h i \<noteq> i \<Longrightarrow> smallest_of h i < length h \<and> 0 < smallest_of h i \<and> par (smallest_of h i) = i \<and>
       key_at h (smallest_of h i) < key_at h i \<and>
       (\<forall>j < length h. 0 < j \<and> par j = i \<longrightarrow> key_at h (smallest_of h i) \<le> key_at h j)"
proof -
  have c: "(\<forall>j < length h. 0 < j \<and> par j = i \<longrightarrow> P j) \<longleftrightarrow>
      (2 * i + 1 < length h \<longrightarrow> P (2 * i + 1)) \<and> (2 * i + 2 < length h \<longrightarrow> P (2 * i + 2))" for P
    using par_child by (metis add_gr_0 zero_less_numeral zero_less_one)
  show "smallest_of h i = i \<Longrightarrow> above_children i h"
    unfolding above_children_def c by (auto simp: smallest_of_def Let_def split: if_splits)
  show "smallest_of h i \<noteq> i \<Longrightarrow> smallest_of h i < length h \<and> 0 < smallest_of h i \<and> par (smallest_of h i) = i \<and>
       key_at h (smallest_of h i) < key_at h i \<and>
       (\<forall>j < length h. 0 < j \<and> par j = i \<longrightarrow> key_at h (smallest_of h i) \<le> key_at h j)"
    unfolding c by (auto simp: smallest_of_def Let_def split: if_splits)
qed

lemma swap_down:
  assumes "hole i h" "below_parent i h" "i < length h" "c < length h" "0 < c" "par c = i" "key_at h c < key_at h i"
    "\<forall>j < length h. 0 < j \<and> par j = i \<longrightarrow> key_at h c \<le> key_at h j"
  shows "hole c (swapped i c h)" "below_parent c (swapped i c h)"
proof -
  let ?h = "swapped i c h"
  have k: "key_at ?h j = (if j = i then key_at h c else if j = c then key_at h i else key_at h j)"
    if "j < length h" for j
    using swapped_key [OF assms(3,4) that] by simp
  have ic: "i < c" using par_less [OF assms(5)] assms(6) by simp
  show "below_parent c ?h" using k [OF assms(3)] k [OF assms(4)] assms(6,7) ic by (simp add: below_parent_def)
  show "hole c ?h"
    unfolding hole_def
  proof (intro conjI allI impI; elim conjE)
    fix j assume j: "j < length ?h" "0 < j" "j \<noteq> c" "par j \<noteq> c"
    have pj: "par j < j" "par j < length h" using j(1,2) par_less [of j] by auto
    consider "j = i" | "j \<noteq> i" "par j = i" | "j \<noteq> i" "par j \<noteq> i" by blast
    then show "key_at ?h (par j) \<le> key_at ?h j"
    proof cases
      case 1
      have "key_at h (par i) \<le> key_at h c" using assms(1,4-6) 1 j(2) unfolding hole_def by blast
      then show ?thesis using 1 k [OF pj(2)] k [OF assms(3)] pj(1) j(4) by simp
    next
      case 2
      then show ?thesis using k [of j] k [OF assms(3)] assms(8) j by simp
    next
      case 3
      then have "key_at h (par j) \<le> key_at h j" using assms(1) j by (simp add: hole_def)
      then show ?thesis using 3 j k [of j] k [OF pj(2)] by simp
    qed
  next
    fix j assume j: "j < length ?h" "0 < c" "0 < j" "par j = c"
    then have "j \<noteq> i" "j \<noteq> c" using ic par_less [of j] by auto
    moreover have "key_at h c \<le> key_at h j" using assms(1) j \<open>j \<noteq> i\<close> ic by (auto simp: hole_def)
    ultimately show "key_at ?h (par c) \<le> key_at ?h j" using k [of j] k [OF assms(3)] assms(6) j(1) by simp
  qed
qed

lemma sift_down_ok:
  "\<lbrakk>hole i (g_timer_heap m); below_parent i (g_timer_heap m); i < length (g_timer_heap m); places_ok m\<rbrakk>
   \<Longrightarrow> min_heap (g_timer_heap (timer_heap_sift_down i m)) \<and> places_ok (timer_heap_sift_down i m) \<and>
     mset (g_timer_heap (timer_heap_sift_down i m)) = mset (g_timer_heap m) \<and> same_timers m (timer_heap_sift_down i m)"
proof (induction i m rule: timer_heap_sift_down.induct)
  case (1 i m)
  let ?h = "g_timer_heap m" and ?c = "smallest_of (g_timer_heap m) i"
  show ?case
  proof (cases "?c = i")
    case True
    then have "timer_heap_sift_down i m = m" by (subst timer_heap_sift_down.simps) (simp add: Let_def)
    then show ?thesis using True 1(2-5) heap_iff_hole [of i ?h] smallest_cases(1) [of i ?h] by simp
  next
    case False
    let ?m = "timer_heap_swap i ?c m"
    note c = smallest_cases(2) [OF 1(4) False]
    note sw = swap_ok [OF 1(4) conjunct1 [OF c] 1(5)]
    have "timer_heap_sift_down i m = timer_heap_sift_down ?c ?m"
      using False by (subst timer_heap_sift_down.simps) (simp add: Let_def)
    moreover have "min_heap (g_timer_heap (timer_heap_sift_down ?c ?m)) \<and> places_ok (timer_heap_sift_down ?c ?m) \<and>
      mset (g_timer_heap (timer_heap_sift_down ?c ?m)) = mset (g_timer_heap ?m) \<and>
      same_timers ?m (timer_heap_sift_down ?c ?m)"
      using 1(1) [OF refl False] swap_down [OF 1(2,3,4), of ?c] c sw by simp
    ultimately show ?thesis using sw c 1(4) same_timers_trans [OF sw(3)] by simp
  qed
qed

lemma sift_down_heap:
  assumes h: "min_heap (g_timer_heap m)" "i < length (g_timer_heap m)"
  shows "timer_heap_sift_down i m = m"
proof -
  have "above_children i (g_timer_heap m)" using h heap_iff_hole by blast
  then have "smallest_of (g_timer_heap m) i = i"
    using smallest_cases(2) [OF h(2)] unfolding above_children_def by (metis leD)
  then show ?thesis by (subst timer_heap_sift_down.simps) (simp add: Let_def)
qed

text \<open>The sift loops keep the length and the rest of the state on any input.\<close>

lemma swap_keeps [simp]:
  "length (g_timer_heap (timer_heap_swap a b m)) = length (g_timer_heap m)"
  by (simp add: timer_heap_swap_def set_idx_def Let_def)

lemma sift_down_length [simp]: "length (g_timer_heap (timer_heap_sift_down i m)) = length (g_timer_heap m)"
proof (induction i m rule: timer_heap_sift_down.induct)
  case (1 i m)
  then show ?case by (subst timer_heap_sift_down.simps) (simp add: Let_def)
qed

end
