(* ===== verification/Goc_Timer.thy ===== *)
theory Goc_Timer
  imports Goc_Timer_Heap
begin

text \<open>
  The timer manager of loop.c and the timeout channels of timeout.c. Everything here runs on the
  loop thread but \<open>goc_timeout\<close> and the closing of a timeout channel, which only post tasks to it
  (and the close handler itself runs on the loop thread); \<open>uv_hrtime()\<close> is an argument.
\<close>

section \<open>The manager\<close>

definition TIMER_HEAP_INIT_CAP :: nat where
  "TIMER_HEAP_INIT_CAP = 64"

definition delay_ms :: "64 word \<Rightarrow> 64 word \<Rightarrow> 64 word" where
  "delay_ms now_ns next_ns = (if now_ns < next_ns then (next_ns - now_ns + 999999) div 1000000 else 0)"

definition timer_mgr_rearm :: "64 word \<Rightarrow> timer_mgr \<Rightarrow> timer_mgr" where
  "timer_mgr_rearm now_ns m =
     (if g_timer_heap m = [] then m\<lparr>armed := None\<rparr>
      else m\<lparr>armed := Some (now_ns, delay_ms now_ns (key_at (g_timer_heap m) 0))\<rparr>)"

definition goc_timer_manager_init :: timer_mgr where
  "goc_timer_manager_init = \<lparr>g_timer_heap = [], g_timer_heap_cap = TIMER_HEAP_INIT_CAP,
     tctxs = \<lambda>_. \<lparr>start_state = 0, cancel_requested = False, heap_idx = SIZE_MAX\<rparr>,
     armed = None, closed_chs = {}, tasks = [], allocations = 0, expirations = 0\<rparr>"

definition grow_heap :: "timer_mgr \<Rightarrow> timer_mgr" where
  "grow_heap m =
     (if length (g_timer_heap m) = g_timer_heap_cap m
      then m\<lparr>g_timer_heap_cap := (if g_timer_heap_cap m \<noteq> 0 then size_mul (g_timer_heap_cap m) 2 else TIMER_HEAP_INIT_CAP)\<rparr>
      else m)"

definition goc_timer_manager_insert :: "64 word \<Rightarrow> nat \<Rightarrow> 64 word \<Rightarrow> timer_mgr \<Rightarrow> timer_mgr" where
  "goc_timer_manager_insert now_ns c d m =
     (let m1 = grow_heap m;
          i = length (g_timer_heap m1);
          m2 = set_idx c i (m1\<lparr>g_timer_heap := g_timer_heap m1 @ [\<lparr>deadline_ns = d, ctx = c\<rparr>]\<rparr>);
          m3 = timer_heap_sift_up i m2
      in if heap_idx (tctxs m3 c) = 0 then timer_mgr_rearm now_ns m3 else m3)"

definition goc_timer_manager_remove :: "64 word \<Rightarrow> nat \<Rightarrow> timer_mgr \<Rightarrow> timer_mgr" where
  "goc_timer_manager_remove now_ns c m =
     (let i = heap_idx (tctxs m c); h = g_timer_heap m in
      if i = SIZE_MAX \<or> length h \<le> i then m
      else
        let m1 = set_idx c SIZE_MAX m; last = length h - 1 in
        if i = last then timer_mgr_rearm now_ns (m1\<lparr>g_timer_heap := butlast h\<rparr>)
        else
          let moved = ctx (h ! last);
              m2 = set_idx moved i (m1\<lparr>g_timer_heap := (butlast h)[i := h ! last]\<rparr>);
              m3 = timer_heap_sift_up i m2;
              m4 = timer_heap_sift_down (heap_idx (tctxs m3 moved)) m3
          in timer_mgr_rearm now_ns m4)"

text \<open>The root leaves the heap in \<open>on_timer_mgr_fire\<close>.\<close>

definition pop_root :: "timer_mgr \<Rightarrow> timer_mgr" where
  "pop_root m =
     (let h = g_timer_heap m; m1 = set_idx (ctx (h ! 0)) SIZE_MAX m; last = length h - 1 in
      if 0 < last
      then timer_heap_sift_down 0 (set_idx (ctx (h ! last)) 0 (m1\<lparr>g_timer_heap := (butlast h)[0 := h ! last]\<rparr>))
      else m1\<lparr>g_timer_heap := butlast h\<rparr>)"

definition set_state :: "nat \<Rightarrow> nat \<Rightarrow> timer_mgr \<Rightarrow> timer_mgr" where
  "set_state c s m = m\<lparr>tctxs := (tctxs m)(c := (tctxs m c)\<lparr>start_state := s\<rparr>)\<rparr>"

section \<open>Timeout channels\<close>

definition on_timeout_channel_closed :: "nat \<Rightarrow> timer_mgr \<Rightarrow> timer_mgr" where
  "on_timeout_channel_closed c m =
     m\<lparr>tctxs := (tctxs m)(c := (tctxs m c)\<lparr>cancel_requested := True\<rparr>), tasks := tasks m @ [CancelTimer c]\<rparr>"

text \<open>\<open>goc_close\<close> of a timeout channel, as far as the timers see it: the first close runs the handler.\<close>

definition close_timeout :: "nat \<Rightarrow> timer_mgr \<Rightarrow> timer_mgr" where
  "close_timeout c m =
     (if c \<in> closed_chs m then m
      else on_timeout_channel_closed c (m\<lparr>closed_chs := insert c (closed_chs m)\<rparr>))"

definition goc_timeout_ctx_expire :: "nat \<Rightarrow> timer_mgr \<Rightarrow> timer_mgr" where
  "goc_timeout_ctx_expire c m = close_timeout c (m\<lparr>expirations := size_add (expirations m) 1\<rparr>)"

definition on_cancel_timer :: "64 word \<Rightarrow> nat \<Rightarrow> timer_mgr \<Rightarrow> timer_mgr" where
  "on_cancel_timer now_ns c m =
     (if start_state (tctxs m c) \<noteq> 1 then m
      else goc_timer_manager_remove now_ns c (set_state c 2 m))"

text \<open>The deadline of a timeout whose start was dispatched at \<open>now_ns\<close>.\<close>

definition remaining_ms :: "64 word \<Rightarrow> goc_timeout_req \<Rightarrow> 64 word" where
  "remaining_ms now_ns r =
     (let elapsed_ns = (if call_ns r < now_ns then now_ns - call_ns r else 0);
          elapsed_ms = elapsed_ns div 1000000
      in if elapsed_ms < ms r then ms r - elapsed_ms else 0)"

definition fire_at_ns :: "64 word \<Rightarrow> goc_timeout_req \<Rightarrow> 64 word" where
  "fire_at_ns now_ns r = now_ns + remaining_ms now_ns r * 1000000"

definition on_start_timer :: "64 word \<Rightarrow> 64 word \<Rightarrow> goc_timeout_req \<Rightarrow> timer_mgr \<Rightarrow> timer_mgr" where
  "on_start_timer now_ns arm_ns r m =
     (if cancel_requested (tctxs m (timer_ctx r)) then m
      else
        let m1 = set_state (timer_ctx r) 1 m in
        if cancel_requested (tctxs m1 (timer_ctx r)) then set_state (timer_ctx r) 2 m1
        else goc_timer_manager_insert arm_ns (timer_ctx r) (fire_at_ns now_ns r) m1)"

text \<open>A new context has the number of timeouts made before it.\<close>

definition goc_timeout :: "64 word \<Rightarrow> 64 word \<Rightarrow> timer_mgr \<Rightarrow> nat \<times> timer_mgr" where
  "goc_timeout now_ns n m =
     (let c = allocations m in
      (c, m\<lparr>tctxs := (tctxs m)(c := \<lparr>start_state = 0, cancel_requested = False, heap_idx = SIZE_MAX\<rparr>),
            tasks := tasks m @ [StartTimer \<lparr>timer_ctx = c, ms = n, call_ns = now_ns\<rparr>],
            allocations := Suc c\<rparr>))"

section \<open>Firing\<close>

lemma pop_root_shrinks: "g_timer_heap m \<noteq> [] \<Longrightarrow> length (g_timer_heap (pop_root m)) < length (g_timer_heap m)"
  by (simp add: pop_root_def Let_def set_idx_def)

lemma state_keeps_heap [simp]:
  "g_timer_heap (set_state c s m) = g_timer_heap m" "g_timer_heap (set_idx c i m) = g_timer_heap m"
  "g_timer_heap (goc_timeout_ctx_expire c m) = g_timer_heap m" "g_timer_heap (close_timeout c m) = g_timer_heap m"
  by (simp_all add: set_state_def set_idx_def goc_timeout_ctx_expire_def close_timeout_def on_timeout_channel_closed_def)

function fire_loop :: "64 word \<Rightarrow> timer_mgr \<Rightarrow> timer_mgr" where
  "fire_loop now_ns m =
     (if g_timer_heap m \<noteq> [] \<and> key_at (g_timer_heap m) 0 \<le> now_ns
      then
        let c = ctx (g_timer_heap m ! 0) in
        fire_loop now_ns (goc_timeout_ctx_expire c (set_state c 2 (pop_root m)))
      else m)"
  by auto
termination
  by (relation "measure (\<lambda>(_, m). length (g_timer_heap m))") (auto simp: pop_root_shrinks)

declare fire_loop.simps [simp del]

definition on_timer_mgr_fire :: "64 word \<Rightarrow> 64 word \<Rightarrow> timer_mgr \<Rightarrow> timer_mgr" where
  "on_timer_mgr_fire now_ns arm_ns m = timer_mgr_rearm arm_ns (fire_loop now_ns m)"

fun shutdown_loop :: "timer_heap_entry list \<Rightarrow> timer_mgr \<Rightarrow> timer_mgr" where
  "shutdown_loop [] m = m"
| "shutdown_loop (e # es) m = shutdown_loop es (close_timeout (ctx e) (set_idx (ctx e) SIZE_MAX (set_state (ctx e) 2 m)))"

definition goc_timer_manager_shutdown :: "timer_mgr \<Rightarrow> timer_mgr" where
  "goc_timer_manager_shutdown m =
     (shutdown_loop (g_timer_heap m) (m\<lparr>armed := None\<rparr>))\<lparr>g_timer_heap := []\<rparr>"

section \<open>The loop thread\<close>

datatype timer_event =
  Timeout "64 word" "64 word" | CloseTimeout nat | RunTask "64 word" "64 word" | TimerFires "64 word" "64 word"

definition run_task :: "64 word \<Rightarrow> 64 word \<Rightarrow> timer_mgr \<Rightarrow> timer_mgr" where
  "run_task now_ns arm_ns m =
     (case tasks m of
        [] \<Rightarrow> m
      | StartTimer r # ts \<Rightarrow> on_start_timer now_ns arm_ns r (m\<lparr>tasks := ts\<rparr>)
      | CancelTimer c # ts \<Rightarrow> on_cancel_timer now_ns c (m\<lparr>tasks := ts\<rparr>))"

text \<open>What can happen, in any order: a timeout is made, one of them is closed, the loop runs the next
  posted task, the backing timer fires (early or late).\<close>

definition timer_step :: "timer_event \<Rightarrow> timer_mgr \<Rightarrow> timer_mgr" where
  "timer_step ev m =
     (case ev of
        Timeout now_ns n \<Rightarrow> snd (goc_timeout now_ns n m)
      | CloseTimeout c \<Rightarrow> if c < allocations m then close_timeout c m else m
      | RunTask now_ns arm_ns \<Rightarrow> run_task now_ns arm_ns m
      | TimerFires now_ns arm_ns \<Rightarrow> on_timer_mgr_fire now_ns arm_ns m)"

definition timer_run :: "timer_event list \<Rightarrow> timer_mgr \<Rightarrow> timer_mgr" where
  "timer_run evs m = fold timer_step evs m"

end
