(* ===== verification/Goc_Timer_Props.thy ===== *)
theory Goc_Timer_Props
  imports Goc_Timer
begin

text \<open>
  The timers are right: the heap stays a heap with every context in its place, the backing timer is
  always set for the earliest deadline, firing closes exactly the expired timeouts in the order of
  their deadlines, a closed timeout gives up its slot, and no timeout expires early.
\<close>

section \<open>The manager's operations\<close>

definition armed_ok :: "timer_mgr \<Rightarrow> bool" where
  "armed_ok m = (case armed m of
     None \<Rightarrow> g_timer_heap m = []
   | Some (a, d) \<Rightarrow> g_timer_heap m \<noteq> [] \<and> d = delay_ms a (key_at (g_timer_heap m) 0))"

definition mgr_ok :: "timer_mgr \<Rightarrow> bool" where
  "mgr_ok m = (min_heap (g_timer_heap m) \<and> places_ok m \<and> armed_ok m)"

lemma same_timersD:
  assumes "same_timers m m'"
  shows "start_state (tctxs m' c) = start_state (tctxs m c)" "cancel_requested (tctxs m' c) = cancel_requested (tctxs m c)"
    "closed_chs m' = closed_chs m" "tasks m' = tasks m" "allocations m' = allocations m" "expirations m' = expirations m"
    "armed m' = armed m" "g_timer_heap_cap m' = g_timer_heap_cap m"
  using assms by (auto simp: same_timers_def idx_free_def)

text \<open>What the operations on the heap leave alone.\<close>

definition same_tasks :: "timer_mgr \<Rightarrow> timer_mgr \<Rightarrow> bool" where
  "same_tasks m m' = ((\<forall>c. idx_free (tctxs m' c) = idx_free (tctxs m c)) \<and> closed_chs m' = closed_chs m \<and>
     tasks m' = tasks m \<and> allocations m' = allocations m \<and> expirations m' = expirations m)"

lemma same_tasks_trans: "\<lbrakk>same_tasks a b; same_tasks b c\<rbrakk> \<Longrightarrow> same_tasks a c"
  by (simp add: same_tasks_def)

lemma same_tasks_timers: "same_timers m m' \<Longrightarrow> same_tasks m m'"
  by (simp add: same_timers_def same_tasks_def)

lemma rearm_simps [simp]:
  "g_timer_heap (timer_mgr_rearm t m) = g_timer_heap m" "tctxs (timer_mgr_rearm t m) = tctxs m"
  "same_tasks m (timer_mgr_rearm t m)" "armed_ok (timer_mgr_rearm t m)"
  by (simp_all add: timer_mgr_rearm_def same_tasks_def armed_ok_def)

lemma places_rearm [simp]: "places_ok (timer_mgr_rearm t m) = places_ok m"
  by (simp add: places_ok_def)

lemma root_key:
  assumes "min_heap h" "min_heap h'" "h \<noteq> []" "h' \<noteq> []" "h' ! 0 \<in> set h" "h ! 0 \<in> set h'"
  shows "key_at h' 0 = key_at h 0"
proof (rule antisym)
  obtain i where "i < length h" "h ! i = h' ! 0" using assms(5) by (auto simp: in_set_conv_nth)
  then show "key_at h 0 \<le> key_at h' 0" using heap_root_least [OF assms(1), of i] by simp
  obtain j where "j < length h'" "h' ! j = h ! 0" using assms(6) by (auto simp: in_set_conv_nth)
  then show "key_at h' 0 \<le> key_at h 0" using heap_root_least [OF assms(2), of j] by simp
qed

lemma hole_append:
  assumes "min_heap h"
  shows "hole (length h) (h @ [e])" "above_children (length h) (h @ [e])"
proof -
  have n: "par j < length h" if "j < Suc (length h)" "0 < j" for j using that by auto
  show "hole (length h) (h @ [e])"
    unfolding hole_def
  proof (intro conjI allI impI; elim conjE)
    fix j assume "j < length (h @ [e])" "0 < j" "j \<noteq> length h"
    then show "key_at (h @ [e]) (par j) \<le> key_at (h @ [e]) j"
      using assms n [of j] by (simp add: min_heap_def nth_append)
  qed (use n in fastforce)
  show "above_children (length h) (h @ [e])" using n by (fastforce simp: above_children_def)
qed

lemma grow_heap_simps [simp]:
  "g_timer_heap (grow_heap m) = g_timer_heap m" "tctxs (grow_heap m) = tctxs m" "armed (grow_heap m) = armed m"
  "same_tasks m (grow_heap m)"
  by (simp_all add: grow_heap_def same_tasks_def)

lemma places_append:
  assumes "places_ok m" "c \<notin> ctx ` set (g_timer_heap m)"
  shows "places_ok (set_idx c (length (g_timer_heap m)) (m\<lparr>g_timer_heap := g_timer_heap m @ [\<lparr>deadline_ns = d, ctx = c\<rparr>]\<rparr>))"
  using assms by (fastforce simp: places_ok_def set_idx_def nth_append less_Suc_eq)

lemma insert_ok:
  assumes "mgr_ok m" "c \<notin> ctx ` set (g_timer_heap m)" "goc_timer_manager_insert t c d m = m'"
  shows "mgr_ok m' \<and> mset (g_timer_heap m') = add_mset \<lparr>deadline_ns = d, ctx = c\<rparr> (mset (g_timer_heap m)) \<and> same_tasks m m'"
proof -
  let ?e = "\<lparr>deadline_ns = d, ctx = c\<rparr>"
  have ok: "min_heap (g_timer_heap m)" "places_ok m" "armed_ok m" using assms(1) by (simp_all add: mgr_ok_def)
  define m1 where "m1 = grow_heap m"
  have m1: "g_timer_heap m1 = g_timer_heap m" "tctxs m1 = tctxs m" "armed m1 = armed m" "same_tasks m m1"
    by (simp_all add: m1_def)
  let ?n = "length (g_timer_heap m)"
  define m2 where "m2 = set_idx c ?n (m1\<lparr>g_timer_heap := g_timer_heap m1 @ [?e]\<rparr>)"
  have h2: "g_timer_heap m2 = g_timer_heap m @ [?e]" "armed m2 = armed m" "same_tasks m1 m2"
    by (simp_all add: m2_def m1 set_idx_def same_tasks_def idx_free_def)
  have p2: "places_ok m2"
    using places_append [of m1 c d] ok(2) assms(2) m1(1,2) by (simp add: m2_def places_ok_def)
  define m3 where "m3 = timer_heap_sift_up ?n m2"
  note s3 = sift_up_ok [of ?n m2, folded m3_def, unfolded h2(1), OF hole_append [OF ok(1)] _ p2]
  have r: "min_heap (g_timer_heap m3)" "places_ok m3" "mset (g_timer_heap m3) = add_mset ?e (mset (g_timer_heap m))"
    "same_timers m2 m3" using s3 by auto
  have m': "m' = (if heap_idx (tctxs m3 c) = 0 then timer_mgr_rearm t m3 else m3)"
    unfolding assms(3) [symmetric] by (simp add: goc_timer_manager_insert_def Let_def m1_def m2_def m3_def)
  have st: "same_tasks m m3" using m1(4) h2(3) same_tasks_timers [OF r(4)] same_tasks_trans by blast
  have "armed_ok m3" if z: "heap_idx (tctxs m3 c) \<noteq> 0"
  proof -
    have ne: "g_timer_heap m3 \<noteq> []" using r(3) by auto
    have set3: "set (g_timer_heap m3) = insert ?e (set (g_timer_heap m))" using arg_cong [OF r(3), of set_mset] by simp
    have "heap_idx (tctxs m3 (ctx (g_timer_heap m3 ! 0))) = 0" using r(2) ne by (auto simp: places_ok_def)
    then have "g_timer_heap m3 ! 0 \<noteq> ?e" using z by auto
    then have in0: "g_timer_heap m3 ! 0 \<in> set (g_timer_heap m)" using set3 nth_mem [of 0 "g_timer_heap m3"] ne by auto
    then have ne0: "g_timer_heap m \<noteq> []" by auto
    then have "key_at (g_timer_heap m3) 0 = key_at (g_timer_heap m) 0"
      using root_key [OF ok(1) r(1) ne0 ne in0] set3 nth_mem [of 0 "g_timer_heap m"] by auto
    moreover have "armed m3 = armed m" using same_timersD(7) [OF r(4)] h2(2) by simp
    ultimately show ?thesis using ok(3) ne ne0 by (simp add: armed_ok_def split: option.splits prod.splits)
  qed
  then show ?thesis using r st m' same_tasks_trans [OF st rearm_simps(3)] by (auto simp: mgr_ok_def)
qed

text \<open>The last entry in the place of entry \<open>i\<close>.\<close>

definition replaced :: "nat \<Rightarrow> timer_heap_entry list \<Rightarrow> timer_heap_entry list" where
  "replaced i h = (butlast h)[i := h ! (length h - 1)]"

lemma replaced_nth:
  "\<lbrakk>i < length h - 1; j < length h - 1\<rbrakk> \<Longrightarrow> replaced i h ! j = (if j = i then h ! (length h - 1) else h ! j)"
  by (simp add: replaced_def nth_list_update nth_butlast)

lemma replaced_length [simp]: "length (replaced i h) = length h - 1"
  by (simp add: replaced_def)

lemma mset_replaced:
  assumes "i < length h - 1"
  shows "mset (replaced i h) = mset h - {#h ! i#}"
proof -
  let ?l = "h ! (length h - 1)"
  have "h \<noteq> []" using assms by auto
  then have "h = butlast h @ [?l]" by (metis append_butlast_last_id last_conv_nth)
  then have h: "mset h = add_mset ?l (mset (butlast h))" by (metis mset_append mset.simps(1,2) add_mset_add_single union_commute)
  have b: "butlast h ! i = h ! i" "h ! i \<in># mset (butlast h)"
    using assms nth_mem [of i "butlast h"] by (simp_all add: nth_butlast)
  have "mset (replaced i h) = add_mset ?l (mset (butlast h) - {#h ! i#})"
    unfolding replaced_def using assms b(1) by (subst mset_update) simp_all
  also have "\<dots> = mset h - {#h ! i#}" using b(2) by (simp add: h)
  finally show ?thesis .
qed

lemma hole_replaced:
  assumes "min_heap h" "i < length h - 1"
  shows "hole i (replaced i h)"
  unfolding hole_def
proof (intro conjI allI impI; elim conjE)
  fix j assume j: "j < length (replaced i h)" "0 < j" "j \<noteq> i" "par j \<noteq> i"
  then have "par j < length h - 1" using par_less [of j] by auto
  then show "key_at (replaced i h) (par j) \<le> key_at (replaced i h) j"
    using assms j replaced_nth [OF assms(2)] by (simp add: min_heap_def)
next
  fix j assume j: "j < length (replaced i h)" "0 < i" "0 < j" "par j = i"
  have "par i < length h - 1" "par i \<noteq> i" "j \<noteq> i" using j assms(2) par_less [of i] par_less [of j] by auto
  moreover have "key_at h (par i) \<le> key_at h i" "key_at h i \<le> key_at h j"
    using assms j by (auto simp: min_heap_def)
  ultimately show "key_at (replaced i h) (par i) \<le> key_at (replaced i h) j"
    using j replaced_nth [OF assms(2)] by simp
qed

lemma places_inj: "\<lbrakk>places_ok m; i < length (g_timer_heap m); j < length (g_timer_heap m)\<rbrakk>
    \<Longrightarrow> ctx (g_timer_heap m ! i) = ctx (g_timer_heap m ! j) \<longleftrightarrow> i = j"
  using nth_eq_iff_index_eq [of "map ctx (g_timer_heap m)" i j] by (simp add: places_ok_def)

lemma places_replaced:
  assumes "places_ok m" "i < length (g_timer_heap m) - 1"
  shows "places_ok (set_idx (ctx (g_timer_heap m ! (length (g_timer_heap m) - 1))) i
    ((set_idx (ctx (g_timer_heap m ! i)) SIZE_MAX m)\<lparr>g_timer_heap := replaced i (g_timer_heap m)\<rparr>))"
proof -
  let ?h = "g_timer_heap m"
  define l where "l = length ?h - 1"
  define m' where "m' = set_idx (ctx (?h ! l)) i ((set_idx (ctx (?h ! i)) SIZE_MAX m)\<lparr>g_timer_heap := replaced i ?h\<rparr>)"
  have l: "l < length ?h" "i < length ?h" "i < l" using assms(2) by (auto simp: l_def)
  have ix: "\<forall>j < length ?h. heap_idx (tctxs m (ctx (?h ! j))) = j" "\<forall>c. c \<notin> ctx ` set ?h \<longrightarrow> heap_idx (tctxs m c) = SIZE_MAX"
    using assms(1) by (simp_all add: places_ok_def)
  note inj = places_inj [OF assms(1)]
  have t: "heap_idx (tctxs m' c) = (if c = ctx (?h ! l) then i else if c = ctx (?h ! i) then SIZE_MAX else heap_idx (tctxs m c))" for c
    by (simp add: m'_def set_idx_def)
  have nth: "replaced i ?h ! j = ?h ! (if j = i then l else j)" if "j < l" for j
    using replaced_nth [OF assms(2)] that by (simp add: l_def)
  have "distinct (map ctx (replaced i ?h))"
    unfolding distinct_conv_nth
  proof (intro allI impI)
    fix a b assume "a < length (map ctx (replaced i ?h))" "b < length (map ctx (replaced i ?h))" "a \<noteq> b"
    then have ab: "a < l" "b < l" "a \<noteq> b" by (simp_all add: l_def)
    then show "map ctx (replaced i ?h) ! a \<noteq> map ctx (replaced i ?h) ! b"
      using l nth [OF ab(1)] nth [OF ab(2)] by (simp add: l_def [symmetric] inj)
  qed
  moreover have "heap_idx (tctxs m' (ctx (replaced i ?h ! j))) = j" if "j < l" for j
    using that l ix(1) inj [of j l] inj [of j i] by (auto simp: t nth)
  moreover have "heap_idx (tctxs m' c) = SIZE_MAX" if c: "c \<notin> ctx ` set (replaced i ?h)" for c
  proof (cases "c \<in> ctx ` set ?h")
    case True
    then obtain j where j: "j < length ?h" "c = ctx (?h ! j)" by (auto simp: in_set_conv_nth)
    have "j = i"
    proof (rule ccontr)
      assume "j \<noteq> i"
      define j' where "j' = (if j = l then i else j)"
      have "j' < l" "replaced i ?h ! j' = ?h ! j" using j(1) \<open>j \<noteq> i\<close> l nth [of j'] by (auto simp: j'_def l_def)
      then have "?h ! j \<in> set (replaced i ?h)" using nth_mem [of j' "replaced i ?h"] by (simp add: l_def)
      then show False using c j(2) by blast
    qed
    then show ?thesis using t [of c] j inj [OF l(2,1)] l(3) by simp
  next
    case False
    then have "c \<noteq> ctx (?h ! l)" using nth_mem [OF l(1)] by blast
    then show ?thesis using t [of c] ix(2) False by simp
  qed
  ultimately have "places_ok m'" by (simp add: places_ok_def l_def m'_def)
  then show ?thesis by (simp add: m'_def l_def)
qed

lemma places_butlast:
  assumes "places_ok m" "g_timer_heap m \<noteq> []"
  shows "places_ok ((set_idx (ctx (g_timer_heap m ! (length (g_timer_heap m) - 1))) SIZE_MAX m)\<lparr>g_timer_heap := butlast (g_timer_heap m)\<rparr>)"
proof -
  let ?h = "g_timer_heap m"
  have h: "?h = butlast ?h @ [?h ! (length ?h - 1)]" using assms(2) by (metis append_butlast_last_id last_conv_nth)
  have "distinct (map ctx (butlast ?h @ [?h ! (length ?h - 1)]))" using assms(1) h by (metis places_ok_def)
  moreover have "set ?h = insert (?h ! (length ?h - 1)) (set (butlast ?h))" by (subst h) simp
  moreover have "ctx (?h ! i) \<noteq> ctx (?h ! (length ?h - 1))" if "i < length ?h - 1" for i
    using places_inj [OF assms(1), of i "length ?h - 1"] that by simp
  ultimately show ?thesis using assms(1)
    by (auto simp: places_ok_def set_idx_def nth_butlast image_iff)
qed

lemma mset_without_ctx:
  assumes "places_ok m" "i < length (g_timer_heap m)"
  shows "mset (g_timer_heap m) - {#g_timer_heap m ! i#} = filter_mset (\<lambda>e. ctx e \<noteq> ctx (g_timer_heap m ! i)) (mset (g_timer_heap m))"
proof -
  have "remove1 x h = filter (\<lambda>e. ctx e \<noteq> ctx x) h" if "distinct (map ctx h)" "x \<in> set h" for x and h :: "timer_heap_entry list"
    using that
  proof (induction h)
    case (Cons y h)
    show ?case
    proof (cases "x = y")
      case True
      then have "filter (\<lambda>e. ctx e \<noteq> ctx x) h = h" using Cons.prems(1) by (intro filter_True) (auto simp: image_iff)
      then show ?thesis using True by simp
    next
      case False
      then show ?thesis using Cons by (auto simp: image_iff)
    qed
  qed simp
  from this [of "g_timer_heap m" "g_timer_heap m ! i"] assms
  have "mset (remove1 (g_timer_heap m ! i) (g_timer_heap m)) = mset (filter (\<lambda>e. ctx e \<noteq> ctx (g_timer_heap m ! i)) (g_timer_heap m))"
    by (simp add: places_ok_def)
  then show ?thesis by simp
qed

lemma heap_butlast: "min_heap h \<Longrightarrow> min_heap (butlast h)"
  by (auto simp: min_heap_def nth_butlast)

lemma mset_butlast: "h \<noteq> [] \<Longrightarrow> mset (butlast h) = mset h - {#h ! (length h - 1)#}"
  by (induction h rule: rev_induct) (auto simp: nth_append)

text \<open>Restoring the order around a replaced entry, whichever way it has to move.\<close>

lemma restore_ok:
  assumes "hole i (g_timer_heap m)" "i < length (g_timer_heap m)" "places_ok m"
    "m' = timer_heap_sift_down (heap_idx (tctxs (timer_heap_sift_up i m) (ctx (g_timer_heap m ! i)))) (timer_heap_sift_up i m)"
  shows "min_heap (g_timer_heap m') \<and> places_ok m' \<and> mset (g_timer_heap m') = mset (g_timer_heap m) \<and> same_timers m m'"
proof (cases "below_parent i (g_timer_heap m)")
  case True
  then have "timer_heap_sift_up i m = m" by (subst timer_heap_sift_up.simps) (auto simp: below_parent_def Let_def)
  moreover have "heap_idx (tctxs m (ctx (g_timer_heap m ! i))) = i" using assms(2,3) by (simp add: places_ok_def)
  ultimately show ?thesis using sift_down_ok [OF assms(1) True assms(2,3)] assms(4) by simp
next
  case False
  let ?u = "timer_heap_sift_up i m" and ?c = "ctx (g_timer_heap m ! i)"
  have "0 < i" "key_at (g_timer_heap m) i < key_at (g_timer_heap m) (par i)" using False by (auto simp: below_parent_def)
  then have "above_children i (g_timer_heap m)"
    using assms(1) by (fastforce simp: above_children_def hole_def intro: less_imp_le less_le_trans)
  note up = sift_up_ok [OF assms(1) this assms(2,3)]
  have "?c \<in> ctx ` set (g_timer_heap ?u)" using up assms(2) nth_mem [OF assms(2)] by (metis image_eqI set_mset_mset)
  then obtain j where "j < length (g_timer_heap ?u)" "?c = ctx (g_timer_heap ?u ! j)" by (auto simp: in_set_conv_nth)
  then have "heap_idx (tctxs ?u ?c) < length (g_timer_heap ?u)" using up by (simp add: places_ok_def)
  then have "m' = ?u" using sift_down_heap up assms(4) by simp
  then show ?thesis using up by simp
qed

lemma remove_ok:
  assumes "mgr_ok m" "length (g_timer_heap m) \<le> SIZE_MAX" "goc_timer_manager_remove t c m = m'"
  shows "mgr_ok m' \<and> mset (g_timer_heap m') = filter_mset (\<lambda>e. ctx e \<noteq> c) (mset (g_timer_heap m)) \<and> same_tasks m m'"
proof -
  let ?h = "g_timer_heap m" and ?i = "heap_idx (tctxs m c)"
  have ok: "min_heap ?h" "places_ok m" "armed_ok m" using assms(1) by (simp_all add: mgr_ok_def)
  show ?thesis
  proof (cases "c \<in> ctx ` set ?h")
    case False
    then have "?i = SIZE_MAX" using ok(2) by (simp add: places_ok_def)
    then have "m' = m" using assms(3) by (simp add: goc_timer_manager_remove_def)
    moreover have "filter_mset (\<lambda>e. ctx e \<noteq> c) (mset ?h) = mset ?h" using False by (auto simp: filter_mset_eq_conv)
    ultimately show ?thesis using assms(1) by (simp add: same_tasks_def)
  next
    case True
    then obtain i where i: "i < length ?h" "ctx (?h ! i) = c" by (auto simp: in_set_conv_nth)
    have ix: "?i = i" using ok(2) i by (auto simp: places_ok_def)
    note w = mset_without_ctx [OF ok(2) i(1), unfolded i(2)]
    have nm: "\<not> (i = SIZE_MAX \<or> length ?h \<le> i)" using i(1) assms(2) by auto
    show ?thesis
    proof (cases "i = length ?h - 1")
      case last: True
      let ?m = "(set_idx c SIZE_MAX m)\<lparr>g_timer_heap := butlast ?h\<rparr>"
      have "m' = timer_mgr_rearm t ?m"
        using assms(3) nm last ix by (simp add: goc_timer_manager_remove_def Let_def)
      moreover have "places_ok ?m" using places_butlast [OF ok(2)] i last by fastforce
      moreover have "same_tasks m ?m" by (simp add: same_tasks_def set_idx_def idx_free_def)
      moreover have "mset (butlast ?h) = filter_mset (\<lambda>e. ctx e \<noteq> c) (mset ?h)"
        using mset_butlast [of ?h] i(1) last w by fastforce
      ultimately show ?thesis using heap_butlast [OF ok(1)] same_tasks_trans [OF _ rearm_simps(3)] by (simp add: mgr_ok_def)
    next
      case False
      then have il: "i < length ?h - 1" using i(1) by simp
      let ?l = "ctx (?h ! (length ?h - 1))"
      define m2 where "m2 = set_idx ?l i ((set_idx c SIZE_MAX m)\<lparr>g_timer_heap := replaced i ?h\<rparr>)"
      define m4 where "m4 = timer_heap_sift_down (heap_idx (tctxs (timer_heap_sift_up i m2) ?l)) (timer_heap_sift_up i m2)"
      have m': "m' = timer_mgr_rearm t m4"
        unfolding assms(3) [symmetric] using nm False ix
        by (simp add: goc_timer_manager_remove_def Let_def m4_def m2_def replaced_def)
      have h2: "g_timer_heap m2 = replaced i ?h" "same_tasks m m2"
        by (simp_all add: m2_def set_idx_def same_tasks_def idx_free_def)
      have p2: "places_ok m2" using places_replaced [OF ok(2) il] i(2) by (simp add: m2_def)
      have "ctx (g_timer_heap m2 ! i) = ?l" using replaced_nth [OF il il] h2(1) by simp
      then have r: "min_heap (g_timer_heap m4) \<and> places_ok m4 \<and> mset (g_timer_heap m4) = mset (g_timer_heap m2) \<and> same_timers m2 m4"
        using restore_ok [of i m2 m4] hole_replaced [OF ok(1) il] il p2 by (simp add: h2(1) m4_def)
      then have "mset (g_timer_heap m4) = filter_mset (\<lambda>e. ctx e \<noteq> c) (mset ?h)"
        using h2(1) mset_replaced [OF il] w by simp
      moreover have "same_tasks m m'"
        using m' h2(2) r same_tasks_timers same_tasks_trans rearm_simps(3) by blast
      ultimately show ?thesis using r m' by (simp add: mgr_ok_def)
    qed
  qed
qed

lemma pop_root_ok:
  assumes "min_heap (g_timer_heap m)" "places_ok m" "g_timer_heap m \<noteq> []"
  shows "min_heap (g_timer_heap (pop_root m)) \<and> places_ok (pop_root m) \<and>
    mset (g_timer_heap (pop_root m)) = mset (g_timer_heap m) - {#g_timer_heap m ! 0#} \<and> same_timers m (pop_root m)"
proof (cases "0 < length (g_timer_heap m) - 1")
  case True
  let ?h = "g_timer_heap m"
  define m2 where "m2 = set_idx (ctx (?h ! (length ?h - 1))) 0 ((set_idx (ctx (?h ! 0)) SIZE_MAX m)\<lparr>g_timer_heap := replaced 0 ?h\<rparr>)"
  have p: "pop_root m = timer_heap_sift_down 0 m2" using True by (simp add: pop_root_def Let_def m2_def replaced_def)
  have h2: "g_timer_heap m2 = replaced 0 ?h" "same_timers m m2"
    by (simp_all add: m2_def set_idx_def same_timers_def idx_free_def)
  have "places_ok m2" using places_replaced [OF assms(2) True] by (simp add: m2_def)
  then have "min_heap (g_timer_heap (pop_root m)) \<and> places_ok (pop_root m) \<and>
      mset (g_timer_heap (pop_root m)) = mset (g_timer_heap m2) \<and> same_timers m2 (pop_root m)"
    using sift_down_ok [of 0 m2] hole_replaced [OF assms(1) True] True unfolding p h2(1) by (simp add: below_parent_def)
  then show ?thesis using h2 mset_replaced [OF True] same_timers_trans by auto
next
  case False
  then obtain e where e: "g_timer_heap m = [e]" using assms(3) by (cases "g_timer_heap m") auto
  have "places_ok ((set_idx (ctx e) SIZE_MAX m)\<lparr>g_timer_heap := []\<rparr>)" using places_butlast [OF assms(2,3)] e by simp
  then show ?thesis
    by (simp add: pop_root_def e Let_def min_heap_def same_timers_def set_idx_def idx_free_def)
qed

section \<open>Firing\<close>

lemma places_cong:
  "\<lbrakk>g_timer_heap m' = g_timer_heap m; \<And>c. heap_idx (tctxs m' c) = heap_idx (tctxs m c)\<rbrakk> \<Longrightarrow> places_ok m' = places_ok m"
  by (simp add: places_ok_def)

definition expire_now :: "nat \<Rightarrow> timer_mgr \<Rightarrow> timer_mgr" where
  "expire_now c m = goc_timeout_ctx_expire c (set_state c 2 m)"

lemma expire_simps [simp]:
  "g_timer_heap (expire_now c m) = g_timer_heap m" "places_ok (expire_now c m) = places_ok m"
  "start_state (tctxs (expire_now c m) b) = (if b = c then 2 else start_state (tctxs m b))"
  "cancel_requested (tctxs (expire_now c m) b) = (cancel_requested (tctxs m b) \<or> b = c \<and> c \<notin> closed_chs m)"
  "closed_chs (expire_now c m) = insert c (closed_chs m)"
  "tasks (expire_now c m) = tasks m @ (if c \<in> closed_chs m then [] else [CancelTimer c])"
  "allocations (expire_now c m) = allocations m"
  by (auto simp: expire_now_def goc_timeout_ctx_expire_def close_timeout_def on_timeout_channel_closed_def set_state_def
      intro!: places_cong)

text \<open>\<open>fires es m m'\<close>: the timeouts of the entries \<open>es\<close> were closed, in this order.\<close>

definition fires :: "timer_heap_entry list \<Rightarrow> timer_mgr \<Rightarrow> timer_mgr \<Rightarrow> bool" where
  "fires es m m' = ((\<forall>c. start_state (tctxs m' c) = (if c \<in> ctx ` set es then 2 else start_state (tctxs m c))) \<and>
     (\<forall>c. cancel_requested (tctxs m' c) = (cancel_requested (tctxs m c) \<or> c \<in> ctx ` set es - closed_chs m)) \<and>
     closed_chs m' = closed_chs m \<union> ctx ` set es \<and> allocations m' = allocations m \<and>
     tasks m' = tasks m @ map CancelTimer (filter (\<lambda>c. c \<notin> closed_chs m) (map ctx es)))"

lemma fire_loop_ok:
  "\<lbrakk>min_heap (g_timer_heap m); places_ok m\<rbrakk>
   \<Longrightarrow> \<exists>es. fires es m (fire_loop t m) \<and> sorted (map deadline_ns es) \<and> (\<forall>e \<in> set es. deadline_ns e \<le> t) \<and>
     min_heap (g_timer_heap (fire_loop t m)) \<and> places_ok (fire_loop t m) \<and>
     (\<forall>e \<in> set (g_timer_heap (fire_loop t m)). t < deadline_ns e) \<and>
     mset (g_timer_heap m) = mset es + mset (g_timer_heap (fire_loop t m))"
proof (induction t m rule: fire_loop.induct)
  case (1 t m)
  let ?h = "g_timer_heap m"
  show ?case
  proof (cases "?h \<noteq> [] \<and> key_at ?h 0 \<le> t")
    case False
    then have f: "fire_loop t m = m" by (subst fire_loop.simps) auto
    have "t < deadline_ns e" if e: "e \<in> set ?h" for e
    proof -
      obtain j where "j < length ?h" "e = ?h ! j" using e by (auto simp: in_set_conv_nth)
      then show ?thesis using False heap_root_least [OF 1(2), of j] by fastforce
    qed
    then show ?thesis unfolding f using 1(2,3) by (intro exI [of _ "[]"]) (simp add: fires_def)
  next
    case True
    let ?c = "ctx (?h ! 0)" and ?p = "pop_root m"
    let ?m = "expire_now ?c ?p"
    have f: "fire_loop t m = fire_loop t ?m" using True by (subst fire_loop.simps) (simp add: Let_def expire_now_def)
    note pop = pop_root_ok [OF 1(2,3)]
    have p: "min_heap (g_timer_heap ?p)" "places_ok ?p" "mset (g_timer_heap ?p) = mset ?h - {#?h ! 0#}" "same_timers m ?p"
      using pop True by auto
    have "\<exists>es. fires es ?m (fire_loop t ?m) \<and> sorted (map deadline_ns es) \<and> (\<forall>e \<in> set es. deadline_ns e \<le> t) \<and>
      min_heap (g_timer_heap (fire_loop t ?m)) \<and> places_ok (fire_loop t ?m) \<and>
      (\<forall>e \<in> set (g_timer_heap (fire_loop t ?m)). t < deadline_ns e) \<and>
      mset (g_timer_heap ?m) = mset es + mset (g_timer_heap (fire_loop t ?m))"
      using 1(1) [OF True refl] p(1,2) by (simp add: expire_now_def [symmetric])
    then obtain es where es: "fires es ?m (fire_loop t ?m)" "sorted (map deadline_ns es)" "\<forall>e \<in> set es. deadline_ns e \<le> t"
      "min_heap (g_timer_heap (fire_loop t ?m))" "places_ok (fire_loop t ?m)"
      "\<forall>e \<in> set (g_timer_heap (fire_loop t ?m)). t < deadline_ns e"
      "mset (g_timer_heap ?p) = mset es + mset (g_timer_heap (fire_loop t ?m))" by auto
    have in0: "?h ! 0 \<in># mset ?h" using True by simp
    then have ms: "mset ?h = mset (?h ! 0 # es) + mset (g_timer_heap (fire_loop t ?m))"
      using p(3) es(7) insert_DiffM [OF in0] by simp
    then have "mset (map ctx ?h) = mset (map ctx ((?h ! 0 # es) @ g_timer_heap (fire_loop t ?m)))" by simp
    then have "distinct (map ctx ((?h ! 0 # es) @ g_timer_heap (fire_loop t ?m)))"
      using 1(3) mset_eq_imp_distinct_iff unfolding places_ok_def by blast
    then have nc: "?c \<notin> ctx ` set es" by simp
    have "key_at ?h 0 \<le> deadline_ns e" if "e \<in> set es" for e
    proof -
      have "e \<in> set ?h" using arg_cong [OF ms, of set_mset] that by auto
      then obtain j where "j < length ?h" "e = ?h ! j" by (auto simp: in_set_conv_nth)
      then show ?thesis using heap_root_least [OF 1(2)] by simp
    qed
    moreover have "fires (?h ! 0 # es) m (fire_loop t ?m)"
    proof -
      have "filter (\<lambda>c. c \<notin> insert ?c (closed_chs m)) (map ctx es) = filter (\<lambda>c. c \<notin> closed_chs m) (map ctx es)"
        using nc by (intro filter_cong) (auto simp del: set_map simp add: set_map image_iff)
      then show ?thesis using es(1) same_timersD [OF p(4)] nc by (auto simp: fires_def)
    qed
    ultimately show ?thesis unfolding f using es ms True by (intro exI [of _ "?h ! 0 # es"]) auto
  qed
qed

section \<open>The invariant of the timers\<close>

fun starts :: "timer_task list \<Rightarrow> nat list" where
  "starts [] = []"
| "starts (StartTimer r # ts) = timer_ctx r # starts ts"
| "starts (CancelTimer c # ts) = starts ts"

lemma starts_append [simp]: "starts (xs @ ys) = starts xs @ starts ys"
  by (induction xs rule: starts.induct) simp_all

lemma starts_cancels [simp]: "starts (map CancelTimer cs) = []"
  by (induction cs) simp_all

text \<open>A context is in one of four phases: its start is posted, it is in the heap, it is done
  (closed), or it was closed before its start and never got into the heap.\<close>

definition phase_ok :: "nat \<Rightarrow> bool \<Rightarrow> bool \<Rightarrow> bool \<Rightarrow> bool \<Rightarrow> bool \<Rightarrow> bool" where
  "phase_ok st in_heap is_closed start_posted cancel cancel_posted =
     ((st = 1 \<longleftrightarrow> in_heap) \<and> (st \<noteq> 0 \<and> st \<noteq> 1 \<longrightarrow> is_closed) \<and> (st = 0 \<and> \<not> is_closed \<longrightarrow> start_posted) \<and>
      (start_posted \<longrightarrow> st = 0) \<and> (cancel \<longleftrightarrow> is_closed) \<and> (is_closed \<and> in_heap \<longrightarrow> cancel_posted) \<and>
      (cancel_posted \<longrightarrow> is_closed))"

lemma phase_close: "phase_ok st h cl sp ca cp \<Longrightarrow> phase_ok st h True sp True True"
  unfolding phase_ok_def by blast

lemma phase_fire: "phase_ok st True cl sp ca cp \<Longrightarrow> phase_ok 2 False True sp True cp'"
  by (cases sp) (auto simp: phase_ok_def)

definition ctx_ok :: "timer_mgr \<Rightarrow> nat \<Rightarrow> bool" where
  "ctx_ok m c = phase_ok (start_state (tctxs m c)) (c \<in> ctx ` set (g_timer_heap m)) (c \<in> closed_chs m)
     (c \<in> set (starts (tasks m))) (cancel_requested (tctxs m c)) (CancelTimer c \<in> set (tasks m))"

lemma mgr_ok_cong:
  assumes "mgr_ok m" "g_timer_heap m' = g_timer_heap m" "armed m' = armed m" "\<And>c. heap_idx (tctxs m' c) = heap_idx (tctxs m c)"
  shows "mgr_ok m'"
  using assms(1) places_cong [OF assms(2,4)] unfolding mgr_ok_def armed_ok_def assms(2,3) by simp

lemma same_tasksD:
  assumes "same_tasks m m'"
  shows "start_state (tctxs m' c) = start_state (tctxs m c)" "cancel_requested (tctxs m' c) = cancel_requested (tctxs m c)"
    "closed_chs m' = closed_chs m" "tasks m' = tasks m" "allocations m' = allocations m"
  using assms by (auto simp: same_tasks_def idx_free_def)

text \<open>The numbers in use: contexts in the heap, closed, or with a task posted.\<close>

definition known :: "timer_mgr \<Rightarrow> nat set" where
  "known m = ctx ` set (g_timer_heap m) \<union> closed_chs m \<union> set (starts (tasks m)) \<union> {c. CancelTimer c \<in> set (tasks m)}"

definition timer_inv :: "timer_mgr \<Rightarrow> bool" where
  "timer_inv m = (mgr_ok m \<and> (\<forall>c < allocations m. ctx_ok m c) \<and> distinct (starts (tasks m)) \<and> known m \<subseteq> {..<allocations m})"

lemma timer_inv_length:
  assumes "timer_inv m"
  shows "length (g_timer_heap m) \<le> allocations m"
proof -
  have "distinct (map ctx (g_timer_heap m))" "ctx ` set (g_timer_heap m) \<subseteq> {..<allocations m}"
    using assms by (auto simp: timer_inv_def mgr_ok_def places_ok_def known_def)
  then show ?thesis using card_mono [of "{..<allocations m}" "ctx ` set (g_timer_heap m)"] distinct_card [of "map ctx (g_timer_heap m)"]
    by simp
qed

lemma timeout_inv:
  assumes inv: "timer_inv m"
  shows "timer_inv (snd (goc_timeout t n m))"
proof -
  let ?m = "snd (goc_timeout t n m)" and ?c = "allocations m"
  have ok: "mgr_ok m" "known m \<subseteq> {..<?c}" "distinct (starts (tasks m))" using inv by (simp_all add: timer_inv_def)
  then have "?c \<notin> known m" by auto
  then have f: "?c \<notin> ctx ` set (g_timer_heap m)" "?c \<notin> closed_chs m" "?c \<notin> set (starts (tasks m))" "CancelTimer ?c \<notin> set (tasks m)"
    by (simp_all add: known_def)
  have m: "g_timer_heap ?m = g_timer_heap m" "armed ?m = armed m" "closed_chs ?m = closed_chs m"
    "tasks ?m = tasks m @ [StartTimer \<lparr>timer_ctx = ?c, ms = n, call_ns = t\<rparr>]" "allocations ?m = Suc ?c"
    "tctxs ?m = (tctxs m)(?c := \<lparr>start_state = 0, cancel_requested = False, heap_idx = SIZE_MAX\<rparr>)"
    by (simp_all add: goc_timeout_def Let_def)
  have "heap_idx (tctxs m ?c) = SIZE_MAX" using ok(1) f(1) by (simp add: mgr_ok_def places_ok_def)
  then have "mgr_ok ?m" using m by (intro mgr_ok_cong [OF ok(1)]) simp_all
  moreover have "ctx_ok ?m ?c" using f by (simp add: ctx_ok_def m phase_ok_def)
  moreover have "ctx_ok ?m c" if "c < ?c" for c
  proof -
    have "ctx_ok m c" using inv that by (simp add: timer_inv_def)
    then show ?thesis using that by (simp add: ctx_ok_def m)
  qed
  moreover have "known ?m \<subseteq> {..<Suc ?c}" using ok(2) by (auto simp: known_def m)
  ultimately show ?thesis using ok(3) f(3) by (simp add: timer_inv_def m less_Suc_eq)
qed

lemma close_inv:
  assumes "timer_inv m" "c < allocations m"
  shows "timer_inv (close_timeout c m)"
proof (cases "c \<in> closed_chs m")
  case True
  then show ?thesis using assms by (simp add: close_timeout_def)
next
  case False
  let ?m = "close_timeout c m"
  have ok: "mgr_ok m" "known m \<subseteq> {..<allocations m}" "distinct (starts (tasks m))" using assms by (simp_all add: timer_inv_def)
  have m: "g_timer_heap ?m = g_timer_heap m" "armed ?m = armed m" "closed_chs ?m = insert c (closed_chs m)"
    "tasks ?m = tasks m @ [CancelTimer c]" "allocations ?m = allocations m"
    "tctxs ?m = (tctxs m)(c := (tctxs m c)\<lparr>cancel_requested := True\<rparr>)"
    using False by (simp_all add: close_timeout_def on_timeout_channel_closed_def)
  have "mgr_ok ?m" using m by (intro mgr_ok_cong [OF ok(1)]) simp_all
  moreover have "ctx_ok ?m b" if "b < allocations m" for b
  proof -
    have "ctx_ok m b" using assms that by (simp add: timer_inv_def)
    then show ?thesis using phase_close by (cases "b = c") (simp_all add: ctx_ok_def m)
  qed
  moreover have "known ?m \<subseteq> {..<allocations m}" using ok(2) assms(2) by (auto simp: known_def m)
  ultimately show ?thesis using ok(3) by (simp add: timer_inv_def m)
qed

lemma fire_inv:
  assumes "timer_inv m"
  shows "timer_inv (on_timer_mgr_fire t a m)"
proof -
  let ?f = "fire_loop t m"
  let ?m = "timer_mgr_rearm a ?f"
  have ok: "mgr_ok m" "known m \<subseteq> {..<allocations m}" "distinct (starts (tasks m))" using assms by (simp_all add: timer_inv_def)
  obtain es where es: "fires es m ?f" "min_heap (g_timer_heap ?f)" "places_ok ?f" "mset (g_timer_heap m) = mset es + mset (g_timer_heap ?f)"
    using fire_loop_ok [of m t] ok(1) by (auto simp: mgr_ok_def)
  have st: "tasks ?m = tasks ?f" "closed_chs ?m = closed_chs ?f" "allocations ?m = allocations ?f" "tctxs ?m = tctxs ?f"
    by (simp_all add: timer_mgr_rearm_def)
  have "mset (map ctx (g_timer_heap m)) = mset (map ctx (es @ g_timer_heap ?f))" using es(4) by simp
  then have d: "distinct (map ctx (es @ g_timer_heap ?f))"
    using ok(1) mset_eq_imp_distinct_iff unfolding mgr_ok_def places_ok_def by blast
  have h: "ctx ` set (g_timer_heap m) = ctx ` set es \<union> ctx ` set (g_timer_heap ?f)"
    using arg_cong [OF es(4), of set_mset] by (simp add: image_Un)
  have dis: "ctx ` set es \<inter> ctx ` set (g_timer_heap ?f) = {}" using d by simp
  have ts: "tasks ?f = tasks m @ map CancelTimer (filter (\<lambda>c. c \<notin> closed_chs m) (map ctx es))" using es(1) by (simp add: fires_def)
  have cp: "CancelTimer c \<in> set (tasks ?f) \<longleftrightarrow> CancelTimer c \<in> set (tasks m) \<or> c \<in> ctx ` set es - closed_chs m" for c
    by (auto simp: ts)
  have sp: "starts (tasks ?f) = starts (tasks m)" by (simp add: ts)
  have "mgr_ok ?m" using es(2,3) by (simp add: mgr_ok_def)
  moreover have "ctx_ok ?m c" if c: "c < allocations m" for c
  proof -
    have 0: "ctx_ok m c" using assms c by (simp add: timer_inv_def)
    have 1: "start_state (tctxs ?f c) = (if c \<in> ctx ` set es then 2 else start_state (tctxs m c))"
      "cancel_requested (tctxs ?f c) = (cancel_requested (tctxs m c) \<or> c \<in> ctx ` set es - closed_chs m)"
      "c \<in> closed_chs ?f \<longleftrightarrow> c \<in> closed_chs m \<or> c \<in> ctx ` set es" using es(1) by (simp_all add: fires_def)
    have 2: "c \<in> ctx ` set (g_timer_heap ?f) \<longleftrightarrow> c \<in> ctx ` set (g_timer_heap m) \<and> c \<notin> ctx ` set es"
      "c \<in> ctx ` set es \<Longrightarrow> c \<in> ctx ` set (g_timer_heap m)" using h dis by blast+
    show ?thesis
    proof (cases "c \<in> ctx ` set es")
      case True
      then have "phase_ok (start_state (tctxs m c)) True (c \<in> closed_chs m) (c \<in> set (starts (tasks m)))
          (cancel_requested (tctxs m c)) (CancelTimer c \<in> set (tasks m))"
        using 0 2(2) unfolding ctx_ok_def by simp
      moreover from this have "cancel_requested (tctxs m c) \<or> c \<notin> closed_chs m" by (simp add: phase_ok_def)
      ultimately show ?thesis using phase_fire True unfolding ctx_ok_def st rearm_simps(1) sp cp 1 2(1) by simp
    next
      case False
      then show ?thesis using 0 unfolding ctx_ok_def st rearm_simps(1) sp cp 1 2(1) by simp
    qed
  qed
  moreover have "known ?m \<subseteq> {..<allocations m}"
    using ok(2) h es(1) cp unfolding known_def st sp rearm_simps(1) by (auto simp: fires_def)
  ultimately show ?thesis using ok(3) es(1) by (simp add: timer_inv_def on_timer_mgr_fire_def st sp fires_def)
qed

lemma phase_start:
  "phase_ok 0 h False sp ca cp \<Longrightarrow> phase_ok 1 True False False ca cp"
  "phase_ok st h True sp ca cp \<Longrightarrow> phase_ok st h True False ca cp"
  "\<lbrakk>phase_ok st h cl sp ca cp; st \<noteq> 1; cl\<rbrakk> \<Longrightarrow> phase_ok st h cl sp ca cp'"
  by (simp_all add: phase_ok_def)

lemma set_state_ok: "mgr_ok m \<Longrightarrow> mgr_ok (set_state c n m)"
  by (rule mgr_ok_cong) (auto simp: set_state_def)

lemma start_inv:
  assumes "timer_inv m" "tasks m = StartTimer r # ts"
  shows "timer_inv (on_start_timer t a r (m\<lparr>tasks := ts\<rparr>))"
proof -
  let ?c = "timer_ctx r" and ?m0 = "m\<lparr>tasks := ts\<rparr>"
  have ok: "mgr_ok m" "known m \<subseteq> {..<allocations m}" "distinct (starts (tasks m))" using assms by (simp_all add: timer_inv_def)
  have c: "?c < allocations m" "?c \<notin> set (starts ts)" "distinct (starts ts)" using ok(2,3) by (auto simp: known_def assms(2))
  have all: "ctx_ok m b" if "b < allocations m" for b using assms(1) that by (simp add: timer_inv_def)
  have pc: "phase_ok (start_state (tctxs m ?c)) (?c \<in> ctx ` set (g_timer_heap m)) (?c \<in> closed_chs m) True
      (cancel_requested (tctxs m ?c)) (CancelTimer ?c \<in> set ts)"
    using all [OF c(1)] by (simp add: ctx_ok_def assms(2))
  have st: "start_state (tctxs m ?c) = 0" "?c \<notin> ctx ` set (g_timer_heap m)" "cancel_requested (tctxs m ?c) \<longleftrightarrow> ?c \<in> closed_chs m"
    using pc by (auto simp: phase_ok_def)
  have k0: "known ?m0 \<subseteq> {..<allocations m}" using ok(2) by (auto simp: known_def assms(2))
  have m0: "mgr_ok ?m0" by (rule mgr_ok_cong [OF ok(1)]) simp_all
  have other: "b < allocations m \<Longrightarrow> b \<noteq> ?c \<Longrightarrow> ctx_ok ?m0 b" for b using all [of b] by (simp add: ctx_ok_def assms(2))
  show ?thesis
  proof (cases "cancel_requested (tctxs m ?c)")
    case True
    have "ctx_ok ?m0 ?c" using phase_start(2) pc st(3) True c(2) by (simp add: ctx_ok_def)
    then have "timer_inv ?m0" using m0 k0 c(3) other by (metis timer_inv_def timer_mgr.select_convs(6,7) timer_mgr.update_convs(6) timer_mgr.surjective)
    then show ?thesis using True by (simp add: on_start_timer_def)
  next
    case False
    define m1 where "m1 = set_state ?c 1 ?m0"
    have m1: "mgr_ok m1" "g_timer_heap m1 = g_timer_heap m" using m0 by (simp_all add: m1_def set_state_ok)
    define m' where "m' = goc_timer_manager_insert a ?c (fire_at_ns t r) m1"
    have i: "mgr_ok m'" "mset (g_timer_heap m') = add_mset \<lparr>deadline_ns = fire_at_ns t r, ctx = ?c\<rparr> (mset (g_timer_heap m))" "same_tasks m1 m'"
      using insert_ok [OF m1(1), of ?c a "fire_at_ns t r" m'] st(2) by (simp_all add: m1(2) m'_def)
    note sd = same_tasksD [OF i(3)]
    have f: "tasks m' = ts" "closed_chs m' = closed_chs m" "allocations m' = allocations m"
      "start_state (tctxs m' b) = (if b = ?c then 1 else start_state (tctxs m b))"
      "cancel_requested (tctxs m' b) = cancel_requested (tctxs m b)" for b
      by (simp_all add: sd m1_def set_state_def)
    have h: "ctx ` set (g_timer_heap m') = insert ?c (ctx ` set (g_timer_heap m))" using arg_cong [OF i(2), of set_mset] by simp
    have "ctx_ok m' ?c" using phase_start(1) pc st False c(2) by (simp add: ctx_ok_def f h)
    moreover have "ctx_ok m' b" if "b < allocations m" "b \<noteq> ?c" for b using other [OF that] that(2) by (simp add: ctx_ok_def f h)
    moreover have "known m' \<subseteq> {..<allocations m}" using k0 c(1) by (auto simp: known_def f h)
    ultimately have "timer_inv m'" using i(1) c(3) unfolding timer_inv_def f by blast
    moreover have "on_start_timer t a r ?m0 = m'"
      using False by (simp add: on_start_timer_def Let_def m'_def m1_def set_state_def)
    ultimately show ?thesis by simp
  qed
qed

lemma cancel_inv:
  assumes "timer_inv m" "tasks m = CancelTimer c # ts" "allocations m \<le> SIZE_MAX"
  shows "timer_inv (on_cancel_timer t c (m\<lparr>tasks := ts\<rparr>))"
proof -
  let ?m0 = "m\<lparr>tasks := ts\<rparr>"
  have ok: "mgr_ok m" "known m \<subseteq> {..<allocations m}" "distinct (starts (tasks m))" using assms by (simp_all add: timer_inv_def)
  have c: "c < allocations m" "distinct (starts ts)" using ok(2,3) by (auto simp: known_def assms(2))
  have all: "ctx_ok m b" if "b < allocations m" for b using assms(1) that by (simp add: timer_inv_def)
  have pc: "phase_ok (start_state (tctxs m c)) (c \<in> ctx ` set (g_timer_heap m)) (c \<in> closed_chs m) (c \<in> set (starts ts))
      (cancel_requested (tctxs m c)) True"
    using all [OF c(1)] by (simp add: ctx_ok_def assms(2))
  then have cl: "c \<in> closed_chs m" "cancel_requested (tctxs m c)" "start_state (tctxs m c) = 1 \<longleftrightarrow> c \<in> ctx ` set (g_timer_heap m)"
    by (simp_all add: phase_ok_def)
  have k0: "known ?m0 \<subseteq> {..<allocations m}" using ok(2) by (auto simp: known_def assms(2))
  have m0: "mgr_ok ?m0" by (rule mgr_ok_cong [OF ok(1)]) simp_all
  have other: "b < allocations m \<Longrightarrow> b \<noteq> c \<Longrightarrow> ctx_ok ?m0 b" for b using all [of b] by (simp add: ctx_ok_def assms(2))
  show ?thesis
  proof (cases "start_state (tctxs m c) = 1")
    case False
    have "ctx_ok ?m0 c" using phase_start(3) [OF pc False cl(1)] by (simp add: ctx_ok_def)
    then have "\<forall>b < allocations ?m0. ctx_ok ?m0 b" using other by (metis timer_mgr.select_convs(7) timer_mgr.surjective timer_mgr.update_convs(6))
    then show ?thesis using False m0 k0 c(2) by (simp add: on_cancel_timer_def timer_inv_def)
  next
    case True
    define m1 where "m1 = set_state c 2 ?m0"
    have m1: "mgr_ok m1" "g_timer_heap m1 = g_timer_heap m" using m0 by (simp_all add: m1_def set_state_ok)
    have len: "length (g_timer_heap m1) \<le> SIZE_MAX" using timer_inv_length [OF assms(1)] assms(3) m1(2) by simp
    define m' where "m' = goc_timer_manager_remove t c m1"
    have i: "mgr_ok m'" "mset (g_timer_heap m') = filter_mset (\<lambda>e. ctx e \<noteq> c) (mset (g_timer_heap m))" "same_tasks m1 m'"
      using remove_ok [OF m1(1) len, of t c m'] by (simp_all add: m1(2) m'_def)
    note sd = same_tasksD [OF i(3)]
    have f: "tasks m' = ts" "closed_chs m' = closed_chs m" "allocations m' = allocations m"
      "start_state (tctxs m' b) = (if b = c then 2 else start_state (tctxs m b))"
      "cancel_requested (tctxs m' b) = cancel_requested (tctxs m b)" for b
      by (simp_all add: sd m1_def set_state_def)
    have "set (g_timer_heap m') = {e \<in> set (g_timer_heap m). ctx e \<noteq> c}" using arg_cong [OF i(2), of set_mset] by simp
    then have h: "ctx ` set (g_timer_heap m') = ctx ` set (g_timer_heap m) - {c}" by auto
    have "ctx_ok m' c" using phase_fire pc cl True by (simp add: ctx_ok_def f h)
    moreover have "ctx_ok m' b" if "b < allocations m" "b \<noteq> c" for b using other [OF that] that(2) by (simp add: ctx_ok_def f h)
    moreover have "known m' \<subseteq> {..<allocations m}" using k0 by (auto simp: known_def f h)
    ultimately have "timer_inv m'" using i(1) c(2) unfolding timer_inv_def f by blast
    then show ?thesis using True by (simp add: on_cancel_timer_def m'_def m1_def)
  qed
qed

lemma step_inv:
  assumes "timer_inv m" "allocations m \<le> SIZE_MAX"
  shows "timer_inv (timer_step ev m)"
proof (cases ev)
  case (RunTask t a)
  have "timer_inv (run_task t a m)"
    unfolding run_task_def using assms start_inv [OF assms(1)] cancel_inv [OF assms(1) _ assms(2)]
    by (auto split: list.splits timer_task.splits)
  then show ?thesis using RunTask by (simp add: timer_step_def)
qed (use assms timeout_inv close_inv fire_inv in \<open>simp_all add: timer_step_def\<close>)

text \<open>Only \<open>goc_timeout\<close> makes a context.\<close>

lemma sift_allocations [simp]:
  "allocations (timer_heap_sift_up i m) = allocations m" "allocations (timer_heap_sift_down i m) = allocations m"
proof -
  show "allocations (timer_heap_sift_up i m) = allocations m"
  proof (induction i m rule: timer_heap_sift_up.induct)
    case (1 i m)
    then show ?case by (subst timer_heap_sift_up.simps) (simp add: Let_def timer_heap_swap_def set_idx_def)
  qed
  show "allocations (timer_heap_sift_down i m) = allocations m"
  proof (induction i m rule: timer_heap_sift_down.induct)
    case (1 i m)
    then show ?case by (subst timer_heap_sift_down.simps) (simp add: Let_def timer_heap_swap_def set_idx_def)
  qed
qed

lemma manager_allocations [simp]:
  "allocations (set_idx c i m) = allocations m" "allocations (set_state c n m) = allocations m"
  "allocations (timer_mgr_rearm t m) = allocations m" "allocations (goc_timer_manager_insert t c d m) = allocations m"
  "allocations (goc_timer_manager_remove t c m) = allocations m" "allocations (pop_root m) = allocations m"
  "allocations (goc_timeout_ctx_expire c m) = allocations m" "allocations (close_timeout c m) = allocations m"
  by (simp_all add: set_idx_def set_state_def timer_mgr_rearm_def goc_timer_manager_insert_def goc_timer_manager_remove_def
      pop_root_def goc_timeout_ctx_expire_def close_timeout_def on_timeout_channel_closed_def grow_heap_def Let_def)

lemma fire_allocations [simp]: "allocations (fire_loop t m) = allocations m"
proof (induction t m rule: fire_loop.induct)
  case (1 t m)
  then show ?case by (subst fire_loop.simps) (simp add: Let_def)
qed

lemma step_allocations: "allocations (timer_step ev m) \<le> Suc (allocations m)"
  by (auto simp: timer_step_def goc_timeout_def run_task_def on_start_timer_def on_cancel_timer_def on_timer_mgr_fire_def Let_def
      split: timer_event.splits list.splits timer_task.splits)

lemma init_inv: "timer_inv goc_timer_manager_init"
  by (simp add: timer_inv_def goc_timer_manager_init_def mgr_ok_def min_heap_def places_ok_def armed_ok_def known_def)

lemma run_inv:
  "\<lbrakk>timer_inv m; allocations m + length evs \<le> SIZE_MAX\<rbrakk> \<Longrightarrow> timer_inv (timer_run evs m)"
proof (induction evs arbitrary: m)
  case (Cons ev evs)
  have "allocations (timer_step ev m) + length evs \<le> SIZE_MAX" using step_allocations [of ev m] Cons.prems(2) by simp
  moreover have "timer_inv (timer_step ev m)" using step_inv Cons.prems by simp
  ultimately show ?case using Cons.IH by (simp add: timer_run_def)
qed (simp add: timer_run_def)

section \<open>Properties\<close>

text \<open>C8:
  Over any sequence of new timeouts, closes, posted tasks and firings of the backing timer, the
  heap stays a binary heap with every context at the position it records, and the backing timer is
  started exactly when timeouts are pending, for the earliest of them. Once the posted tasks have
  run, the pending timeouts are exactly the open ones: a closed timeout keeps no slot, an open one
  is never lost.
\<close>

theorem timers_settle:
  assumes "length evs \<le> SIZE_MAX" "m = timer_run evs goc_timer_manager_init"
  shows "mgr_ok m \<and> (tasks m = [] \<longrightarrow> (\<forall>c < allocations m. c \<in> ctx ` set (g_timer_heap m) \<longleftrightarrow> c \<notin> closed_chs m))"
proof -
  have "timer_inv m" using run_inv [OF init_inv, of evs] assms by (simp add: goc_timer_manager_init_def)
  moreover have "c \<in> ctx ` set (g_timer_heap m) \<longleftrightarrow> c \<notin> closed_chs m" if "tasks m = []" "ctx_ok m c" for c
    using that by (auto simp: ctx_ok_def phase_ok_def)
  ultimately show ?thesis by (simp add: timer_inv_def)
qed

text \<open>C25:
  When the backing timer fires at \<open>t\<close>, exactly the timeouts with a deadline not after \<open>t\<close> are closed,
  in the order of their deadlines and each once; the others stay pending, and the timer is
  started again for the earliest of them.
\<close>

theorem timer_fires_expired:
  assumes "length evs \<le> SIZE_MAX" "m = timer_run evs goc_timer_manager_init" "m' = on_timer_mgr_fire t a m"
  shows "\<exists>es. sorted (map deadline_ns es) \<and> mset es = filter_mset (\<lambda>e. deadline_ns e \<le> t) (mset (g_timer_heap m)) \<and>
    mset (g_timer_heap m') = filter_mset (\<lambda>e. t < deadline_ns e) (mset (g_timer_heap m)) \<and> mgr_ok m' \<and>
    closed_chs m' = closed_chs m \<union> ctx ` set es \<and>
    tasks m' = tasks m @ map CancelTimer (filter (\<lambda>c. c \<notin> closed_chs m) (map ctx es))"
proof -
  have inv: "timer_inv m" using run_inv [OF init_inv, of evs] assms by (simp add: goc_timer_manager_init_def)
  let ?f = "fire_loop t m"
  obtain es where es: "fires es m ?f" "sorted (map deadline_ns es)" "\<forall>e \<in> set es. deadline_ns e \<le> t"
    "\<forall>e \<in> set (g_timer_heap ?f). t < deadline_ns e" "mset (g_timer_heap m) = mset es + mset (g_timer_heap ?f)"
    using fire_loop_ok [of m t] inv by (auto simp: timer_inv_def mgr_ok_def)
  have m': "g_timer_heap m' = g_timer_heap ?f" "closed_chs m' = closed_chs ?f" "tasks m' = tasks ?f"
    by (simp_all add: assms(3) on_timer_mgr_fire_def timer_mgr_rearm_def)
  have "filter_mset (\<lambda>e. deadline_ns e \<le> t) (mset (g_timer_heap ?f)) = {#}"
    "filter_mset (\<lambda>e. t < deadline_ns e) (mset es) = {#}"
    using es(3,4) by (auto simp: filter_empty_conv not_le not_less simp flip: mset_filter)
  moreover have "filter_mset (\<lambda>e. deadline_ns e \<le> t) (mset es) = mset es"
    "filter_mset (\<lambda>e. t < deadline_ns e) (mset (g_timer_heap ?f)) = mset (g_timer_heap ?f)"
    using es(3,4) by (simp_all add: filter_mset_eq_conv)
  moreover have "mgr_ok m'" using fire_inv [OF inv] assms(3) by (simp add: timer_inv_def)
  ultimately show ?thesis using es(1,2,5) by (intro exI [of _ es]) (simp add: m' fires_def)
qed

lemma unat_remaining:
  assumes "call_ns r \<le> t"
  shows "unat (remaining_ms t r) = unat (ms r) - (unat t - unat (call_ns r)) div 1000000"
proof -
  define e where "e = (if call_ns r < t then t - call_ns r else 0) div 1000000"
  have u: "unat e = (unat t - unat (call_ns r)) div 1000000"
    using assms by (auto simp: e_def unat_div unat_sub)
  have "remaining_ms t r = (if e < ms r then ms r - e else 0)" by (simp add: remaining_ms_def Let_def e_def)
  moreover have "unat (ms r - e) = unat (ms r) - unat e" if "e < ms r" using that by (simp add: unat_sub)
  ultimately show ?thesis using u by (auto simp: word_less_nat_alt)
qed

lemma unat_delay:
  assumes "a \<le> d" "unat d - unat a + 999999 < 2 ^ 64"
  shows "unat (delay_ms a d) = (unat d - unat a + 999999) div 1000000"
proof (cases "a < d")
  case True
  have s: "unat (d - a) = unat d - unat a" using assms(1) by (simp add: unat_sub)
  then have "unat (d - a + 999999) = unat d - unat a + 999999"
    using assms(2) by (subst unat_add_lem [THEN iffD1]) simp_all
  then show ?thesis using True by (simp add: delay_ms_def unat_div)
next
  case False
  then have "a = d" using assms(1) by simp
  then show ?thesis by (simp add: delay_ms_def)
qed

text \<open>C37:
  A timeout is entered with a deadline not before its full time has passed since the call, and
  less than a millisecond after that (or after its start was dispatched, when that came later);
  the backing timer is started with a delay that does not end before the deadline and ends less than a
  millisecond after it. The arithmetic holds as long as the sums fit 64 bits; a timeout of the
  largest number of milliseconds has wrapped around and is entered as one that expired a
  millisecond ago.
\<close>

theorem timeout_deadline:
  assumes "call_ns r \<le> t" "unat t + unat (ms r) * 1000000 < 2 ^ 64"
    and "a \<le> d" "unat d - unat a + 999999 < 2 ^ 64"
  shows "unat (call_ns r) + unat (ms r) * 1000000 \<le> unat (fire_at_ns t r) \<and>
    unat (fire_at_ns t r) < max (unat t) (unat (call_ns r) + unat (ms r) * 1000000) + 1000000 \<and>
    unat d \<le> unat a + unat (delay_ms a d) * 1000000 \<and>
    unat a + unat (delay_ms a d) * 1000000 < unat d + 1000000 \<and>
    fire_at_ns t \<lparr>timer_ctx = timer_ctx r, ms = - 1, call_ns = t\<rparr> = t - 1000000"
proof -
  define N where "N = unat t"
  define C where "C = unat (call_ns r)"
  define M where "M = unat (ms r)"
  have CN: "C \<le> N" using assms(1) by (simp add: C_def N_def word_le_nat_alt)
  let ?E = "(N - C) div 1000000"
  have rem: "unat (remaining_ms t r) = M - ?E" using unat_remaining [OF assms(1)] by (simp add: M_def N_def C_def)
  have lt: "N + (M - ?E) * 1000000 < 2 ^ 64" using assms(2) by (simp add: N_def M_def)
  have "unat (remaining_ms t r * 1000000) = (M - ?E) * 1000000"
    using lt rem by (subst unat_mult_lem [THEN iffD1]) auto
  then have fire: "unat (fire_at_ns t r) = N + (M - ?E) * 1000000"
    using lt unfolding fire_at_ns_def by (subst unat_add_lem [THEN iffD1]) (simp_all add: N_def)
  have "?E * 1000000 \<le> N - C" "N - C < ?E * 1000000 + 1000000" by auto
  then have 1: "C + M * 1000000 \<le> N + (M - ?E) * 1000000" "N + (M - ?E) * 1000000 < max N (C + M * 1000000) + 1000000"
    using CN by (auto simp: diff_mult_distrib max_def)
  define A where "A = unat a"
  define D where "D = unat d"
  have AD: "A \<le> D" using assms(3) by (simp add: A_def D_def word_le_nat_alt)
  have delay: "unat (delay_ms a d) = (D - A + 999999) div 1000000" using unat_delay [OF assms(3,4)] by (simp add: A_def D_def)
  have 2: "D \<le> A + (D - A + 999999) div 1000000 * 1000000" "A + (D - A + 999999) div 1000000 * 1000000 < D + 1000000"
    using AD by auto
  have "fire_at_ns t \<lparr>timer_ctx = timer_ctx r, ms = - 1, call_ns = t\<rparr> = t - 1000000"
    by (simp add: fire_at_ns_def remaining_ms_def word_gt_0)
  then show ?thesis using fire 1 delay 2 by (simp add: N_def C_def M_def A_def D_def)
qed

section \<open>Witnesses\<close>

text \<open>Two timeouts are made, the first is closed, the loop starts both.\<close>

definition demo_events :: "timer_event list" where
  "demo_events = [Timeout 5 7, Timeout 6 8, CloseTimeout 0, RunTask 10 10, RunTask 11 11, RunTask 12 12]"

lemma demo_timers:
  "tasks (timer_run demo_events goc_timer_manager_init) = []" "allocations (timer_run demo_events goc_timer_manager_init) = 2"
  "g_timer_heap (timer_run demo_events goc_timer_manager_init) = [\<lparr>deadline_ns = 8000011, ctx = 1\<rparr>]"
  "closed_chs (timer_run demo_events goc_timer_manager_init) = {0}"
  by (simp_all add: demo_events_def timer_run_def timer_step_def goc_timeout_def goc_timer_manager_init_def close_timeout_def
      on_timeout_channel_closed_def run_task_def on_start_timer_def on_cancel_timer_def set_state_def goc_timer_manager_insert_def
      grow_heap_def TIMER_HEAP_INIT_CAP_def timer_heap_sift_up.simps set_idx_def timer_mgr_rearm_def fire_at_ns_def
      remaining_ms_def Let_def)

theorem timers_settle_witness:
  "mgr_ok (timer_run demo_events goc_timer_manager_init) \<and>
   1 \<in> ctx ` set (g_timer_heap (timer_run demo_events goc_timer_manager_init)) \<and>
   0 \<in> closed_chs (timer_run demo_events goc_timer_manager_init)"
proof -
  have "length demo_events \<le> SIZE_MAX" by (simp add: demo_events_def SIZE_MAX_def)
  from timers_settle [OF this refl] show ?thesis by (simp add: demo_timers)
qed

theorem timer_fires_expired_witness:
  "1 \<in> closed_chs (on_timer_mgr_fire 8000020 8000020 (timer_run demo_events goc_timer_manager_init))"
proof -
  have "length demo_events \<le> SIZE_MAX" by (simp add: demo_events_def SIZE_MAX_def)
  from timer_fires_expired [OF this refl refl, of 8000020 8000020] show ?thesis by (auto simp: demo_timers)
qed

theorem timeout_deadline_witness:
  "unat (5 :: 64 word) + unat (7 :: 64 word) * 1000000 \<le> unat (fire_at_ns 10 \<lparr>timer_ctx = 0, ms = 7, call_ns = 5\<rparr>)"
  using timeout_deadline [of "\<lparr>timer_ctx = 0, ms = 7, call_ns = 5\<rparr>" 10 3 4] by simp

end
