(* ===== verification/Goc_Wsdq.thy ===== *)
theory Goc_Wsdq
  imports Goc_Refine
begin

text \<open>
  The scheduler's queues (wsdq.c): the Chase-Lev deque of a worker, whose bottom end belongs to
  the worker and whose top end thieves take from, and the injector, a linked list under a mutex.
  The deque is given twice: each operation in one piece, which is what a caller without
  contention sees, and cut into its atomic accesses, so that a schedule can interleave one owner
  with the thief that holds the steal lock. Accesses are sequentially consistent.
\<close>

section \<open>The deque, one operation at a time\<close>

record goc_wsdq =
  dq_bottom :: nat
  dq_top :: nat
  dq_buf :: "ptr list"
  dq_capacity :: nat

text \<open>\<open>GC_malloc_uncollectable\<close> clears the block; the byte count is a product in \<open>size_t\<close>.\<close>

definition ring_alloc :: "nat \<Rightarrow> ptr list" where
  "ring_alloc cap = replicate (slots cap) NULL"

definition wsdq_init :: "nat \<Rightarrow> goc_wsdq res" where
  "wsdq_init cap =
     (if 0 < cap \<and> cap AND (cap - 1) = 0
      then Inr \<lparr>dq_bottom = 0, dq_top = 0, dq_buf = ring_alloc cap, dq_capacity = cap\<rparr>
      else Inl (Abort ''cap > 0 && (cap & (cap - 1)) == 0''))"

text \<open>The buffer is freed: every later access to it is outside a block.\<close>

definition wsdq_destroy :: "'a goc_wsdq_scheme \<Rightarrow> 'a goc_wsdq_scheme" where
  "wsdq_destroy dq = dq\<lparr>dq_buf := []\<rparr>"


definition wsdq_approx_size :: "'a goc_wsdq_scheme \<Rightarrow> nat" where
  "wsdq_approx_size dq =
     (if dq_top dq \<le> dq_bottom dq then dq_bottom dq - dq_top dq else 0)"

text \<open>\<open>for (i = t; i < b; i++) new_buf[i % new_cap] = buf[i % cap]\<close>; \<open>i < b\<close> keeps \<open>i++\<close> in range.\<close>

function copy_ring :: "nat \<Rightarrow> nat \<Rightarrow> nat \<Rightarrow> ptr list \<Rightarrow> nat \<Rightarrow> ptr list \<Rightarrow> ptr list res" where
  "copy_ring i b cap old ncap new =
     (if i < b
      then rbind (lread old (i mod cap)) (\<lambda>e.
           rbind (lwrite new (i mod ncap) e) (\<lambda>new1. copy_ring (Suc i) b cap old ncap new1))
      else Inr new)"
  by auto
termination
  by (relation "measure (\<lambda>(i, b, _). b - i)") auto

declare copy_ring.simps [simp del]

definition ring_grow :: "nat \<Rightarrow> nat \<Rightarrow> 'a goc_wsdq_scheme \<Rightarrow> 'a goc_wsdq_scheme res" where
  "ring_grow t b dq =
     (let ncap = size_mul (dq_capacity dq) 2 in
      rbind (copy_ring t b (dq_capacity dq) (dq_buf dq) ncap (ring_alloc ncap)) (\<lambda>new.
      Inr (dq\<lparr>dq_buf := new, dq_capacity := ncap\<rparr>)))"

text \<open>The bottom a push starts from: at least the top.\<close>

definition push_bottom :: "'a goc_wsdq_scheme \<Rightarrow> nat" where
  "push_bottom dq = (if dq_bottom dq < dq_top dq then dq_top dq else dq_bottom dq)"

definition ring_write :: "nat \<Rightarrow> ptr \<Rightarrow> 'a goc_wsdq_scheme \<Rightarrow> 'a goc_wsdq_scheme res" where
  "ring_write b e dq =
     rbind (lwrite (dq_buf dq) (b mod dq_capacity dq) e) (\<lambda>buf1. Inr (dq\<lparr>dq_buf := buf1\<rparr>))"

definition ring_read :: "nat \<Rightarrow> 'a goc_wsdq_scheme \<Rightarrow> ptr res" where
  "ring_read i dq = lread (dq_buf dq) (i mod dq_capacity dq)"

definition wsdq_push_bottom :: "ptr \<Rightarrow> 'a goc_wsdq_scheme \<Rightarrow> 'a goc_wsdq_scheme res" where
  "wsdq_push_bottom e dq =
     (let b = push_bottom dq; t = dq_top dq in
      rbind (if dq_capacity dq \<le> b - t then ring_grow t b dq else Inr dq) (\<lambda>dq1.
      rbind (ring_write b e dq1) (\<lambda>dq2.
      Inr (dq2\<lparr>dq_bottom := size_add b 1\<rparr>))))"

definition wsdq_pop_bottom :: "'a goc_wsdq_scheme \<Rightarrow> (ptr \<times> 'a goc_wsdq_scheme) res" where
  "wsdq_pop_bottom dq =
     (let old_b = dq_bottom dq; dq1 = dq\<lparr>dq_bottom := size_sub old_b 1\<rparr>; t = dq_top dq1 in
      if old_b \<le> t then Inr (NULL, dq1\<lparr>dq_bottom := if old_b < t then t else old_b\<rparr>)
      else let new_b = old_b - 1 in
           rbind (ring_read new_b dq1) (\<lambda>e.
           if t < new_b then Inr (e, dq1)
           else Inr (e, dq1\<lparr>dq_top := size_add t 1, dq_bottom := size_add t 1\<rparr>)))"

definition wsdq_steal_top :: "'a goc_wsdq_scheme \<Rightarrow> (ptr \<times> 'a goc_wsdq_scheme) res" where
  "wsdq_steal_top dq =
     (let t = dq_top dq; b = dq_bottom dq in
      if b \<le> t then Inr (NULL, dq)
      else rbind (ring_read t dq) (\<lambda>e. Inr (e, dq\<lparr>dq_top := size_add t 1\<rparr>)))"

section \<open>The deque, one atomic access at a time\<close>

text \<open>
  Where the owner is: in a push of \<open>e\<close> that has loaded \<open>b\<close> and \<open>t\<close>, or has written its slot; in a
  pop that has decremented the bottom, is about to race for the last entry, or is about to store
  the bottom. A thief past the top has loaded it, then found the deque not empty, then read the slot.
\<close>

datatype owner_pc =
  OIdle | OPush ptr nat nat | OSlot ptr nat | OPop nat | OCas nat ptr | ORestore nat

datatype thief_pc =
  TIdle | TTop nat | TGo nat | TRead nat ptr

text \<open>\<open>pushed\<close> and \<open>taken\<close> record the entries published and the entries handed out.\<close>

record wsdq_sys = goc_wsdq +
  owner :: owner_pc
  thief :: thief_pc
  pushed :: "ptr list"
  taken :: "ptr list"

datatype wsdq_act =
  PushLoad ptr | PushGrow | PushWrite | PushStore
| PopDec | PopLoad | PopCas | PopRestore
| StealTop | StealBottom | StealRead | StealCas

text \<open>
  \<open>None\<close>: the action is not the thread's next one. Growing waits for the steal lock, which a thief
  holds from its first access to its last.
\<close>

fun owner_act :: "wsdq_act \<Rightarrow> wsdq_sys \<Rightarrow> wsdq_sys out" where
  "owner_act (PushLoad e) s =
     (if owner s = OIdle then Some (Inr (s\<lparr>owner := OPush e (push_bottom s) (dq_top s)\<rparr>)) else None)"
| "owner_act PushGrow s =
     (case owner s of
        OPush e b t \<Rightarrow>
          if dq_capacity s \<le> b - t \<and> thief s = TIdle then Some (ring_grow t b s) else None
      | _ \<Rightarrow> None)"
| "owner_act PushWrite s =
     (case owner s of
        OPush e b t \<Rightarrow>
          if dq_capacity s \<le> b - t then None
          else obind (Some (ring_write b e s)) (\<lambda>s1. Some (Inr (s1\<lparr>owner := OSlot e b\<rparr>)))
      | _ \<Rightarrow> None)"
| "owner_act PushStore s =
     (case owner s of
        OSlot e b \<Rightarrow>
          Some (Inr (s\<lparr>dq_bottom := size_add b 1, owner := OIdle, pushed := pushed s @ [e]\<rparr>))
      | _ \<Rightarrow> None)"
| "owner_act PopDec s =
     (if owner s = OIdle
      then Some (Inr (s\<lparr>dq_bottom := size_sub (dq_bottom s) 1, owner := OPop (dq_bottom s)\<rparr>))
      else None)"
| "owner_act PopLoad s =
     (case owner s of
        OPop old_b \<Rightarrow>
          let t = dq_top s in
          if old_b \<le> t then Some (Inr (s\<lparr>owner := ORestore (if old_b < t then t else old_b)\<rparr>))
          else let new_b = old_b - 1 in
               obind (Some (ring_read new_b s)) (\<lambda>e.
               if t < new_b then Some (Inr (s\<lparr>owner := OIdle, taken := taken s @ [e]\<rparr>))
               else Some (Inr (s\<lparr>owner := OCas t e\<rparr>)))
      | _ \<Rightarrow> None)"
| "owner_act PopCas s =
     (case owner s of
        OCas t e \<Rightarrow>
          if dq_top s = t
          then Some (Inr (s\<lparr>dq_top := size_add t 1, owner := ORestore (size_add t 1), taken := taken s @ [e]\<rparr>))
          else Some (Inr (s\<lparr>owner := ORestore (size_add t 1)\<rparr>))
      | _ \<Rightarrow> None)"
| "owner_act PopRestore s =
     (case owner s of
        ORestore b \<Rightarrow> Some (Inr (s\<lparr>dq_bottom := b, owner := OIdle\<rparr>))
      | _ \<Rightarrow> None)"
| "owner_act _ s = None"

fun thief_act :: "wsdq_act \<Rightarrow> wsdq_sys \<Rightarrow> wsdq_sys out" where
  "thief_act StealTop s =
     (if thief s = TIdle then Some (Inr (s\<lparr>thief := TTop (dq_top s)\<rparr>)) else None)"
| "thief_act StealBottom s =
     (case thief s of
        TTop t \<Rightarrow> Some (Inr (s\<lparr>thief := if dq_bottom s \<le> t then TIdle else TGo t\<rparr>))
      | _ \<Rightarrow> None)"
| "thief_act StealRead s =
     (case thief s of
        TGo t \<Rightarrow> obind (Some (ring_read t s)) (\<lambda>e. Some (Inr (s\<lparr>thief := TRead t e\<rparr>)))
      | _ \<Rightarrow> None)"
| "thief_act StealCas s =
     (case thief s of
        TRead t e \<Rightarrow>
          if dq_top s = t
          then Some (Inr (s\<lparr>dq_top := size_add t 1, thief := TIdle, taken := taken s @ [e]\<rparr>))
          else Some (Inr (s\<lparr>thief := TIdle\<rparr>))
      | _ \<Rightarrow> None)"
| "thief_act _ s = None"

definition steals :: "wsdq_act \<Rightarrow> bool" where
  "steals a \<longleftrightarrow> a = StealTop \<or> a = StealBottom \<or> a = StealRead \<or> a = StealCas"

definition wsdq_step :: "wsdq_act \<Rightarrow> wsdq_sys \<Rightarrow> wsdq_sys out" where
  "wsdq_step a s = (if steals a then thief_act a s else owner_act a s)"

text \<open>A schedule; \<open>None\<close> when it asks a thread for something that is not its next action.\<close>

fun wsdq_run :: "wsdq_act list \<Rightarrow> wsdq_sys \<Rightarrow> wsdq_sys out" where
  "wsdq_run [] s = Some (Inr s)"
| "wsdq_run (a # as) s = obind (wsdq_step a s) (wsdq_run as)"

definition quiet :: "goc_wsdq \<Rightarrow> wsdq_sys" where
  "quiet dq = goc_wsdq.extend dq \<lparr>owner = OIdle, thief = TIdle, pushed = [], taken = []\<rparr>"

section \<open>The injector\<close>

record goc_injector_node =
  n_entry :: ptr
  n_next :: "nat option"

text \<open>The nodes are numbered in the order of their allocation; a freed node is \<open>None\<close>.\<close>

record goc_injector =
  inj_head :: "nat option"
  inj_tail :: "nat option"
  inj_nodes :: "nat \<rightharpoonup> goc_injector_node"
  inj_fresh :: nat

definition injector_init :: goc_injector where
  "injector_init = \<lparr>inj_head = None, inj_tail = None, inj_nodes = Map.empty, inj_fresh = 0\<rparr>"

definition node_at :: "nat \<Rightarrow> goc_injector \<Rightarrow> goc_injector_node res" where
  "node_at n q = (case inj_nodes q n of None \<Rightarrow> Inl OutOfBounds | Some nd \<Rightarrow> Inr nd)"

definition injector_push :: "ptr \<Rightarrow> goc_injector \<Rightarrow> goc_injector res" where
  "injector_push e q =
     (let n = inj_fresh q;
          q1 = q\<lparr>inj_nodes := (inj_nodes q)(n \<mapsto> \<lparr>n_entry = e, n_next = None\<rparr>), inj_fresh := Suc n\<rparr>
      in rbind (case inj_tail q1 of
                  Some t \<Rightarrow> rbind (node_at t q1) (\<lambda>nd.
                     Inr (q1\<lparr>inj_nodes := (inj_nodes q1)(t \<mapsto> nd\<lparr>n_next := Some n\<rparr>)\<rparr>))
                | None \<Rightarrow> Inr (q1\<lparr>inj_head := Some n\<rparr>)) (\<lambda>q2.
         Inr (q2\<lparr>inj_tail := Some n\<rparr>)))"

definition injector_pop :: "goc_injector \<Rightarrow> (ptr \<times> goc_injector) res" where
  "injector_pop q =
     (case inj_head q of
        None \<Rightarrow> Inr (NULL, q)
      | Some n \<Rightarrow>
          rbind (node_at n q) (\<lambda>nd.
          let q1 = q\<lparr>inj_head := n_next nd\<rparr>;
              q2 = (if inj_head q1 = None then q1\<lparr>inj_tail := None\<rparr> else q1)
          in Inr (n_entry nd, q2\<lparr>inj_nodes := (inj_nodes q2)(n := None)\<rparr>)))"

partial_function (option) free_nodes :: "nat option \<Rightarrow> goc_injector \<Rightarrow> goc_injector out" where
  "free_nodes p q =
     (case p of
        None \<Rightarrow> Some (Inr q)
      | Some n \<Rightarrow>
          (case node_at n q of
             Inl f \<Rightarrow> Some (Inl f)
           | Inr nd \<Rightarrow> free_nodes (n_next nd) (q\<lparr>inj_nodes := (inj_nodes q)(n := None)\<rparr>)))"

definition injector_destroy :: "goc_injector \<Rightarrow> goc_injector out" where
  "injector_destroy q =
     obind (free_nodes (inj_head q) q) (\<lambda>q1.
     Some (Inr (q1\<lparr>inj_head := None, inj_tail := None\<rparr>)))"

end
