(* ===== verification/Goc_Wsdq_Props.thy ===== *)
theory Goc_Wsdq_Props
  imports Goc_Wsdq
begin

text \<open>
  What the scheduler's queues promise. Uncontended, the deque is a list with one end for its
  worker and one for thieves, and the injector a queue that leaks no node. Contended, every
  schedule hands out each published entry exactly once, provided that the worker does not pop
  before its first push; when it does, an entry can be lost.
\<close>

section \<open>Ring buffers\<close>

abbreviation slot :: "'a goc_wsdq_scheme \<Rightarrow> nat \<Rightarrow> ptr" where
  "slot dq i \<equiv> dq_buf dq ! (i mod dq_capacity dq)"

definition ring_ok :: "'a goc_wsdq_scheme \<Rightarrow> bool" where
  "ring_ok dq \<longleftrightarrow> length (dq_buf dq) = dq_capacity dq \<and> 0 < dq_capacity dq \<and> dq_capacity dq \<le> 2 ^ 60"

definition segment :: "nat \<Rightarrow> nat \<Rightarrow> 'a goc_wsdq_scheme \<Rightarrow> ptr list" where
  "segment t b dq = map (slot dq) [t..<b]"

lemma ring_distinct:
  assumes "i < b" "b < i + cap"
  shows "i mod cap \<noteq> b mod (cap :: nat)"
proof
  assume "i mod cap = b mod cap"
  then have "cap dvd b - i" using assms(1) by (metis less_imp_le_nat mod_eq_dvd_iff_nat)
  with assms show False by (auto dest: dvd_imp_le)
qed

lemma ring_read_eq [simp]: "ring_ok dq \<Longrightarrow> ring_read i dq = Inr (slot dq i)"
  by (simp add: ring_read_def ring_ok_def)

lemma ring_write_eq [simp]:
  "ring_ok dq \<Longrightarrow> ring_write b e dq = Inr (dq\<lparr>dq_buf := (dq_buf dq)[b mod dq_capacity dq := e]\<rparr>)"
  by (simp add: ring_write_def ring_ok_def)

lemma slot_written:
  assumes "ring_ok dq" "i \<noteq> b \<Longrightarrow> i < b \<and> b < i + dq_capacity dq"
  shows "(dq_buf dq)[b mod dq_capacity dq := e] ! (i mod dq_capacity dq) = (if i = b then e else slot dq i)"
proof (cases "i = b")
  case False
  then show ?thesis using ring_distinct [of i b "dq_capacity dq"] assms by (simp add: nth_list_update)
next
  case True
  with assms show ?thesis by (simp add: ring_ok_def)
qed

lemma copy_ring_ok:
  assumes "length old = cap" "0 < cap" "length new = ncap" "0 < ncap" "b \<le> t + ncap" "t \<le> i"
    and "\<forall>j \<in> {t..<i}. new ! (j mod ncap) = old ! (j mod cap)" "i \<le> b"
  shows "\<exists>new'. copy_ring i b cap old ncap new = Inr new' \<and> length new' = ncap
           \<and> (\<forall>j \<in> {t..<b}. new' ! (j mod ncap) = old ! (j mod cap))"
  using assms
proof (induction i b cap old ncap new rule: copy_ring.induct)
  case (1 i b cap old ncap new)
  show ?case
  proof (cases "i < b")
    case True
    let ?new = "new[i mod ncap := old ! (i mod cap)]"
    have old: "\<forall>j \<in> {t..<Suc i}. ?new ! (j mod ncap) = old ! (j mod cap)"
    proof
      fix j assume j: "j \<in> {t..<Suc i}"
      show "?new ! (j mod ncap) = old ! (j mod cap)"
        using ring_distinct [of j i ncap] "1.prems" j True by (cases "j = i") (auto simp: nth_list_update)
    qed
    have idx: "i mod cap < length old" "i mod ncap < length new" using "1.prems"(1-4) by simp_all
    show ?thesis using idx "1.IH" [OF True] "1.prems" old True by (subst copy_ring.simps) simp
  next
    case False
    with 1 show ?thesis by (subst copy_ring.simps) auto
  qed
qed

lemma ring_grow_ok:
  assumes "ring_ok dq" "dq_capacity dq \<le> 2 ^ 59" "t \<le> b" "b \<le> t + dq_capacity dq"
  obtains new where "ring_grow t b dq = Inr (dq\<lparr>dq_buf := new, dq_capacity := 2 * dq_capacity dq\<rparr>)"
    and "length new = 2 * dq_capacity dq"
    and "\<And>j. \<lbrakk>t \<le> j; j < b\<rbrakk> \<Longrightarrow> new ! (j mod (2 * dq_capacity dq)) = slot dq j"
proof -
  have eq: "size_mul (dq_capacity dq) 2 = 2 * dq_capacity dq"
    "length (ring_alloc (2 * dq_capacity dq)) = 2 * dq_capacity dq"
    using assms(2) by (simp_all add: size_mul_def ring_alloc_def slots_eq)
  from copy_ring_ok [of "dq_buf dq" "dq_capacity dq" "ring_alloc (2 * dq_capacity dq)"
      "2 * dq_capacity dq" b t t] assms eq
  obtain new where "copy_ring t b (dq_capacity dq) (dq_buf dq) (2 * dq_capacity dq)
      (ring_alloc (2 * dq_capacity dq)) = Inr new" "length new = 2 * dq_capacity dq"
    "\<forall>j \<in> {t..<b}. new ! (j mod (2 * dq_capacity dq)) = slot dq j"
    by (auto simp: ring_ok_def)
  then show thesis by (intro that [of new]) (auto simp: ring_grow_def eq)
qed

section \<open>Uncontended, the deque is a list\<close>

datatype dq_op = DqPush ptr | DqPop | DqSteal

fun dq_spec :: "dq_op \<Rightarrow> ptr list \<Rightarrow> (ptr \<times> ptr list) option" where
  "dq_spec (DqPush e) xs = Some (NULL, xs @ [e])"
| "dq_spec DqPop xs = Some (if xs = [] then (NULL, []) else (last xs, butlast xs))"
| "dq_spec DqSteal xs = Some (if xs = [] then (NULL, []) else (hd xs, tl xs))"

fun dq_exec :: "dq_op \<Rightarrow> goc_wsdq \<Rightarrow> (ptr \<times> goc_wsdq) out" where
  "dq_exec (DqPush e) dq = Some (rbind (wsdq_push_bottom e dq) (\<lambda>dq1. Inr (NULL, dq1)))"
| "dq_exec DqPop dq = Some (wsdq_pop_bottom dq)"
| "dq_exec DqSteal dq = Some (wsdq_steal_top dq)"

definition dq_rel :: "nat \<Rightarrow> goc_wsdq \<Rightarrow> ptr list \<Rightarrow> bool" where
  "dq_rel n dq xs \<longleftrightarrow> ring_ok dq \<and> dq_top dq \<le> dq_bottom dq
     \<and> dq_bottom dq \<le> dq_top dq + dq_capacity dq \<and> dq_bottom dq + n \<le> 2 ^ 59
     \<and> xs = segment (dq_top dq) (dq_bottom dq) dq"

lemma segment_snoc: "t \<le> b \<Longrightarrow> segment t (Suc b) dq = segment t b dq @ [slot dq b]"
  by (simp add: segment_def)

lemma segment_cons: "t < b \<Longrightarrow> segment t b dq = slot dq t # segment (Suc t) b dq"
  by (simp add: segment_def upt_rec)

lemma segment_Nil [simp]: "b \<le> t \<Longrightarrow> segment t b dq = []"
  by (simp add: segment_def)

lemma segment_cong:
  "(\<And>i. \<lbrakk>t \<le> i; i < b\<rbrakk> \<Longrightarrow> slot dq i = slot dq' i) \<Longrightarrow> segment t b dq = segment t b dq'"
  by (simp add: segment_def)

lemma push_rel:
  assumes "dq_rel (Suc n) dq xs"
  shows "\<exists>dq'. wsdq_push_bottom e dq = Inr dq' \<and> dq_rel n dq' (xs @ [e])"
proof -
  let ?t = "dq_top dq" and ?b = "dq_bottom dq"
  have rel: "ring_ok dq" "?t \<le> ?b" "?b \<le> ?t + dq_capacity dq" "Suc ?b + n \<le> 2 ^ 59"
    "xs = segment ?t ?b dq" and b: "push_bottom dq = ?b"
    using assms by (auto simp: dq_rel_def push_bottom_def)
  obtain dq1 where dq1: "(if dq_capacity dq \<le> ?b - ?t then ring_grow ?t ?b dq else Inr dq) = Inr dq1"
    "ring_ok dq1" "dq_top dq1 = ?t" "?b < ?t + dq_capacity dq1" "segment ?t ?b dq1 = xs"
  proof (cases "dq_capacity dq \<le> ?b - ?t")
    case True
    with rel have cap: "dq_capacity dq \<le> 2 ^ 59" by simp
    obtain new where new: "ring_grow ?t ?b dq = Inr (dq\<lparr>dq_buf := new, dq_capacity := 2 * dq_capacity dq\<rparr>)"
      "length new = 2 * dq_capacity dq"
      "\<And>j. \<lbrakk>?t \<le> j; j < ?b\<rbrakk> \<Longrightarrow> new ! (j mod (2 * dq_capacity dq)) = slot dq j"
      using ring_grow_ok [OF rel(1) cap rel(2,3)] by blast
    let ?dq = "dq\<lparr>dq_buf := new, dq_capacity := 2 * dq_capacity dq\<rparr>"
    have "segment ?t ?b ?dq = xs" unfolding rel(5) by (rule segment_cong) (simp add: new(3))
    with True new(1,2) cap rel show thesis by (intro that [of ?dq]) (auto simp: ring_ok_def)
  next
    case False
    with rel show thesis by (intro that [of dq]) auto
  qed
  let ?dq = "dq1\<lparr>dq_buf := (dq_buf dq1)[?b mod dq_capacity dq1 := e], dq_bottom := Suc ?b\<rparr>"
  have "slot ?dq i = (if i = ?b then e else slot dq1 i)" if "?t \<le> i" "i < Suc ?b" for i
    using slot_written [of dq1 i ?b e] dq1(2,4) that by simp
  then have "segment ?t (Suc ?b) ?dq = xs @ [e]"
    using segment_cong [of ?t ?b ?dq dq1] dq1(5) rel(2) by (simp add: segment_snoc)
  moreover have "wsdq_push_bottom e dq = Inr ?dq"
    using dq1 rel by (simp add: wsdq_push_bottom_def b size_add_eq Let_def)
  ultimately show ?thesis using dq1 rel by (auto simp: dq_rel_def ring_ok_def)
qed

lemma dq_mono: "\<lbrakk>dq_rel n dq xs; m \<le> n\<rbrakk> \<Longrightarrow> dq_rel m dq xs"
  by (auto simp: dq_rel_def)

lemma pop_rel:
  assumes "dq_rel n dq xs"
  shows "\<exists>dq'. wsdq_pop_bottom dq = Inr (if xs = [] then NULL else last xs, dq')
           \<and> dq_rel n dq' (butlast xs)"
proof -
  let ?t = "dq_top dq" and ?b = "dq_bottom dq"
  have rel: "ring_ok dq" "?t \<le> ?b" "?b \<le> ?t + dq_capacity dq" "?b + n \<le> 2 ^ 59"
    "xs = segment ?t ?b dq" using assms by (auto simp: dq_rel_def)
  consider (empty) "?b = ?t" | (one) b where "?b = Suc b" "?t = b" | (more) b where "?b = Suc b" "?t < b"
    using rel(2) by (cases "dq_bottom dq") (auto simp: le_less less_Suc_eq)
  then show ?thesis
  proof cases
    case empty
    with rel show ?thesis by (simp add: wsdq_pop_bottom_def dq_rel_def ring_ok_def)
  next
    case (one b)
    with rel have "wsdq_pop_bottom dq = Inr (slot dq b, dq\<lparr>dq_bottom := Suc b, dq_top := Suc b\<rparr>)"
      by (simp add: wsdq_pop_bottom_def ring_read_def ring_ok_def size_add_eq)
    with one rel show ?thesis by (auto simp: segment_snoc dq_rel_def ring_ok_def)
  next
    case (more b)
    with rel have "wsdq_pop_bottom dq = Inr (slot dq b, dq\<lparr>dq_bottom := b\<rparr>)"
      by (simp add: wsdq_pop_bottom_def ring_read_def ring_ok_def size_sub_eq)
    moreover have "segment ?t b (dq\<lparr>dq_bottom := b\<rparr>) = segment ?t b dq" by (rule segment_cong) simp
    ultimately show ?thesis using more rel by (auto simp: segment_snoc dq_rel_def ring_ok_def)
  qed
qed

lemma steal_rel:
  assumes "dq_rel n dq xs"
  shows "\<exists>dq'. wsdq_steal_top dq = Inr (if xs = [] then NULL else hd xs, dq') \<and> dq_rel n dq' (tl xs)"
proof -
  let ?t = "dq_top dq" and ?b = "dq_bottom dq"
  have rel: "ring_ok dq" "?t \<le> ?b" "?b \<le> ?t + dq_capacity dq" "?b + n \<le> 2 ^ 59"
    "xs = segment ?t ?b dq" using assms by (auto simp: dq_rel_def)
  show ?thesis
  proof (cases "?t < ?b")
    case True
    have "segment (Suc ?t) ?b (dq\<lparr>dq_top := Suc ?t\<rparr>) = segment (Suc ?t) ?b dq" by (rule segment_cong) simp
    moreover have "wsdq_steal_top dq = Inr (slot dq ?t, dq\<lparr>dq_top := Suc ?t\<rparr>)"
      using True rel by (simp add: wsdq_steal_top_def Let_def size_add_eq)
    ultimately show ?thesis using True rel by (auto simp: segment_cons dq_rel_def ring_ok_def)
  next
    case False
    with rel show ?thesis by (simp add: wsdq_steal_top_def dq_rel_def)
  qed
qed

interpretation deque: op_simulation dq_rel dq_exec dq_spec "\<lambda>_. True"
proof unfold_locales
  fix c n s x v y
  assume "dq_rel (Suc n) s x" "dq_spec c x = Some (v, y)"
  then show "\<exists>s'. dq_exec c s = Some (Inr (v, s')) \<and> dq_rel n s' y"
  proof (cases c)
    case (DqPush e)
    with push_rel [of n s x e] \<open>dq_rel (Suc n) s x\<close> \<open>dq_spec c x = Some (v, y)\<close> show ?thesis by auto
  next
    case DqPop
    with pop_rel [of n s x] dq_mono [of "Suc n" s x n] \<open>dq_rel (Suc n) s x\<close> \<open>dq_spec c x = Some (v, y)\<close> show ?thesis
      by (auto split: if_splits)
  next
    case DqSteal
    with steal_rel [of n s x] dq_mono [of "Suc n" s x n] \<open>dq_rel (Suc n) s x\<close> \<open>dq_spec c x = Some (v, y)\<close> show ?thesis
      by (auto split: if_splits)
  qed
next
  fix c n s x assume "dq_spec c x = None"
  then show "\<exists>msg. dq_exec c s = Some (Inl (Abort msg))" by (cases c) auto
qed

lemma init_rel:
  assumes "wsdq_init cap = Inr dq" "cap \<le> 2 ^ 60" "n \<le> 2 ^ 59"
  shows "dq_rel n dq []"
  using assms by (auto simp: wsdq_init_def dq_rel_def ring_ok_def ring_alloc_def slots_eq split: if_splits)

section \<open>Contended, nothing is lost or handed out twice\<close>

text \<open>Where the deque ends for the purpose of counting its entries: a pop has not yet taken effect.\<close>

definition logical_bottom :: "wsdq_sys \<Rightarrow> nat" where
  "logical_bottom s =
     (case owner s of OPop b \<Rightarrow> b | OCas t e \<Rightarrow> Suc t | ORestore b \<Rightarrow> b | _ \<Rightarrow> dq_bottom s)"

definition content :: "wsdq_sys \<Rightarrow> ptr list" where
  "content s = segment (dq_top s) (logical_bottom s) s"

fun owner_ok :: "owner_pc \<Rightarrow> wsdq_sys \<Rightarrow> bool" where
  "owner_ok OIdle s = True"
| "owner_ok (OPush e b t) s = (b = dq_bottom s \<and> t \<le> dq_top s \<and> b \<le> t + dq_capacity s)"
| "owner_ok (OSlot e b) s = (b = dq_bottom s \<and> b < dq_top s + dq_capacity s \<and> slot s b = e)"
| "owner_ok (OPop b) s = (b = Suc (dq_bottom s))"
| "owner_ok (OCas t e) s = (t = dq_bottom s \<and> t \<le> dq_top s \<and> slot s t = e)"
| "owner_ok (ORestore b) s = (b = dq_top s \<and> dq_bottom s \<le> b)"

fun thief_ok :: "thief_pc \<Rightarrow> wsdq_sys \<Rightarrow> bool" where
  "thief_ok TIdle s = True"
| "thief_ok (TTop t) s = (t \<le> dq_top s)"
| "thief_ok (TGo t) s = (t \<le> dq_top s \<and> (dq_top s = t \<longrightarrow> t < logical_bottom s))"
| "thief_ok (TRead t e) s = (t \<le> dq_top s \<and> (dq_top s = t \<longrightarrow> t < logical_bottom s \<and> slot s t = e))"

definition sys_ok :: "wsdq_sys \<Rightarrow> bool" where
  "sys_ok s \<longleftrightarrow> ring_ok s \<and> dq_top s \<le> logical_bottom s
     \<and> logical_bottom s \<le> dq_top s + dq_capacity s \<and> logical_bottom s \<le> length (pushed s)
     \<and> owner_ok (owner s) s \<and> thief_ok (thief s) s
     \<and> mset (pushed s) = mset (taken s) + mset (content s)"

text \<open>An entry has been published: the bottom never returns to 0 between operations.\<close>

definition warm :: "wsdq_sys \<Rightarrow> bool" where
  "warm s \<longleftrightarrow> 0 < logical_bottom s"

lemma content_cong:
  "\<lbrakk>dq_top s' = dq_top s; logical_bottom s' = logical_bottom s;
    \<And>i. \<lbrakk>dq_top s \<le> i; i < logical_bottom s\<rbrakk> \<Longrightarrow> slot s' i = slot s i\<rbrakk> \<Longrightarrow> content s' = content s"
  by (simp add: content_def segment_def)

lemmas sys_defs = sys_ok_def ring_ok_def warm_def logical_bottom_def content_def segment_def

lemma size_small: "n < 2 ^ 59 \<Longrightarrow> size_add n (Suc 0) = Suc n"
  by (simp add: size_add_def)

definition keeps :: "wsdq_sys \<Rightarrow> wsdq_sys res \<Rightarrow> bool" where
  "keeps s r \<longleftrightarrow> (\<exists>s'. r = Inr s' \<and> sys_ok s' \<and> pushed s' = pushed s \<and> (warm s \<longrightarrow> warm s'))"

lemma steal_cas_ok:
  assumes "sys_ok s" "thief s = TRead t e" "dq_top s = t" "length (pushed s) < 2 ^ 59"
  shows "keeps s (Inr (s\<lparr>dq_top := Suc t, thief := TIdle, taken := taken s @ [e]\<rparr>))"
proof -
  have "t < logical_bottom s" "slot s t = e" using assms by (auto simp: sys_ok_def)
  then have "content s = e # content (s\<lparr>dq_top := Suc t, thief := TIdle, taken := taken s @ [e]\<rparr>)"
    using assms(3) by (simp add: content_def segment_def logical_bottom_def upt_rec [of t] split: owner_pc.splits)
  then show ?thesis using assms(1,3) \<open>t < logical_bottom s\<close>
    by (auto simp: keeps_def sys_ok_def ring_ok_def warm_def logical_bottom_def split: owner_pc.splits)
qed

lemma thief_moves_ok:
  assumes "sys_ok s" "thief_ok p s"
  shows "keeps s (Inr (s\<lparr>thief := p\<rparr>))"
proof -
  have eq: "logical_bottom (s\<lparr>thief := p\<rparr>) = logical_bottom s" "content (s\<lparr>thief := p\<rparr>) = content s"
    by (simp_all add: content_def segment_def logical_bottom_def split: owner_pc.split)
  have "owner_ok (owner s) (s\<lparr>thief := p\<rparr>) = owner_ok (owner s) s" by (cases "owner s") simp_all
  moreover have "thief_ok p (s\<lparr>thief := p\<rparr>) = thief_ok p s" using eq(1) by (cases p) simp_all
  ultimately show ?thesis using assms eq by (simp add: keeps_def sys_ok_def ring_ok_def warm_def)
qed

lemma thief_act_ok:
  assumes "sys_ok s" "thief_act a s = Some r" "length (pushed s) < 2 ^ 59"
  shows "keeps s r"
proof (cases a)
  case StealTop
  with assms show ?thesis by (auto intro: thief_moves_ok split: if_splits)
next
  case StealBottom
  then obtain t where t: "thief s = TTop t" using assms(2) by (auto split: thief_pc.splits)
  have "dq_bottom s \<le> max (dq_top s) (logical_bottom s)"
    using assms(1) by (cases "owner s") (auto simp: sys_ok_def logical_bottom_def)
  then have "thief_ok (if dq_bottom s \<le> t then TIdle else TGo t) s"
    using assms(1) t by (auto simp: sys_ok_def)
  with StealBottom assms(1,2) t show ?thesis by (auto intro: thief_moves_ok)
next
  case StealRead
  then obtain t where t: "thief s = TGo t" using assms(2) by (auto split: thief_pc.splits)
  have "thief_ok (TRead t (slot s t)) s" "ring_ok s" using assms(1) t by (auto simp: sys_ok_def)
  with StealRead assms(1,2) t show ?thesis by (auto intro: thief_moves_ok)
next
  case StealCas
  then obtain t e where t: "thief s = TRead t e" using assms(2) by (auto split: thief_pc.splits)
  show ?thesis
  proof (cases "dq_top s = t")
    case True
    have "t < 2 ^ 59" using assms(1,3) t True by (auto simp: sys_ok_def)
    with StealCas steal_cas_ok [OF assms(1) t True assms(3)] assms(2) t True show ?thesis
      by (auto simp: size_small)
  next
    case False
    with StealCas assms(1,2) t show ?thesis by (auto intro: thief_moves_ok)
  qed
qed (use assms(2) in simp_all)

lemma push_load_ok:
  assumes "sys_ok s" "owner s = OIdle"
  shows "keeps s (Inr (s\<lparr>owner := OPush e (push_bottom s) (dq_top s)\<rparr>))"
proof -
  have "thief_ok (thief s) (s\<lparr>owner := OPush e (push_bottom s) (dq_top s)\<rparr>)"
    using assms by (cases "thief s") (auto simp: sys_defs)
  then show ?thesis using assms by (auto simp: keeps_def sys_defs push_bottom_def)
qed

lemma push_grow_ok:
  assumes "sys_ok s" "owner s = OPush e b t" "dq_capacity s \<le> b - t" "thief s = TIdle"
    and "length (pushed s) < 2 ^ 59"
  shows "keeps s (ring_grow t b s)"
proof -
  have ok: "ring_ok s" "b = dq_bottom s" "t \<le> dq_top s" "b \<le> t + dq_capacity s" "dq_top s \<le> b"
    "b \<le> length (pushed s)"
    using assms by (auto simp: sys_ok_def logical_bottom_def)
  have cap: "dq_capacity s \<le> 2 ^ 59" using assms(3,5) ok(6) by simp
  obtain new where new: "ring_grow t b s = Inr (s\<lparr>dq_buf := new, dq_capacity := 2 * dq_capacity s\<rparr>)"
    "length new = 2 * dq_capacity s"
    "\<And>j. \<lbrakk>t \<le> j; j < b\<rbrakk> \<Longrightarrow> new ! (j mod (2 * dq_capacity s)) = slot s j"
    using ring_grow_ok [OF ok(1) cap le_trans [OF ok(3,5)] ok(4)] by blast
  have "content (s\<lparr>dq_buf := new, dq_capacity := 2 * dq_capacity s\<rparr>) = content s"
    using ok new(3) assms(2) by (intro content_cong) (auto simp: logical_bottom_def)
  then show ?thesis using assms ok new(1,2)
    by (auto simp: keeps_def sys_ok_def ring_ok_def warm_def logical_bottom_def)
qed

lemma push_write_ok:
  assumes "sys_ok s" "owner s = OPush e b t" "b - t < dq_capacity s"
  shows "keeps s (Inr (s\<lparr>dq_buf := (dq_buf s)[b mod dq_capacity s := e], owner := OSlot e b\<rparr>))"
    (is "keeps s (Inr ?s)")
proof -
  have ok: "ring_ok s" "b = dq_bottom s" "t \<le> dq_top s" "dq_top s \<le> b" "b < dq_top s + dq_capacity s"
    using assms by (auto simp: sys_ok_def logical_bottom_def)
  have sl: "slot ?s i = (if i = b then e else slot s i)" if "dq_top s \<le> i" "i \<le> b" for i
    using slot_written [OF ok(1), of i b e] ok that by simp
  have "content ?s = content s"
    using ok sl assms(2) by (intro content_cong) (auto simp: logical_bottom_def)
  moreover have "thief_ok (thief s) ?s"
    using assms(1,2) ok sl by (cases "thief s") (auto simp: sys_ok_def logical_bottom_def)
  ultimately show ?thesis using assms(1,2) ok sl [of b]
    by (auto simp: keeps_def sys_ok_def ring_ok_def warm_def logical_bottom_def)
qed

lemma push_store_ok:
  assumes "sys_ok s" "owner s = OSlot e b" "length (pushed s) < 2 ^ 59"
  shows "sys_ok (s\<lparr>dq_bottom := Suc b, owner := OIdle, pushed := pushed s @ [e]\<rparr>)" (is "sys_ok ?s")
proof -
  have ok: "b = dq_bottom s" "b < dq_top s + dq_capacity s" "slot s b = e" "dq_top s \<le> b"
    using assms by (auto simp: sys_ok_def logical_bottom_def)
  have "content ?s = content s @ [e]"
    using ok assms(2) by (simp add: content_def segment_def logical_bottom_def)
  moreover have "thief_ok (thief s) ?s"
    using assms(1,2) ok by (cases "thief s") (auto simp: sys_ok_def logical_bottom_def)
  ultimately show ?thesis using assms(1,2) ok
    by (auto simp: sys_ok_def ring_ok_def logical_bottom_def)
qed

lemma pop_dec_ok:
  assumes "sys_ok s" "warm s" "owner s = OIdle" "length (pushed s) < 2 ^ 59"
  shows "keeps s (Inr (s\<lparr>dq_bottom := size_sub (dq_bottom s) 1, owner := OPop (dq_bottom s)\<rparr>))"
    (is "keeps s (Inr ?s)")
proof -
  have b: "0 < dq_bottom s" "dq_bottom s < 2 ^ 59"
    using assms by (auto simp: sys_ok_def warm_def logical_bottom_def)
  then have "content ?s = content s" "logical_bottom ?s = logical_bottom s"
    using assms(3) by (simp_all add: content_def segment_def logical_bottom_def)
  moreover have "thief_ok (thief s) ?s"
    using assms(1,3) b by (cases "thief s") (auto simp: sys_ok_def logical_bottom_def)
  ultimately show ?thesis using assms(1,3) b
    by (auto simp: keeps_def sys_ok_def ring_ok_def warm_def size_sub_eq)
qed

lemma pop_load_ok:
  assumes "sys_ok s" "owner s = OPop ob" "owner_act PopLoad s = Some r"
  shows "keeps s r"
proof -
  have ok: "ring_ok s" "ob = Suc (dq_bottom s)" "dq_top s \<le> ob" "logical_bottom s = ob"
    using assms by (auto simp: sys_ok_def logical_bottom_def)
  consider "ob = dq_top s" | "dq_bottom s = dq_top s" | "dq_top s < dq_bottom s" using ok by linarith
  then show ?thesis
  proof cases
    case 1
    then have r: "r = Inr (s\<lparr>owner := ORestore ob\<rparr>)" using assms by simp
    have "thief_ok (thief s) (s\<lparr>owner := ORestore ob\<rparr>)"
      using assms(1,2) by (cases "thief s") (auto simp: sys_ok_def logical_bottom_def)
    then show ?thesis using assms(1,2) ok 1 unfolding r
      by (auto simp: keeps_def sys_defs)
  next
    case 2
    then have r: "r = Inr (s\<lparr>owner := OCas (dq_top s) (slot s (dq_top s))\<rparr>)"
      using assms(2,3) ok(1,2) by (simp add: Let_def)
    have "thief_ok (thief s) (s\<lparr>owner := OCas (dq_top s) (slot s (dq_top s))\<rparr>)"
      using assms(1,2) ok 2 by (cases "thief s") (auto simp: sys_ok_def logical_bottom_def)
    then show ?thesis using assms(1,2) ok 2 unfolding r
      by (auto simp: keeps_def sys_defs)
  next
    case 3
    let ?e = "slot s (dq_bottom s)"
    have r: "r = Inr (s\<lparr>owner := OIdle, taken := taken s @ [?e]\<rparr>)" using assms(2,3) ok(1,2) 3 by simp
    have "thief_ok (thief s) (s\<lparr>owner := OIdle, taken := taken s @ [?e]\<rparr>)"
      using assms(1,2) 3 by (cases "thief s") (auto simp: sys_ok_def logical_bottom_def)
    moreover have "content s = content (s\<lparr>owner := OIdle, taken := taken s @ [?e]\<rparr>) @ [?e]"
      using ok 3 by (simp add: content_def segment_def logical_bottom_def)
    ultimately show ?thesis using assms(1,2) ok 3 unfolding r
      by (auto simp: keeps_def sys_ok_def ring_ok_def warm_def logical_bottom_def)
  qed
qed

lemma pop_cas_ok:
  assumes "sys_ok s" "owner s = OCas t e" "length (pushed s) < 2 ^ 59" "owner_act PopCas s = Some r"
  shows "keeps s r"
proof -
  have ok: "t = dq_bottom s" "t \<le> dq_top s" "dq_top s \<le> Suc t" "slot s t = e" "t < 2 ^ 59"
    using assms by (auto simp: sys_ok_def logical_bottom_def)
  show ?thesis
  proof (cases "dq_top s = t")
    case True
    let ?s = "s\<lparr>dq_top := Suc t, owner := ORestore (Suc t), taken := taken s @ [e]\<rparr>"
    have r: "r = Inr ?s" using assms(2,4) True ok(5) by (simp add: size_small)
    have "thief_ok (thief s) ?s" using assms(1,2) True
      by (cases "thief s") (auto simp: sys_ok_def)
    moreover have "content s = [e]" "content ?s = []"
      using True assms(2) ok(4) by (simp_all add: content_def segment_def logical_bottom_def)
    ultimately show ?thesis using assms(1,2) ok True unfolding r
      by (auto simp: keeps_def sys_ok_def ring_ok_def warm_def logical_bottom_def)
  next
    case False
    with ok have top: "dq_top s = Suc t" by simp
    have r: "r = Inr (s\<lparr>owner := ORestore (Suc t)\<rparr>)" using assms(2,4) False ok(5) by (simp add: size_small)
    have "thief_ok (thief s) (s\<lparr>owner := ORestore (Suc t)\<rparr>)" using assms(1,2) top
      by (cases "thief s") (auto simp: sys_ok_def logical_bottom_def)
    then show ?thesis using assms(1,2) ok top unfolding r
      by (auto simp: keeps_def sys_defs)
  qed
qed

lemma pop_restore_ok:
  assumes "sys_ok s" "owner s = ORestore b"
  shows "keeps s (Inr (s\<lparr>dq_bottom := b, owner := OIdle\<rparr>))"
proof -
  have "thief_ok (thief s) (s\<lparr>dq_bottom := b, owner := OIdle\<rparr>)" using assms
    by (cases "thief s") (auto simp: sys_ok_def logical_bottom_def)
  then show ?thesis using assms by (auto simp: keeps_def sys_defs)
qed

lemma owner_act_ok:
  assumes "sys_ok s" "owner_act a s = Some r" "length (pushed s) < 2 ^ 59" "a = PopDec \<longrightarrow> warm s"
    and "a \<noteq> PushStore"
  shows "keeps s r"
proof -
  have "ring_ok s" using assms(1) by (simp add: sys_ok_def)
  then show ?thesis using assms pop_dec_ok [of s]
    by (cases a; cases "owner s")
       (auto simp: push_load_ok push_grow_ok push_write_ok pop_restore_ok
             intro: pop_load_ok pop_cas_ok split: if_splits)
qed

text \<open>A schedule with \<open>n\<close> publications left, whose pops come after the first one.\<close>

definition warm_schedule :: "bool \<Rightarrow> wsdq_act list \<Rightarrow> bool" where
  "warm_schedule w as \<longleftrightarrow> w \<or> PopDec \<notin> set (takeWhile (\<lambda>a. a \<noteq> PushStore) as)"

lemma warm_schedule_Cons:
  "warm_schedule w (a # as) \<Longrightarrow> (a = PopDec \<longrightarrow> w) \<and> warm_schedule (w \<or> a = PushStore) as"
  by (auto simp: warm_schedule_def split: if_splits)

lemma warm_schedule_mono: "\<lbrakk>warm_schedule w as; w \<longrightarrow> v\<rbrakk> \<Longrightarrow> warm_schedule v as"
  by (auto simp: warm_schedule_def)

lemma step_ok:
  assumes "sys_ok s" "wsdq_step a s = Some r" "length (pushed s) < 2 ^ 59" "a = PopDec \<longrightarrow> warm s"
  obtains s' where "r = Inr s'" "sys_ok s'" "warm s \<or> a = PushStore \<longrightarrow> warm s'"
    "length (pushed s') \<le> length (pushed s) + count_list [a] PushStore"
proof (cases "a = PushStore")
  case True
  then obtain e b where o: "owner s = OSlot e b" "r = Inr (s\<lparr>dq_bottom := size_add b 1, owner := OIdle, pushed := pushed s @ [e]\<rparr>)"
    using assms(2) by (auto simp: wsdq_step_def steals_def split: owner_pc.splits)
  have "b < 2 ^ 59" using o(1) assms(1,3) by (auto simp: sys_ok_def logical_bottom_def)
  then have eq: "size_add b 1 = Suc b" by (simp add: size_small)
  show thesis by (rule that [of "s\<lparr>dq_bottom := Suc b, owner := OIdle, pushed := pushed s @ [e]\<rparr>"])
      (use o eq True push_store_ok [OF assms(1) o(1) assms(3)] in \<open>simp_all add: warm_def logical_bottom_def\<close>)
next
  case False
  have "keeps s r" using assms False thief_act_ok [of s a r] owner_act_ok [of s a r]
    by (auto simp: wsdq_step_def split: if_splits)
  with False that show thesis by (auto simp: keeps_def)
qed

lemma schedule_ok:
  assumes "wsdq_run as s = Some r" "sys_ok s" "warm_schedule (warm s) as"
    and "length (pushed s) + count_list as PushStore < 2 ^ 59"
  shows "\<exists>s'. r = Inr s' \<and> sys_ok s' \<and> length (pushed s') \<le> length (pushed s) + count_list as PushStore"
  using assms
proof (induction as arbitrary: s)
  case (Cons a as)
  obtain r1 where r1: "wsdq_step a s = Some r1" using Cons.prems(1) by (cases "wsdq_step a s") auto
  obtain s1 where s1: "r1 = Inr s1" "sys_ok s1" "warm s \<or> a = PushStore \<longrightarrow> warm s1"
    "length (pushed s1) \<le> length (pushed s) + count_list [a] PushStore"
    using step_ok [OF Cons.prems(2) r1] Cons.prems(4) warm_schedule_Cons [OF Cons.prems(3)] by auto
  have "warm_schedule (warm s1) as"
    using warm_schedule_Cons [OF Cons.prems(3)] s1(3) warm_schedule_mono by blast
  with Cons.IH [of s1] Cons.prems s1 r1 show ?case by (auto split: if_splits)
qed auto

lemma quiet_ok:
  assumes "wsdq_init cap = Inr dq" "cap \<le> 2 ^ 60"
  shows "sys_ok (quiet dq)" "pushed (quiet dq) = []" "\<not> warm (quiet dq)"
  using assms
  by (auto simp: wsdq_init_def quiet_def sys_defs ring_alloc_def slots_eq goc_wsdq.defs split: if_splits)

section \<open>An operation is its atomic accesses in order\<close>









section \<open>The injector is a queue\<close>

text \<open>\<open>node_chain m p ns es\<close>: from \<open>p\<close>, the nodes \<open>ns\<close> hold the entries \<open>es\<close>.\<close>

fun node_chain :: "(nat \<rightharpoonup> goc_injector_node) \<Rightarrow> nat option \<Rightarrow> nat list \<Rightarrow> ptr list \<Rightarrow> bool" where
  "node_chain m p [] es = (p = None \<and> es = [])"
| "node_chain m p (n # ns) es =
     (p = Some n \<and> (\<exists>nd es'. m n = Some nd \<and> es = n_entry nd # es' \<and> node_chain m (n_next nd) ns es'))"

definition inj_rel :: "nat \<Rightarrow> goc_injector \<Rightarrow> ptr list \<Rightarrow> bool" where
  "inj_rel k q es \<longleftrightarrow> (\<exists>ns. node_chain (inj_nodes q) (inj_head q) ns es \<and> distinct ns
     \<and> set ns = dom (inj_nodes q) \<and> (\<forall>n \<in> set ns. n < inj_fresh q)
     \<and> inj_tail q = (if ns = [] then None else Some (last ns)))"

lemma node_chain_upd:
  "n \<notin> set ns \<Longrightarrow> node_chain (m(n := v)) p ns es = node_chain m p ns es"
  by (induction ns arbitrary: p es) auto

lemma node_chain_snoc:
  "\<lbrakk>node_chain m p ns es; ns \<noteq> []; distinct ns; n \<notin> set ns; m (last ns) = Some nd\<rbrakk>
   \<Longrightarrow> node_chain (m(n \<mapsto> \<lparr>n_entry = e, n_next = None\<rparr>, last ns \<mapsto> nd\<lparr>n_next := Some n\<rparr>)) p (ns @ [n]) (es @ [e])"
proof (induction ns arbitrary: p es)
  case (Cons a ns)
  show ?case
  proof (cases "ns = []")
    case False
    with Cons.prems have "a \<noteq> last ns" "a \<noteq> n" by auto
    with Cons False show ?thesis by auto
  qed (use Cons.prems in auto)
qed simp

lemma node_chain_length: "node_chain m p ns es \<Longrightarrow> length es = length ns"
  by (induction ns arbitrary: p es) auto

lemma inj_push_rel:
  assumes "inj_rel (Suc k) q es"
  shows "\<exists>q'. injector_push e q = Inr q' \<and> inj_rel k q' (es @ [e])"
proof -
  from assms obtain ns where ns: "node_chain (inj_nodes q) (inj_head q) ns es" "distinct ns"
    "set ns = dom (inj_nodes q)" "\<forall>n \<in> set ns. n < inj_fresh q"
    "inj_tail q = (if ns = [] then None else Some (last ns))" by (auto simp: inj_rel_def)
  let ?n = "inj_fresh q"
  have fresh: "?n \<notin> set ns" using ns(4) by auto
  show ?thesis
  proof (cases "ns = []")
    case True
    with ns show ?thesis
      by (auto simp: injector_push_def Let_def inj_rel_def intro!: exI [of _ "[?n]"])
  next
    case False
    then obtain nd where nd: "inj_nodes q (last ns) = Some nd" using ns(3) last_in_set by blast
    have ne: "last ns \<noteq> ?n" using False fresh last_in_set by metis
    let ?q = "q\<lparr>inj_nodes := (inj_nodes q)(?n \<mapsto> \<lparr>n_entry = e, n_next = None\<rparr>, last ns \<mapsto> nd\<lparr>n_next := Some ?n\<rparr>),
                inj_fresh := Suc ?n, inj_tail := Some ?n\<rparr>"
    have "injector_push e q = Inr ?q"
      using False nd ne ns(5) by (simp add: injector_push_def Let_def node_at_def)
    moreover have "inj_rel k ?q (es @ [e])"
      unfolding inj_rel_def using node_chain_snoc [OF ns(1) False ns(2) fresh nd] ns(2-4) fresh False
      by (intro exI [of _ "ns @ [?n]"]) (auto simp: less_Suc_eq)
    ultimately show ?thesis by blast
  qed
qed

lemma inj_pop_rel:
  assumes "inj_rel (Suc k) q es"
  shows "\<exists>q'. injector_pop q = Inr (if es = [] then NULL else hd es, q') \<and> inj_rel k q' (tl es)"
proof -
  from assms obtain ns where ns: "node_chain (inj_nodes q) (inj_head q) ns es" "distinct ns"
    "set ns = dom (inj_nodes q)" "\<forall>n \<in> set ns. n < inj_fresh q"
    "inj_tail q = (if ns = [] then None else Some (last ns))" by (auto simp: inj_rel_def)
  show ?thesis
  proof (cases ns)
    case Nil
    with assms ns(1) show ?thesis by (auto simp: injector_pop_def inj_rel_def)
  next
    case (Cons n ms)
    with ns(1) obtain nd es' where nd: "inj_head q = Some n" "inj_nodes q n = Some nd" "es = n_entry nd # es'"
      "node_chain (inj_nodes q) (n_next nd) ms es'" by auto
    have nx: "n_next nd = None \<longleftrightarrow> ms = []" using nd(4) by (cases ms) auto
    have "node_chain ((inj_nodes q)(n := None)) (n_next nd) ms es'"
      using nd(4) ns(2) Cons by (simp add: node_chain_upd)
    then show ?thesis using nd nx ns(2-5) Cons
      by (auto simp: injector_pop_def node_at_def Let_def inj_rel_def intro!: exI [of _ ms])
  qed
qed

lemma free_nodes_ok:
  "\<lbrakk>node_chain (inj_nodes q) p ns es; distinct ns\<rbrakk>
   \<Longrightarrow> free_nodes p q = Some (Inr (q\<lparr>inj_nodes := (inj_nodes q) |` (- set ns)\<rparr>))"
proof (induction ns arbitrary: p q es)
  case Nil
  then show ?case by (subst free_nodes.simps) (simp add: restrict_map_def)
next
  case (Cons n ns)
  then obtain nd es' where nd: "p = Some n" "inj_nodes q n = Some nd"
    "node_chain (inj_nodes q) (n_next nd) ns es'" by auto
  let ?q = "q\<lparr>inj_nodes := (inj_nodes q)(n := None)\<rparr>"
  have eq: "((inj_nodes q)(n := None)) |` (- set ns) = (inj_nodes q) |` (- set (n # ns))"
    by (auto simp: restrict_map_def)
  have chain: "node_chain (inj_nodes ?q) (n_next nd) ns es'" "distinct ns"
    using nd(3) Cons.prems(2) by (simp_all add: node_chain_upd)
  have "free_nodes p q = free_nodes (n_next nd) ?q"
    using nd(1,2) by (subst free_nodes.simps) (simp add: node_at_def)
  also have "\<dots> = Some (Inr (?q\<lparr>inj_nodes := (inj_nodes ?q) |` (- set ns)\<rparr>))"
    using chain by (rule Cons.IH)
  also have "?q\<lparr>inj_nodes := (inj_nodes ?q) |` (- set ns)\<rparr> = q\<lparr>inj_nodes := (inj_nodes q) |` (- set (n # ns))\<rparr>"
    unfolding eq [symmetric] by simp
  finally show ?case .
qed

lemma inj_destroy_ok:
  assumes "inj_rel k q es"
  shows "\<exists>q'. injector_destroy q = Some (Inr q') \<and> inj_nodes q' = Map.empty \<and> inj_head q' = None"
  using assms free_nodes_ok [of q "inj_head q"]
  by (fastforce simp: inj_rel_def injector_destroy_def restrict_map_def dom_def)

datatype inj_op = InjPush ptr | InjPop

fun inj_spec :: "inj_op \<Rightarrow> ptr list \<Rightarrow> (ptr \<times> ptr list) option" where
  "inj_spec (InjPush e) es = Some (NULL, es @ [e])"
| "inj_spec InjPop es = Some (if es = [] then (NULL, []) else (hd es, tl es))"

fun inj_exec :: "inj_op \<Rightarrow> goc_injector \<Rightarrow> (ptr \<times> goc_injector) out" where
  "inj_exec (InjPush e) q = Some (rbind (injector_push e q) (\<lambda>q1. Inr (NULL, q1)))"
| "inj_exec InjPop q = Some (injector_pop q)"

interpretation injector: op_simulation inj_rel inj_exec inj_spec "\<lambda>_. True"
proof unfold_locales
  fix c n s x v y
  assume *: "inj_rel (Suc n) s x" "inj_spec c x = Some (v, y)"
  then show "\<exists>s'. inj_exec c s = Some (Inr (v, s')) \<and> inj_rel n s' y"
  proof (cases c)
    case (InjPush e)
    with inj_push_rel [of n s x e] * show ?thesis by auto
  next
    case InjPop
    with inj_pop_rel [of n s x] * show ?thesis by (auto split: if_splits)
  qed
next
  fix c n s x assume "inj_spec c x = None"
  then show "\<exists>msg. inj_exec c s = Some (Inl (Abort msg))" by (cases c) auto
qed

lemma injector_init_rel: "inj_rel k injector_init []"
  by (simp add: inj_rel_def injector_init_def)

section \<open>Properties\<close>

text \<open>
  C26: Without contention the deque is a list: a push appends, the worker's pop takes the newest
  entry, a thief takes the oldest, both answer NULL on an empty deque, the ring buffer grows
  without disturbing the entries, and the size reported is the length.
\<close>

theorem deque_refines:
  assumes "wsdq_init cap = Inr dq" "cap \<le> 2 ^ 60" "length cs \<le> 2 ^ 59"
    and "spec_run dq_spec cs [] = Some (vs, xs)"
  shows "\<exists>dq'. impl_run dq_exec cs dq = Some (Inr (vs, dq'))
           \<and> segment (dq_top dq') (dq_bottom dq') dq' = xs \<and> wsdq_approx_size dq' = length xs"
proof -
  have "dq_rel (length cs + 0) dq []" using init_rel [OF assms(1,2)] assms(3) by simp
  from deque.run_ok [OF _ this assms(4)] obtain dq' where
    "impl_run dq_exec cs dq = Some (Inr (vs, dq'))" "dq_rel 0 dq' xs" by auto
  then show ?thesis by (auto simp: dq_rel_def wsdq_approx_size_def segment_def)
qed

theorem deque_refines_witness:
  "\<exists>dq dq'. wsdq_init 2 = Inr dq \<and> impl_run dq_exec [DqPush 7, DqPush 8, DqPush 9, DqSteal, DqPop] dq
     = Some (Inr ([0, 0, 0, 7, 9], dq')) \<and> segment (dq_top dq') (dq_bottom dq') dq' = [8]"
  using deque_refines [of 2 "\<lparr>dq_bottom = 0, dq_top = 0, dq_buf = ring_alloc 2, dq_capacity = 2\<rparr>"
      "[DqPush 7, DqPush 8, DqPush 9, DqSteal, DqPop]" "[0, 0, 0, 7, 9]" "[8]"]
  by (auto simp: wsdq_init_def)

text \<open>
  C4: Exactly once: under every interleaving of the worker's pushes and pops with the thieves, in
  which the first pop follows the first push, no buffer access is out of range and what was
  pushed is, as a multiset, what was handed out and what is still queued.
\<close>

theorem wsdq_exactly_once:
  assumes "wsdq_init cap = Inr dq" "cap \<le> 2 ^ 60" "count_list as PushStore < 2 ^ 59"
    and "PopDec \<notin> set (takeWhile (\<lambda>a. a \<noteq> PushStore) as)"
    and "wsdq_run as (quiet dq) = Some r"
  shows "\<exists>s. r = Inr s \<and> mset (taken s) \<subseteq># mset (pushed s)
           \<and> (owner s = OIdle \<longrightarrow> mset (pushed s) = mset (taken s) + mset (segment (dq_top s) (dq_bottom s) s))"
proof -
  have "warm_schedule (warm (quiet dq)) as" using assms(4) by (simp add: warm_schedule_def)
  then obtain s where "r = Inr s" "sys_ok s"
    using schedule_ok [OF assms(5)] quiet_ok [OF assms(1,2)] assms(3) by auto
  then show ?thesis by (auto simp: sys_ok_def content_def logical_bottom_def)
qed

theorem wsdq_exactly_once_witness:
  "\<exists>dq r. wsdq_init 1 = Inr dq \<and> wsdq_run [PushLoad 7, PushWrite, PushStore, StealTop, StealBottom, PopDec,
      PopLoad, StealRead, StealCas, PopCas, PopRestore] (quiet dq) = Some r
     \<and> (\<exists>s. r = Inr s \<and> mset (taken s) \<subseteq># mset (pushed s))"
proof -
  let ?dq = "\<lparr>dq_bottom = 0, dq_top = 0, dq_buf = ring_alloc 1, dq_capacity = 1\<rparr>"
  let ?as = "[PushLoad 7, PushWrite, PushStore, StealTop, StealBottom, PopDec,
      PopLoad, StealRead, StealCas, PopCas, PopRestore]"
  have i: "wsdq_init 1 = Inr ?dq" by (simp add: wsdq_init_def)
  obtain r where "wsdq_run ?as (quiet ?dq) = Some r"
    by (simp add: wsdq_step_def steals_def quiet_def goc_wsdq.defs ring_alloc_def slots_def size_mul_def
        push_bottom_def ring_write_def ring_read_def size_add_def size_sub_def)
  with i wsdq_exactly_once [OF i _ _ _ this] show ?thesis by fastforce
qed

text \<open>
  A pop before the first push can lose an entry: the decrement takes the bottom from 0 to
  \<open>SIZE_MAX\<close>, a thief that reads it there passes its test, reads the empty slot 0, and its
  exchange on the top succeeds after the worker has restored the bottom and published an entry in
  that slot. The thief has taken \<open>NULL\<close> and the entry is gone.
\<close>

theorem wsdq_early_pop_loses:
  assumes "wsdq_init cap = Inr dq" "cap < 2 ^ 61"
  shows "\<exists>s. wsdq_run [PopDec, StealTop, StealBottom, StealRead, PopLoad, PopRestore,
                       PushLoad e, PushWrite, PushStore, StealCas] (quiet dq) = Some (Inr s)
           \<and> owner s = OIdle \<and> thief s = TIdle \<and> pushed s = [e] \<and> taken s = [NULL]
           \<and> segment (dq_top s) (dq_bottom s) s = []"
proof -
  have dq: "dq = \<lparr>dq_bottom = 0, dq_top = 0, dq_buf = replicate cap NULL, dq_capacity = cap\<rparr>" "0 < cap"
    using assms by (auto simp: wsdq_init_def ring_alloc_def slots_eq split: if_splits)
  show ?thesis using dq(2) unfolding dq(1)
    by (simp add: wsdq_step_def steals_def quiet_def goc_wsdq.defs push_bottom_def ring_write_def
        ring_read_def size_add_def size_sub_def segment_def)
qed

theorem wsdq_early_pop_loses_witness:
  "\<exists>dq s. wsdq_init 256 = Inr dq
     \<and> wsdq_run [PopDec, StealTop, StealBottom, StealRead, PopLoad, PopRestore,
                 PushLoad 7, PushWrite, PushStore, StealCas] (quiet dq) = Some (Inr s)
     \<and> pushed s = [7] \<and> taken s = [NULL]"
proof -
  have i: "wsdq_init 256 = Inr \<lparr>dq_bottom = 0, dq_top = 0, dq_buf = ring_alloc 256, dq_capacity = 256\<rparr>"
    by (simp add: wsdq_init_def)
  from wsdq_early_pop_loses [OF i, of 7] i show ?thesis by auto
qed



text \<open>
  C27: The injector is a first-in first-out queue, whatever the sequence of pushes and pops; no
  freed node is read, a pop frees the node it takes, and destroying the injector ends and leaves
  no node allocated.
\<close>

theorem injector_refines:
  assumes "spec_run inj_spec cs [] = Some (vs, es)"
  shows "\<exists>q q'. impl_run inj_exec cs injector_init = Some (Inr (vs, q)) \<and> card (dom (inj_nodes q)) = length es
           \<and> injector_destroy q = Some (Inr q') \<and> inj_nodes q' = Map.empty"
proof -
  obtain q where q: "impl_run inj_exec cs injector_init = Some (Inr (vs, q))" "inj_rel 0 q es"
    using injector.run_ok [OF _ injector_init_rel assms, of 0] by auto
  then obtain ns where "distinct ns" "set ns = dom (inj_nodes q)" "length es = length ns"
    using node_chain_length by (auto simp: inj_rel_def)
  then have "card (dom (inj_nodes q)) = length es" by (metis distinct_card)
  with q(1) inj_destroy_ok [OF q(2)] show ?thesis by blast
qed

theorem injector_refines_witness:
  "\<exists>q q'. impl_run inj_exec [InjPop, InjPush 7, InjPush 8, InjPop] injector_init = Some (Inr ([0, 0, 0, 7], q))
     \<and> card (dom (inj_nodes q)) = 1 \<and> injector_destroy q = Some (Inr q') \<and> inj_nodes q' = Map.empty"
  using injector_refines [of "[InjPop, InjPush 7, InjPush 8, InjPop]" "[0, 0, 0, 7]" "[8]"] by simp

end
