(* ===== verification/Goc_Loop_Queue.thy ===== *)
theory Goc_Loop_Queue
  imports Goc_Prelude
begin

text \<open>
  The callback queue of the event loop (loop.c): any number of producer threads append with an
  atomic exchange and a separate link, the loop thread removes, and an approximate depth decides who
  rings libuv's wake-up handle. Producers and loop thread run in small steps under an arbitrary
  schedule; accesses are sequentially consistent. The wake-up handle is open and \<open>uv_async_send\<close> on
  it succeeds, which is libuv's contract; libuv calls \<open>on_wakeup\<close> after a send.
\<close>

section \<open>State\<close>

record mpsc_node =
  m_next :: "nat option"
  m_entry :: nat

text \<open>
  A producer inside \<open>post_callback\<close>: its node is allocated; it has exchanged the head and must link
  the node behind \<open>prev\<close>; it must count it, raise the high-water mark, and, having read \<open>prev_depth\<close>,
  ring; it has set \<open>g_wakeup_pending\<close> and must send.
\<close>

datatype prod_pc =
  PIdle | PXchg nat | PLink nat nat | PCount | PHwm nat | PWake nat | PAsync

text \<open>
  The loop thread: idle in libuv; in \<open>on_wakeup\<close> before the flag is cleared; draining with a budget;
  between taking a node and counting it; after the drain; ringing for the rest.
\<close>

datatype cons_pc =
  CIdle | CEnter | CDrain nat | CSub nat | CAfter | CWake | CAsync

text \<open>
  A freed node is \<open>None\<close>. \<open>order\<close> lists the entries in the order of the exchanges and \<open>popped\<close> those
  the loop thread has taken; \<open>live\<close> lists the nodes from the tail, the sentinel first; \<open>counted\<close> is
  the number of nodes the producers have added to the depth.
\<close>

record cb_queue =
  q_nodes :: "nat \<rightharpoonup> mpsc_node"
  q_fresh :: nat
  q_headp :: nat
  q_tailp :: nat
  q_depth :: nat
  q_hwm :: nat
  q_pending :: bool
  q_async :: bool
  prods :: "prod_pc list"
  cons_at :: cons_pc
  order :: "nat list"
  popped :: "nat list"
  live :: "nat list"
  counted :: nat

definition GOC_CB_DRAIN_BUDGET :: nat where
  "GOC_CB_DRAIN_BUDGET = 512"

text \<open>\<open>cb_queue_init\<close>, with \<open>n\<close> producer threads.\<close>

definition cb_queue_init :: "nat \<Rightarrow> cb_queue" where
  "cb_queue_init n = \<lparr>q_nodes = [0 \<mapsto> \<lparr>m_next = None, m_entry = 0\<rparr>], q_fresh = 1, q_headp = 0, q_tailp = 0,
     q_depth = 0, q_hwm = 0, q_pending = False, q_async = False, prods = replicate n PIdle,
     cons_at = CIdle, order = [], popped = [], live = [0], counted = 0\<rparr>"

section \<open>Producers\<close>

datatype prod_act = Post nat | Xchg | Link | Count | Hwm | Ring | Send

text \<open>The accesses of \<open>cb_queue_push\<close>: exchange, link, count, high-water mark.\<close>

fun cb_queue_push :: "prod_act \<Rightarrow> nat \<Rightarrow> cb_queue \<Rightarrow> cb_queue out" where
  "cb_queue_push Xchg p s =
     (case prods s ! p of
        PXchg n \<Rightarrow>
          Some (Inr (s\<lparr>q_headp := n, prods := (prods s)[p := PLink n (q_headp s)],
                       order := order s @ [m_entry (the (q_nodes s n))], live := live s @ [n]\<rparr>))
      | _ \<Rightarrow> None)"
| "cb_queue_push Link p s =
     (case prods s ! p of
        PLink n prev \<Rightarrow>
          (case q_nodes s prev of
             None \<Rightarrow> Some (Inl OutOfBounds)
           | Some nd \<Rightarrow> Some (Inr (s\<lparr>q_nodes := (q_nodes s)(prev \<mapsto> nd\<lparr>m_next := Some n\<rparr>),
                                   prods := (prods s)[p := PCount]\<rparr>)))
      | _ \<Rightarrow> None)"
| "cb_queue_push Count p s =
     (case prods s ! p of
        PCount \<Rightarrow> Some (Inr (s\<lparr>q_depth := size_add (q_depth s) 1, counted := Suc (counted s),
                              prods := (prods s)[p := PHwm (q_depth s)]\<rparr>))
      | _ \<Rightarrow> None)"
| "cb_queue_push Hwm p s =
     (case prods s ! p of
        PHwm prev_depth \<Rightarrow>
          let depth = size_add prev_depth 1 in
          Some (Inr (s\<lparr>q_hwm := if q_hwm s < depth then depth else q_hwm s,
                       prods := (prods s)[p := PWake prev_depth]\<rparr>))
      | _ \<Rightarrow> None)"
| "cb_queue_push _ p s = None"

text \<open>
  The exchange on \<open>g_wakeup_pending\<close> in \<open>wakeup_send_if_needed\<close>, with what the caller does next:
  send, or nothing when a wake-up is already on its way.
\<close>

definition wakeup_send_if_needed :: "(cb_queue \<Rightarrow> 'r) \<Rightarrow> (cb_queue \<Rightarrow> 'r) \<Rightarrow> cb_queue \<Rightarrow> 'r" where
  "wakeup_send_if_needed send skip s = (if q_pending s then skip s else send (s\<lparr>q_pending := True\<rparr>))"

text \<open>\<open>post_callback\<close>: allocate the node, push it, ring if the queue was empty.\<close>

fun producer_step :: "prod_act \<Rightarrow> nat \<Rightarrow> cb_queue \<Rightarrow> cb_queue out" where
  "producer_step (Post e) p s =
     (if prods s ! p = PIdle
      then Some (Inr (s\<lparr>q_nodes := (q_nodes s)(q_fresh s \<mapsto> \<lparr>m_next = None, m_entry = e\<rparr>),
                        q_fresh := Suc (q_fresh s), prods := (prods s)[p := PXchg (q_fresh s)]\<rparr>))
      else None)"
| "producer_step Ring p s =
     (case prods s ! p of
        PWake prev_depth \<Rightarrow>
          if prev_depth = 0
          then Some (Inr (wakeup_send_if_needed (\<lambda>s1. s1\<lparr>prods := (prods s1)[p := PAsync]\<rparr>)
                            (\<lambda>s1. s1\<lparr>prods := (prods s1)[p := PIdle]\<rparr>) s))
          else Some (Inr (s\<lparr>prods := (prods s)[p := PIdle]\<rparr>))
      | _ \<Rightarrow> None)"
| "producer_step Send p s =
     (if prods s ! p = PAsync
      then Some (Inr (s\<lparr>q_async := True, prods := (prods s)[p := PIdle]\<rparr>)) else None)"
| "producer_step Xchg p s = cb_queue_push Xchg p s"
| "producer_step Link p s = cb_queue_push Link p s"
| "producer_step Count p s = cb_queue_push Count p s"
| "producer_step Hwm p s = cb_queue_push Hwm p s"

section \<open>The loop thread\<close>

text \<open>
  \<open>cb_queue_pop\<close> up to the decrement of the depth: \<open>None\<close> in the first component when the tail has no
  successor.
\<close>

definition cb_queue_pop :: "cb_queue \<Rightarrow> (nat option \<times> cb_queue) res" where
  "cb_queue_pop s =
     (case q_nodes s (q_tailp s) of
        None \<Rightarrow> Inl OutOfBounds
      | Some nd \<Rightarrow>
          (case m_next nd of
             None \<Rightarrow> Inr (None, s)
           | Some n \<Rightarrow>
               (case q_nodes s n of
                  None \<Rightarrow> Inl OutOfBounds
                | Some nd1 \<Rightarrow>
                    Inr (Some (m_entry nd1),
                         s\<lparr>q_tailp := n, q_nodes := (q_nodes s)(q_tailp s := None), live := tl (live s)\<rparr>))))"

text \<open>
  The condition of the loop in \<open>drain_cb_queue\<close>: stop when the budget is used up or the queue shows
  no entry, else hand out the next one (to \<open>drain_entry\<close> of Goc\_Dispatch).
\<close>

definition drain_next :: "cb_queue \<Rightarrow> cb_queue out" where
  "drain_next s =
     (case cons_at s of
        CDrain b \<Rightarrow>
          if b = 0 then Some (Inr (s\<lparr>cons_at := CAfter\<rparr>))
          else obind (Some (cb_queue_pop s)) (\<lambda>(r, s1).
               case r of
                 None \<Rightarrow> Some (Inr (s1\<lparr>cons_at := CAfter\<rparr>))
               | Some e \<Rightarrow> Some (Inr (s1\<lparr>cons_at := CSub (b - 1), popped := popped s1 @ [e]\<rparr>)))
      | _ \<Rightarrow> None)"

datatype loop_act = Fire | Clear | Pop | Sub | After | RingSelf | SendSelf

fun loop_step :: "loop_act \<Rightarrow> cb_queue \<Rightarrow> cb_queue out" where
  "loop_step Fire s =
     (if cons_at s = CIdle \<and> q_async s then Some (Inr (s\<lparr>q_async := False, cons_at := CEnter\<rparr>)) else None)"
| "loop_step Clear s =
     (if cons_at s = CEnter
      then Some (Inr (s\<lparr>q_pending := False, cons_at := CDrain GOC_CB_DRAIN_BUDGET\<rparr>)) else None)"
| "loop_step Pop s = drain_next s"
| "loop_step Sub s =
     (case cons_at s of
        CSub b \<Rightarrow> Some (Inr (s\<lparr>q_depth := size_sub (q_depth s) 1, cons_at := CDrain b\<rparr>))
      | _ \<Rightarrow> None)"
| "loop_step After s =
     (if cons_at s = CAfter
      then Some (Inr (s\<lparr>cons_at := if 0 < q_depth s then CWake else CIdle\<rparr>)) else None)"
| "loop_step RingSelf s =
     (if cons_at s = CWake
      then Some (Inr (wakeup_send_if_needed (\<lambda>s1. s1\<lparr>cons_at := CAsync\<rparr>) (\<lambda>s1. s1\<lparr>cons_at := CIdle\<rparr>) s))
      else None)"
| "loop_step SendSelf s =
     (if cons_at s = CAsync then Some (Inr (s\<lparr>q_async := True, cons_at := CIdle\<rparr>)) else None)"

text \<open>A schedule: producer \<open>p\<close>'s next access, or the loop thread's.\<close>

datatype cb_act = ByProducer nat prod_act | ByLoop loop_act

fun cb_step :: "cb_act \<Rightarrow> cb_queue \<Rightarrow> cb_queue out" where
  "cb_step (ByProducer p a) s = (if p < length (prods s) then producer_step a p s else None)"
| "cb_step (ByLoop a) s = loop_step a s"

fun cb_run :: "cb_act list \<Rightarrow> cb_queue \<Rightarrow> cb_queue out" where
  "cb_run [] s = Some (Inr s)"
| "cb_run (a # as) s = obind (cb_step a s) (cb_run as)"

declare drain_next_def [simp] wakeup_send_if_needed_def [simp]

end
