(* ===== verification/Goc_Loop_Props.thy ===== *)
theory Goc_Loop_Props
  imports Goc_Loop_Queue
begin

text \<open>
  What the callback queue promises under every schedule of producers and loop thread: no access to
  a freed node, entries taken once each and in the order of the exchanges, and no lost wake-up,
  although the depth that decides about it counts a node only after it can be taken.
\<close>

section \<open>The list of nodes\<close>

fun adjacent :: "nat \<Rightarrow> nat \<Rightarrow> nat list \<Rightarrow> bool" where
  "adjacent a b (x # y # r) = (x = a \<and> y = b \<or> adjacent a b (y # r))"
| "adjacent a b _ = False"

lemma adjacent_set: "adjacent a b xs \<Longrightarrow> a \<in> set xs \<and> b \<in> set xs"
  by (induction a b xs rule: adjacent.induct) auto

lemma adjacent_later: "adjacent a b (x # xs) \<Longrightarrow> b \<in> set xs"
  by (induction xs arbitrary: x) auto

lemma adjacent_snoc: "adjacent a b (xs @ [n]) \<longleftrightarrow> adjacent a b xs \<or> xs \<noteq> [] \<and> a = last xs \<and> b = n"
  by (induction a b xs rule: adjacent.induct) auto

lemma adjacent_unique:
  "\<lbrakk>adjacent a b xs; adjacent a c xs; distinct xs\<rbrakk> \<Longrightarrow> b = c"
  by (induction a b xs rule: adjacent.induct) (auto dest: adjacent_set)

lemma adjacent_unique_left:
  "\<lbrakk>adjacent a b xs; adjacent c b xs; distinct xs\<rbrakk> \<Longrightarrow> a = c"
  by (induction a b xs rule: adjacent.induct) (auto dest: adjacent_later)

lemma adjacent_not_last: "\<lbrakk>adjacent a b xs; distinct xs\<rbrakk> \<Longrightarrow> a \<noteq> last xs"
  by (induction a b xs rule: adjacent.induct) (auto dest: adjacent_set)

lemma last_or_adjacent: "n \<in> set xs \<Longrightarrow> n = last xs \<or> (\<exists>b. adjacent n b xs)"
  by (induction n "0 :: nat" xs rule: adjacent.induct) auto

text \<open>
  From the tail on, each node is linked to the next one or its successor's producer is about to
  link it; the last node has no successor.
\<close>

definition linked :: "(nat \<rightharpoonup> mpsc_node) \<Rightarrow> prod_pc set \<Rightarrow> nat list \<Rightarrow> bool" where
  "linked N P xs \<longleftrightarrow> xs \<noteq> [] \<and> (\<exists>nd. N (last xs) = Some nd \<and> m_next nd = None)
     \<and> (\<forall>a b. adjacent a b xs \<longrightarrow> (\<exists>nd. N a = Some nd \<and> (m_next nd = Some b \<or> m_next nd = None \<and> PLink b a \<in> P)))"

fun own :: "prod_pc \<Rightarrow> nat option" where
  "own (PXchg n) = Some n"
| "own (PLink n _) = Some n"
| "own _ = None"

text \<open>The nodes of the queue and of the producers.\<close>

definition nodes_ok :: "cb_queue \<Rightarrow> bool" where
  "nodes_ok s \<longleftrightarrow> linked (q_nodes s) (set (prods s)) (live s) \<and> distinct (live s)
     \<and> q_headp s = last (live s) \<and> q_tailp s = hd (live s) \<and> (\<forall>n \<in> set (live s). n < q_fresh s)
     \<and> (\<forall>n. PXchg n \<in> set (prods s) \<longrightarrow> n \<notin> set (live s) \<and> n < q_fresh s
            \<and> (\<exists>nd. q_nodes s n = Some nd \<and> m_next nd = None))
     \<and> (\<forall>n prev. PLink n prev \<in> set (prods s) \<longrightarrow> adjacent prev n (live s)
            \<and> (\<exists>nd. q_nodes s prev = Some nd \<and> m_next nd = None))"

text \<open>No two producers work on the same node.\<close>

definition own_ok :: "cb_queue \<Rightarrow> bool" where
  "own_ok s \<longleftrightarrow> (\<forall>i < length (prods s). \<forall>n. own (prods s ! i) = Some n \<longrightarrow> n < q_fresh s)
     \<and> (\<forall>i < length (prods s). \<forall>j < length (prods s). own (prods s ! i) \<noteq> None
            \<and> own (prods s ! i) = own (prods s ! j) \<longrightarrow> i = j)"

definition entries_ok :: "cb_queue \<Rightarrow> bool" where
  "entries_ok s \<longleftrightarrow> order s = popped s @ map (\<lambda>n. m_entry (the (q_nodes s n))) (tl (live s))"

lemma linked_node: "\<lbrakk>linked N P xs; n \<in> set xs\<rbrakk> \<Longrightarrow> \<exists>nd. N n = Some nd"
  using last_or_adjacent by (fastforce simp: linked_def)

lemma linked_producers:
  "\<lbrakk>linked N P xs; \<And>n prev. PLink n prev \<in> P \<Longrightarrow> PLink n prev \<in> P'\<rbrakk> \<Longrightarrow> linked N P' xs"
  unfolding linked_def by blast

lemma linked_nodes:
  assumes "linked N P xs" "\<And>n. n \<in> set xs \<Longrightarrow> N' n = N n"
  shows "linked N' P xs"
  using assms adjacent_set by (fastforce simp: linked_def)

lemma linked_snoc:
  "\<lbrakk>linked N P xs; N n = Some nd; m_next nd = None; PLink n (last xs) \<in> P\<rbrakk> \<Longrightarrow> linked N P (xs @ [n])"
  by (auto simp: linked_def adjacent_snoc)

lemma linked_tl: "\<lbrakk>linked N P (a # b # r)\<rbrakk> \<Longrightarrow> linked N P (b # r)"
  by (auto simp: linked_def)

text \<open>The link: \<open>b\<close> becomes the successor of \<open>a\<close>, and its producer is done with it.\<close>

lemma linked_link:
  assumes "linked N P xs" "adjacent a b xs" "distinct xs"
    and "\<And>n prev. \<lbrakk>PLink n prev \<in> P; n \<noteq> b\<rbrakk> \<Longrightarrow> PLink n prev \<in> P'"
  shows "linked (N(a \<mapsto> nd\<lparr>m_next := Some b\<rparr>)) P' xs"
  unfolding linked_def
proof (intro conjI allI impI)
  show "xs \<noteq> []" using assms(1) by (simp add: linked_def)
  show "\<exists>nd'. (N(a \<mapsto> nd\<lparr>m_next := Some b\<rparr>)) (last xs) = Some nd' \<and> m_next nd' = None"
    using adjacent_not_last [OF assms(2,3)] assms(1) by (simp add: linked_def)
  fix c d assume cd: "adjacent c d xs"
  show "\<exists>nd'. (N(a \<mapsto> nd\<lparr>m_next := Some b\<rparr>)) c = Some nd' \<and> (m_next nd' = Some d \<or> m_next nd' = None \<and> PLink d c \<in> P')"
  proof (cases "c = a")
    case True
    then show ?thesis using adjacent_unique [OF _ assms(2,3)] cd by simp
  next
    case False
    then have "d \<noteq> b" using adjacent_unique_left [OF cd _ assms(3)] assms(2) by blast
    moreover obtain nd' where "N c = Some nd'" "m_next nd' = Some d \<or> m_next nd' = None \<and> PLink d c \<in> P"
      using assms(1) cd unfolding linked_def by blast
    ultimately show ?thesis using False assms(4) by auto
  qed
qed

section \<open>Every step keeps the list\<close>

lemma set_update_other:
  "\<lbrakk>p < length xs; xs ! p \<noteq> x; x \<in> set xs\<rbrakk> \<Longrightarrow> x \<in> set (xs[p := y])"
  by (metis in_set_conv_nth length_list_update nth_list_update_neq)

lemma links_kept:
  "\<lbrakk>p < length xs; \<And>n prev. xs ! p \<noteq> PLink n prev; PLink n prev \<in> set xs\<rbrakk> \<Longrightarrow> PLink n prev \<in> set (xs[p := y])"
  by (rule set_update_other) auto

lemma own_step:
  assumes "own_ok s" "p < length (prods s)" "q_fresh s \<le> q_fresh s'" "prods s' = (prods s)[p := pc]"
    and "own pc = None \<or> own pc = own (prods s ! p) \<or> own pc = Some (q_fresh s) \<and> q_fresh s < q_fresh s'"
  shows "own_ok s'"
proof -
  have old: "own (prods s ! i) = Some n \<Longrightarrow> n < q_fresh s" if "i < length (prods s)" for i n
    using assms(1) that by (auto simp: own_ok_def)
  have inj: "i = j" if "i < length (prods s)" "j < length (prods s)" "own (prods s ! i) = own (prods s ! j)"
    "own (prods s ! i) \<noteq> None" for i j
    using assms(1) that unfolding own_ok_def by blast
  have new: "own (prods s' ! i) = (if i = p then own pc else own (prods s ! i))" if "i < length (prods s)" for i
    using that assms(4) by (simp add: nth_list_update)
  have sep: "own pc \<noteq> own (prods s ! i)" if "i < length (prods s)" "i \<noteq> p" "own pc \<noteq> None" for i
    using assms(2,5) old [of i "q_fresh s"] inj [of p i] that by auto
  have bound: "own pc = Some n \<Longrightarrow> n < q_fresh s'" for n
    using assms(3,5) old [OF assms(2), of n] by auto
  have len: "length (prods s') = length (prods s)" using assms(4) by simp
  show ?thesis unfolding own_ok_def len
  proof (intro conjI allI impI)
    fix i n assume "i < length (prods s)" "own (prods s' ! i) = Some n"
    then show "n < q_fresh s'" using new [of i] bound old [of i n] assms(3) by (auto split: if_splits)
  next
    fix i j
    assume ij: "i < length (prods s)" "j < length (prods s)"
      "own (prods s' ! i) \<noteq> None \<and> own (prods s' ! i) = own (prods s' ! j)"
    show "i = j"
    proof (rule ccontr)
      assume "i \<noteq> j"
      then consider "i = p" "j \<noteq> p" | "j = p" "i \<noteq> p" | "i \<noteq> p" "j \<noteq> p" by blast
      then show False
      proof cases
        case 1
        then show False using sep [OF ij(2)] new [OF ij(1)] new [OF ij(2)] ij(3) by metis
      next
        case 2
        then show False using sep [OF ij(1)] new [OF ij(1)] new [OF ij(2)] ij(3) by metis
      next
        case 3
        then show False using inj [OF ij(1,2)] new [OF ij(1)] new [OF ij(2)] ij(3) \<open>i \<noteq> j\<close> by metis
      qed
    qed
  qed
qed

text \<open>A producer moves on without touching the nodes or the list.\<close>

lemma nodes_move:
  assumes "nodes_ok s" "p < length (prods s)" "own pc = None" "\<And>n prev. prods s ! p \<noteq> PLink n prev"
    and "q_nodes s' = q_nodes s" "live s' = live s" "q_headp s' = q_headp s" "q_tailp s' = q_tailp s"
    and "q_fresh s' = q_fresh s" "prods s' = (prods s)[p := pc]"
  shows "nodes_ok s'"
proof -
  have sub: "set (prods s') \<subseteq> insert pc (set (prods s))" by (simp add: assms(10) set_update_subset_insert)
  have "linked (q_nodes s) (set (prods s')) (live s)"
    using assms(1,2,4) links_kept by (auto simp: nodes_ok_def assms(10) intro: linked_producers)
  with assms(1,3) sub show ?thesis by (auto simp: nodes_ok_def assms(5-9))
qed

definition queue_ok :: "cb_queue \<Rightarrow> bool" where
  "queue_ok s \<longleftrightarrow> nodes_ok s \<and> own_ok s \<and> entries_ok s"

lemma queue_move:
  assumes "queue_ok s" "p < length (prods s)" "own pc = None" "\<And>n prev. prods s ! p \<noteq> PLink n prev"
    and "q_nodes s' = q_nodes s" "live s' = live s" "q_headp s' = q_headp s" "q_tailp s' = q_tailp s"
    and "q_fresh s' = q_fresh s" "prods s' = (prods s)[p := pc]" "order s' = order s" "popped s' = popped s"
  shows "queue_ok s'"
  using nodes_move [of s p pc s'] own_step [of s p s' pc] assms
  by (simp add: queue_ok_def entries_ok_def)

lemma queue_same:
  assumes "queue_ok s" "q_nodes s' = q_nodes s" "live s' = live s" "q_headp s' = q_headp s"
    "q_tailp s' = q_tailp s" "q_fresh s' = q_fresh s" "prods s' = prods s" "order s' = order s" "popped s' = popped s"
  shows "queue_ok s'"
  using assms(1) unfolding queue_ok_def nodes_ok_def own_ok_def entries_ok_def assms(2-9) .

lemma own_same: "\<lbrakk>own_ok s; prods s' = prods s; q_fresh s' = q_fresh s\<rbrakk> \<Longrightarrow> own_ok s'"
  unfolding own_ok_def by metis

lemma nodes_okD:
  assumes "nodes_ok s"
  shows "linked (q_nodes s) (set (prods s)) (live s)" "distinct (live s)" "q_headp s = last (live s)"
    "q_tailp s = hd (live s)" "n \<in> set (live s) \<Longrightarrow> n < q_fresh s"
    "PXchg n \<in> set (prods s) \<Longrightarrow> n \<notin> set (live s) \<and> n < q_fresh s \<and> (\<exists>nd. q_nodes s n = Some nd \<and> m_next nd = None)"
    "PLink n prev \<in> set (prods s) \<Longrightarrow> adjacent prev n (live s) \<and> (\<exists>nd. q_nodes s prev = Some nd \<and> m_next nd = None)"
  using assms unfolding nodes_ok_def by blast+

lemma nodes_okI:
  assumes "linked (q_nodes s) (set (prods s)) (live s)" "distinct (live s)" "q_headp s = last (live s)"
    "q_tailp s = hd (live s)" "\<And>n. n \<in> set (live s) \<Longrightarrow> n < q_fresh s"
    "\<And>n. PXchg n \<in> set (prods s) \<Longrightarrow> n \<notin> set (live s) \<and> n < q_fresh s \<and> (\<exists>nd. q_nodes s n = Some nd \<and> m_next nd = None)"
    "\<And>n prev. PLink n prev \<in> set (prods s) \<Longrightarrow> adjacent prev n (live s) \<and> (\<exists>nd. q_nodes s prev = Some nd \<and> m_next nd = None)"
  shows "nodes_ok s"
  using assms unfolding nodes_ok_def by blast

lemma post_ok:
  assumes "queue_ok s" "p < length (prods s)" "prods s ! p = PIdle"
  shows "queue_ok (s\<lparr>q_nodes := (q_nodes s)(q_fresh s \<mapsto> \<lparr>m_next = None, m_entry = e\<rparr>),
            q_fresh := Suc (q_fresh s), prods := (prods s)[p := PXchg (q_fresh s)]\<rparr>)" (is "queue_ok ?s")
proof -
  have n: "nodes_ok s" using assms(1) by (simp add: queue_ok_def)
  note ok = nodes_okD [OF n]
  have fr: "m \<noteq> q_fresh s" if "m \<in> set (live s)" for m using ok(5) [OF that] by simp
  have sub: "x \<in> set (prods s)" if "x \<in> set (prods ?s)" "x \<noteq> PXchg (q_fresh s)" for x
    using that set_update_subset_insert by fastforce
  have "linked (q_nodes ?s) (set (prods s)) (live s)" by (rule linked_nodes [OF ok(1)]) (simp add: fr)
  then have l: "linked (q_nodes ?s) (set (prods ?s)) (live s)"
    by (rule linked_producers) (simp add: links_kept assms(2,3))
  have "nodes_ok ?s"
  proof (rule nodes_okI)
    fix m assume m: "PXchg m \<in> set (prods ?s)"
    show "m \<notin> set (live ?s) \<and> m < q_fresh ?s \<and> (\<exists>nd. q_nodes ?s m = Some nd \<and> m_next nd = None)"
      using ok(6) [of m] sub [OF m] fr [of m] by (cases "m = q_fresh s") auto
  next
    fix m prev assume m: "PLink m prev \<in> set (prods ?s)"
    show "adjacent prev m (live ?s) \<and> (\<exists>nd. q_nodes ?s prev = Some nd \<and> m_next nd = None)"
      using ok(7) [OF sub [OF m]] fr [of prev] adjacent_set by auto
  qed (use l ok in \<open>auto simp: less_Suc_eq\<close>)
  moreover have "own_ok ?s" using own_step [of s p ?s "PXchg (q_fresh s)"] assms by (simp add: queue_ok_def)
  moreover have "entries_ok ?s"
  proof -
    have "m \<noteq> q_fresh s" if "m \<in> set (tl (live s))" for m using that fr by (cases "live s") auto
    then show ?thesis using assms(1) by (auto simp: queue_ok_def entries_ok_def)
  qed
  ultimately show ?thesis by (simp add: queue_ok_def)
qed

lemma xchg_ok:
  assumes "queue_ok s" "p < length (prods s)" "prods s ! p = PXchg n"
  shows "queue_ok (s\<lparr>q_headp := n, prods := (prods s)[p := PLink n (q_headp s)],
            order := order s @ [m_entry (the (q_nodes s n))], live := live s @ [n]\<rparr>)" (is "queue_ok ?s")
proof -
  have no: "nodes_ok s" using assms(1) by (simp add: queue_ok_def)
  note ok = nodes_okD [OF no]
  have mem: "PXchg n \<in> set (prods s)" using assms(2,3) by (metis nth_mem)
  have sub: "x \<in> set (prods s)" if "x \<in> set (prods ?s)" "x \<noteq> PLink n (last (live s))" for x
    using that set_update_subset_insert ok(3) by fastforce
  have ne: "live s \<noteq> []" using ok(1) by (simp add: linked_def)
  have only: "PXchg n \<notin> set (prods ?s)"
  proof
    assume "PXchg n \<in> set (prods ?s)"
    then obtain i where i: "i < length (prods s)" "(prods s)[p := PLink n (q_headp s)] ! i = PXchg n"
      by (auto simp: in_set_conv_nth)
    then have "prods s ! i = PXchg n" "i \<noteq> p" using assms(2) by (auto simp: nth_list_update split: if_splits)
    then show False using assms i(1) unfolding queue_ok_def own_ok_def by (metis own.simps(1) option.distinct(1))
  qed
  have "linked (q_nodes s) (set (prods ?s)) (live s)"
    by (rule linked_producers [OF ok(1)]) (simp add: links_kept assms(2,3))
  moreover have "PLink n (last (live s)) \<in> set (prods ?s)" using assms(2) ok(3) by (simp add: set_update_memI)
  ultimately have l: "linked (q_nodes s) (set (prods ?s)) (live s @ [n])"
    using ok(6) [OF mem] linked_snoc by blast
  have "nodes_ok ?s"
  proof (rule nodes_okI)
    fix m assume m: "PXchg m \<in> set (prods ?s)"
    then have "m \<noteq> n" using only by auto
    with ok(6) [OF sub [OF m]] show "m \<notin> set (live ?s) \<and> m < q_fresh ?s \<and> (\<exists>nd. q_nodes ?s m = Some nd \<and> m_next nd = None)"
      by auto
  next
    fix m prev assume m: "PLink m prev \<in> set (prods ?s)"
    show "adjacent prev m (live ?s) \<and> (\<exists>nd. q_nodes ?s prev = Some nd \<and> m_next nd = None)"
    proof (cases "PLink m prev = PLink n (last (live s))")
      case True
      then show ?thesis using ne ok(1) by (auto simp: adjacent_snoc linked_def)
    next
      case False
      with ok(7) [OF sub [OF m False]] show ?thesis by (auto simp: adjacent_snoc)
    qed
  qed (use l ok ok(6) [OF mem] ne in auto)
  moreover have "own_ok ?s" using own_step [of s p ?s "PLink n (q_headp s)"] assms by (simp add: queue_ok_def)
  moreover have "entries_ok ?s" using assms(1) ne by (auto simp: queue_ok_def entries_ok_def)
  ultimately show ?thesis by (simp add: queue_ok_def)
qed

lemma link_ok:
  assumes "queue_ok s" "p < length (prods s)" "prods s ! p = PLink n prev"
  obtains nd where "q_nodes s prev = Some nd"
    "queue_ok (s\<lparr>q_nodes := (q_nodes s)(prev \<mapsto> nd\<lparr>m_next := Some n\<rparr>), prods := (prods s)[p := PCount]\<rparr>)"
proof -
  have no: "nodes_ok s" using assms(1) by (simp add: queue_ok_def)
  note ok = nodes_okD [OF no]
  have mem: "PLink n prev \<in> set (prods s)" using assms(2,3) by (metis nth_mem)
  obtain nd where nd: "q_nodes s prev = Some nd" and adj: "adjacent prev n (live s)" using ok(7) [OF mem] by blast
  let ?s = "s\<lparr>q_nodes := (q_nodes s)(prev \<mapsto> nd\<lparr>m_next := Some n\<rparr>), prods := (prods s)[p := PCount]\<rparr>"
  have sub: "x \<in> set (prods s)" if "x \<in> set (prods ?s)" "x \<noteq> PCount" for x
    using that set_update_subset_insert by fastforce
  have only: "m \<noteq> n" if mq: "PLink m q \<in> set (prods ?s)" for m q
  proof -
    obtain i where i: "i < length (prods s)" "(prods s)[p := PCount] ! i = PLink m q"
      using mq by (auto simp: in_set_conv_nth)
    then have "prods s ! i = PLink m q" "i \<noteq> p" using assms(2) by (auto simp: nth_list_update split: if_splits)
    then show ?thesis using assms i(1) unfolding queue_ok_def own_ok_def by (metis own.simps(2) option.distinct(1))
  qed
  have keep: "PLink m q \<in> set (prods ?s)" if "PLink m q \<in> set (prods s)" "m \<noteq> n" for m q
    using set_update_other [OF assms(2) _ that(1)] assms(3) that(2) by simp
  have "nodes_ok ?s"
  proof (rule nodes_okI)
    show "linked (q_nodes ?s) (set (prods ?s)) (live ?s)"
      using linked_link [OF ok(1) adj ok(2), of "set (prods ?s)" nd] keep by simp
    fix m assume m: "PXchg m \<in> set (prods ?s)"
    have "m \<noteq> prev" using ok(6) [OF sub [OF m]] adjacent_set [OF adj] by auto
    with ok(6) [OF sub [OF m]] show "m \<notin> set (live ?s) \<and> m < q_fresh ?s \<and> (\<exists>nd. q_nodes ?s m = Some nd \<and> m_next nd = None)"
      by auto
  next
    fix m q assume m: "PLink m q \<in> set (prods ?s)"
    have "q \<noteq> prev" using adjacent_unique [OF _ _ ok(2)] ok(7) [OF sub [OF m]] adj only [OF m] by blast
    with ok(7) [OF sub [OF m]] show "adjacent q m (live ?s) \<and> (\<exists>nd. q_nodes ?s q = Some nd \<and> m_next nd = None)"
      by auto
  qed (use ok in auto)
  moreover have "own_ok ?s" using own_step [of s p ?s PCount] assms by (simp add: queue_ok_def)
  moreover have "entries_ok ?s" using assms(1) nd by (auto simp: queue_ok_def entries_ok_def)
  ultimately show thesis using that nd by (simp add: queue_ok_def)
qed

lemma pop_node_ok:
  assumes "queue_ok s"
  shows "cb_queue_pop s = Inr (None, s) \<or> (\<exists>e s1. cb_queue_pop s = Inr (Some e, s1)
           \<and> queue_ok (s1\<lparr>cons_at := c, popped := popped s1 @ [e]\<rparr>))"
proof -
  have no: "nodes_ok s" using assms by (simp add: queue_ok_def)
  note ok = nodes_okD [OF no]
  have ne: "live s \<noteq> []" using ok(1) by (simp add: linked_def)
  obtain t ns where t: "live s = t # ns" using ne by (cases "live s") auto
  have tail: "q_tailp s = t" using ok(4) t by simp
  obtain nd where nd: "q_nodes s t = Some nd" using linked_node [OF ok(1), of t] t by auto
  show ?thesis
  proof (cases "m_next nd")
    case None
    then show ?thesis using tail nd by (simp add: cb_queue_pop_def)
  next
    case (Some n)
    have "ns \<noteq> []" using ok(1) nd Some t by (auto simp: linked_def)
    then obtain b ms where ns: "ns = b # ms" by (cases ns) auto
    have "adjacent t b (live s)" using t ns by simp
    then have b: "b = n" using ok(1) nd Some unfolding linked_def by fastforce
    obtain nb where nb: "q_nodes s n = Some nb" using linked_node [OF ok(1), of n] t ns b by auto
    have d: "t \<notin> set ns" "distinct ns" using ok(2) t by auto
    let ?s1 = "s\<lparr>q_tailp := n, q_nodes := (q_nodes s)(t := None), live := ns\<rparr>"
    let ?s = "?s1\<lparr>cons_at := c, popped := popped s @ [m_entry nb]\<rparr>"
    have pop: "cb_queue_pop s = Inr (Some (m_entry nb), ?s1)" using tail nd Some nb t by (simp add: cb_queue_pop_def)
    have "linked (q_nodes s) (set (prods s)) ns" using ok(1) linked_tl t ns by metis
    then have l: "linked (q_nodes ?s) (set (prods s)) ns" by (rule linked_nodes) (use d in auto)
    have "nodes_ok ?s"
    proof (rule nodes_okI)
      fix m assume m: "PXchg m \<in> set (prods ?s)"
      then show "m \<notin> set (live ?s) \<and> m < q_fresh ?s \<and> (\<exists>nd. q_nodes ?s m = Some nd \<and> m_next nd = None)"
        using ok(6) [of m] t by auto
    next
      fix m q assume "PLink m q \<in> set (prods ?s)"
      then have m: "adjacent q m (live s)" "\<exists>nd. q_nodes s q = Some nd \<and> m_next nd = None" using ok(7) by auto
      then have "q \<noteq> t" using nd Some by auto
      with m show "adjacent q m (live ?s) \<and> (\<exists>nd. q_nodes ?s q = Some nd \<and> m_next nd = None)"
        using t ns by auto
    qed (use l ok t ns b d in auto)
    moreover have "own_ok ?s" by (rule own_same [of s]) (use assms in \<open>simp_all add: queue_ok_def\<close>)
    moreover have "entries_ok ?s"
    proof -
      have "map (\<lambda>x. m_entry (the (((q_nodes s)(t := None)) x))) ms = map (\<lambda>x. m_entry (the (q_nodes s x))) ms"
        using d ns by auto
      then show ?thesis using assms t ns b nb by (simp add: queue_ok_def entries_ok_def)
    qed
    ultimately show ?thesis using pop by (auto simp: queue_ok_def)
  qed
qed

lemma producer_ok:
  assumes "queue_ok s" "p < length (prods s)" "producer_step a p s = Some r"
  shows "\<exists>s'. r = Inr s' \<and> queue_ok s'"
proof (cases a)
  case (Post e)
  with assms post_ok [OF assms(1,2)] show ?thesis by (auto split: if_splits)
next
  case Xchg
  with assms xchg_ok [OF assms(1,2)] show ?thesis by (auto split: prod_pc.splits)
next
  case Link
  then obtain n prev where l: "prods s ! p = PLink n prev" using assms(3) by (auto split: prod_pc.splits)
  from link_ok [OF assms(1,2) l] obtain nd where "q_nodes s prev = Some nd"
    "queue_ok (s\<lparr>q_nodes := (q_nodes s)(prev \<mapsto> nd\<lparr>m_next := Some n\<rparr>), prods := (prods s)[p := PCount]\<rparr>)" .
  with Link l assms(3) show ?thesis by auto
next
  case Count
  with assms show ?thesis
    by (auto intro!: queue_move [OF assms(1,2), where pc = "PHwm (q_depth s)"] split: prod_pc.splits)
next
  case Hwm
  then obtain d where d: "prods s ! p = PHwm d" using assms(3) by (auto split: prod_pc.splits)
  with Hwm assms(3) show ?thesis
    by (auto simp: Let_def intro!: queue_move [OF assms(1,2), where pc = "PWake d"])
next
  case Ring
  then obtain d where d: "prods s ! p = PWake d" using assms(3) by (auto split: prod_pc.splits)
  with Ring assms(3) show ?thesis
    by (auto intro!: queue_move [OF assms(1,2), where pc = "if d = 0 \<and> \<not> q_pending s then PAsync else PIdle"]
        split: if_splits)
next
  case Send
  with assms(3) show ?thesis
    by (auto intro!: queue_move [OF assms(1,2), where pc = PIdle] split: if_splits)
qed

lemma loop_ok:
  assumes "queue_ok s" "loop_step a s = Some r"
  shows "\<exists>s'. r = Inr s' \<and> queue_ok s'"
proof (cases a)
  case Pop
  then obtain b where b: "cons_at s = CDrain b" using assms(2) by (auto split: cons_pc.splits)
  show ?thesis
  proof (cases "b = 0")
    case True
    with Pop b assms show ?thesis by (auto intro!: queue_same [OF assms(1)])
  next
    case False
    with Pop b assms(2) pop_node_ok [OF assms(1), of "CSub (b - 1)"] show ?thesis
      by (auto intro!: queue_same [OF assms(1)])
  qed
qed (use assms in \<open>auto intro!: queue_same [OF assms(1)] split: cons_pc.splits if_splits\<close>)

lemma queue_run:
  assumes "queue_ok s" "cb_run as s = Some r"
  shows "\<exists>s'. r = Inr s' \<and> queue_ok s'"
  using assms
proof (induction as arbitrary: s)
  case (Cons a as)
  obtain r1 where r1: "cb_step a s = Some r1" using Cons.prems(2) by (cases "cb_step a s") auto
  have "\<exists>s1. r1 = Inr s1 \<and> queue_ok s1"
    using r1 Cons.prems(1) by (cases a) (auto intro: producer_ok loop_ok split: if_splits)
  with r1 Cons show ?case by auto
qed auto

lemma queue_init: "queue_ok (cb_queue_init n)"
  by (auto simp: queue_ok_def cb_queue_init_def nodes_ok_def own_ok_def entries_ok_def linked_def)

section \<open>No wake-up is lost\<close>

fun uncounted :: "prod_pc \<Rightarrow> bool" where
  "uncounted (PLink _ _) = True"
| "uncounted PCount = True"
| "uncounted _ = False"

text \<open>The decrements of the depth so far.\<close>

definition subs :: "cb_queue \<Rightarrow> nat" where
  "subs s = length (popped s) - (case cons_at s of CSub _ \<Rightarrow> 1 | _ \<Rightarrow> 0)"

definition count_ok :: "cb_queue \<Rightarrow> bool" where
  "count_ok s \<longleftrightarrow> counted s + length (filter uncounted (prods s)) = length (order s)
     \<and> int (q_depth s) = (int (counted s) - int (subs s)) mod 2 ^ 64 \<and> q_depth s < 2 ^ 64
     \<and> length (popped s) \<le> length (order s) \<and> ((\<exists>b. cons_at s = CSub b) \<longrightarrow> popped s \<noteq> [])"

text \<open>
  While the loop thread is idle and the depth is not 0, the flag is set or a producer that read 0 is on
  its way to set it; while the flag is set, a wake-up is outstanding or about to be sent.
\<close>

definition ringing :: "cb_queue \<Rightarrow> bool" where
  "ringing s \<longleftrightarrow> q_pending s \<or> PWake 0 \<in> set (prods s) \<or> PHwm 0 \<in> set (prods s)"

definition wake_ok :: "cb_queue \<Rightarrow> bool" where
  "wake_ok s \<longleftrightarrow> (cons_at s = CIdle \<and> counted s \<noteq> subs s \<longrightarrow> ringing s)
     \<and> (cons_at s = CAsync \<longrightarrow> q_pending s)
     \<and> (q_pending s \<longrightarrow> q_async s \<or> PAsync \<in> set (prods s) \<or> cons_at s = CEnter \<or> cons_at s = CAsync)"

lemma depth_zero:
  assumes "count_ok s" "length (order s) < 2 ^ 63"
  shows "q_depth s = 0 \<longleftrightarrow> counted s = subs s"
proof -
  have b: "counted s < 2 ^ 63" "subs s < 2 ^ 63" using assms by (auto simp: count_ok_def subs_def)
  let ?d = "int (counted s) - int (subs s)"
  have "?d mod 2 ^ 64 = 0 \<longleftrightarrow> ?d = 0"
  proof
    assume "?d mod 2 ^ 64 = 0"
    moreover have "\<bar>?d\<bar> < 2 ^ 64" using b by simp
    ultimately show "?d = 0" using dvd_imp_le_int [of ?d "2 ^ 64"] by (fastforce simp: mod_eq_0_iff_dvd)
  qed simp
  with assms(1) show ?thesis by (auto simp: count_ok_def)
qed

lemma filter_upd:
  assumes "p < length xs"
  shows "length (filter P (xs[p := y])) + (if P (xs ! p) then 1 else 0) = length (filter P xs) + (if P y then 1 else 0)"
  by (rule count_update [OF assms])

lemma depth_add:
  assumes "int d = (int c - int b) mod 2 ^ 64" "d < 2 ^ 64"
  shows "int (size_add d 1) = (int (Suc c) - int b) mod 2 ^ 64"
proof -
  have "int (size_add d 1) = (int d + 1) mod 2 ^ 64" by (simp add: size_add_def of_nat_mod add.commute)
  also have "\<dots> = (int c - int b + 1) mod 2 ^ 64" unfolding assms(1) by (rule mod_add_left_eq)
  finally show ?thesis by (simp add: algebra_simps)
qed

lemma depth_sub:
  assumes "int d = (int c - int b) mod 2 ^ 64" "d < 2 ^ 64"
  shows "int (size_sub d 1) = (int c - int (Suc b)) mod 2 ^ 64"
proof -
  have "int (size_sub d 1) = (int d + (2 ^ 64 - 1)) mod 2 ^ 64" by (simp add: size_sub_def of_nat_mod)
  also have "\<dots> = (int c - int b + (2 ^ 64 - 1)) mod 2 ^ 64" unfolding assms(1) by (rule mod_add_left_eq)
  also have "int c - int b + (2 ^ 64 - 1) = (int c - int (Suc b)) + 2 ^ 64" by simp
  finally show ?thesis by (simp only: mod_add_self2)
qed

text \<open>A producer's step that changes neither flag nor counts, and whose state was not a ringing one.\<close>

lemma wake_move:
  assumes "wake_ok s" "p < length (prods s)" "prods s' = (prods s)[p := pc]"
    and "prods s ! p \<notin> {PWake 0, PHwm 0, PAsync} \<or> prods s ! p = PHwm 0 \<and> pc = PWake 0"
    and "cons_at s' = cons_at s" "counted s' = counted s" "popped s' = popped s"
    and "q_pending s' = q_pending s" "q_async s' = q_async s"
  shows "wake_ok s'"
proof -
  have keep: "x \<in> set (prods s')" if "x \<in> set (prods s)" "x \<noteq> prods s ! p" for x
    using set_update_other [OF assms(2) _ that(1), of pc] that(2) assms(3) by metis
  have new: "pc \<in> set (prods s')" using assms(2,3) by (simp add: set_update_memI)
  have "ringing s \<Longrightarrow> ringing s'"
    using keep [of "PWake 0"] keep [of "PHwm 0"] new assms(4,8) by (auto simp: ringing_def)
  moreover have "PAsync \<in> set (prods s) \<Longrightarrow> PAsync \<in> set (prods s')" using keep [of PAsync] assms(4) by auto
  moreover have "subs s' = subs s" using assms(5,7) by (simp add: subs_def)
  ultimately show ?thesis using assms(1,5,6,8,9) by (auto simp: wake_ok_def)
qed

lemma count_move:
  assumes "count_ok s" "p < length (prods s)" "prods s' = (prods s)[p := pc]" "uncounted pc = uncounted (prods s ! p)"
    and "cons_at s' = cons_at s" "counted s' = counted s" "popped s' = popped s" "order s' = order s" "q_depth s' = q_depth s"
  shows "count_ok s'"
  using assms filter_upd [OF assms(2), of uncounted pc] by (simp add: count_ok_def subs_def)

lemma count_step:
  assumes "count_ok s" "wake_ok s" "p < length (prods s)" "prods s ! p = PCount" "length (order s) < 2 ^ 63"
    and "s' = s\<lparr>q_depth := size_add (q_depth s) 1, counted := Suc (counted s), prods := (prods s)[p := PHwm (q_depth s)]\<rparr>"
  shows "count_ok s' \<and> wake_ok s'"
proof -
  have sb: "subs s' = subs s" by (simp add: subs_def assms(6))
  have "size_add (q_depth s) 1 < 2 ^ 64" by (rule size_op_bound)
  then have c: "count_ok s'"
    using assms(1) depth_add [of "q_depth s" "counted s" "subs s"] filter_upd [OF assms(3), of uncounted "PHwm (q_depth s)"] assms(4)
    unfolding count_ok_def sb by (simp add: assms(6))
  have keep: "x \<in> set (prods s')" if "x \<in> set (prods s)" "x \<noteq> PCount" for x
    using set_update_other [OF assms(3) _ that(1)] that(2) assms(4) by (simp add: assms(6))
  have new: "PHwm (q_depth s) \<in> set (prods s')" using assms(3) by (simp add: set_update_memI assms(6))
  have "ringing s'" if "cons_at s = CIdle"
  proof (cases "q_depth s = 0")
    case True
    with new show ?thesis by (simp add: ringing_def)
  next
    case False
    then have "ringing s" using depth_zero [OF assms(1,5)] that assms(2) by (simp add: wake_ok_def)
    then show ?thesis using keep by (auto simp: ringing_def assms(6))
  qed
  moreover have "PAsync \<in> set (prods s) \<Longrightarrow> PAsync \<in> set (prods s')" using keep by auto
  ultimately have "wake_ok s'" using assms(2) by (auto simp: wake_ok_def assms(6))
  with c show ?thesis ..
qed

lemma xchg_count:
  assumes "count_ok s" "p < length (prods s)" "prods s ! p = PXchg n"
    and "prods s' = (prods s)[p := PLink n prev]" "order s' = order s @ [e]" "cons_at s' = cons_at s"
    and "counted s' = counted s" "popped s' = popped s" "q_depth s' = q_depth s"
  shows "count_ok s'"
  using assms filter_upd [OF assms(2), of uncounted "PLink n prev"] by (simp add: count_ok_def subs_def)

lemma ring_step:
  assumes "wake_ok s" "p < length (prods s)" "prods s ! p = PWake d" "producer_step Ring p s = Some (Inr s')"
  shows "wake_ok s'"
proof -
  have keep: "x \<in> set ((prods s)[p := pc])" if "x \<in> set (prods s)" "x \<noteq> PWake d" for x pc
    using set_update_other [OF assms(2) _ that(1)] that(2) assms(3) by simp
  show ?thesis
  proof (cases "d = 0 \<and> \<not> q_pending s")
    case True
    then have s': "s' = s\<lparr>q_pending := True, prods := (prods s)[p := PAsync]\<rparr>" using assms(3,4) by simp
    have "PAsync \<in> set ((prods s)[p := PAsync])" using assms(2) by (simp add: set_update_memI)
    then show ?thesis using assms(1) unfolding s' by (simp add: wake_ok_def ringing_def subs_def)
  next
    case False
    then have s': "s' = s\<lparr>prods := (prods s)[p := PIdle]\<rparr>" using assms(3,4) by (auto split: if_splits)
    have "ringing s \<Longrightarrow> ringing s'" using False keep unfolding s' by (auto simp: ringing_def)
    moreover have "PAsync \<in> set (prods s) \<Longrightarrow> PAsync \<in> set (prods s')" using keep unfolding s' by simp
    moreover have "subs s' = subs s" unfolding s' by (simp add: subs_def)
    ultimately show ?thesis using assms(1) unfolding s' by (auto simp: wake_ok_def)
  qed
qed

lemma wake_producer:
  assumes "count_ok s" "wake_ok s" "p < length (prods s)" "producer_step a p s = Some (Inr s')" "length (order s) < 2 ^ 63"
  shows "count_ok s' \<and> wake_ok s' \<and> length (order s') \<le> Suc (length (order s))"
proof (cases a)
  case (Post e)
  then have "prods s ! p = PIdle" using assms(4) by (auto split: if_splits)
  with Post assms(4) show ?thesis
    using count_move [OF assms(1,3), of s' "PXchg (q_fresh s)"] wake_move [OF assms(2,3), of s' "PXchg (q_fresh s)"] by auto
next
  case Xchg
  then obtain n where n: "prods s ! p = PXchg n" using assms(4) by (auto split: prod_pc.splits)
  with Xchg assms(4) show ?thesis
    using xchg_count [OF assms(1,3) n, of s' "q_headp s"] wake_move [OF assms(2,3), of s' "PLink n (q_headp s)"] by auto
next
  case Link
  then obtain n prev where n: "prods s ! p = PLink n prev" using assms(4) by (auto split: prod_pc.splits)
  with Link assms(4) show ?thesis
    using count_move [OF assms(1,3), of s' PCount] wake_move [OF assms(2,3), of s' PCount] by (auto split: option.splits)
next
  case Count
  then have c: "prods s ! p = PCount" using assms(4) by (auto split: prod_pc.splits)
  with Count assms(4) count_step [OF assms(1-3) c assms(5), of s'] show ?thesis by auto
next
  case Hwm
  then obtain d where d: "prods s ! p = PHwm d" using assms(4) by (auto split: prod_pc.splits)
  with Hwm assms(4) show ?thesis
    using count_move [OF assms(1,3), of s' "PWake d"] wake_move [OF assms(2,3), of s' "PWake d"]
    by (cases "d = 0") (auto simp: Let_def)
next
  case Ring
  then obtain d where d: "prods s ! p = PWake d" using assms(4) by (auto split: prod_pc.splits)
  have "count_ok s'" using d Ring assms(4) count_move [OF assms(1,3), of s' "if d = 0 \<and> \<not> q_pending s then PAsync else PIdle"]
    by (auto split: if_splits)
  with ring_step [OF assms(2,3) d] Ring assms(4) d show ?thesis by (auto split: if_splits)
next
  case Send
  then have d: "prods s ! p = PAsync" "s' = s\<lparr>q_async := True, prods := (prods s)[p := PIdle]\<rparr>"
    using assms(4) by (auto split: if_splits)
  have "x \<in> set (prods s')" if "x \<in> set (prods s)" "x \<noteq> PAsync" for x
    using set_update_other [OF assms(3) _ that(1)] that(2) d by simp
  then have "ringing s \<Longrightarrow> ringing s'" by (auto simp: ringing_def d(2))
  moreover have "subs s' = subs s" by (simp add: d(2) subs_def)
  ultimately have "wake_ok s'" using assms(2) by (auto simp: wake_ok_def d(2))
  with count_move [OF assms(1,3), of s' PIdle] d show ?thesis by auto
qed

lemma pop_counts:
  assumes "count_ok s" "wake_ok s" "queue_ok s'" "cons_at s = CDrain b" "loop_step Pop s = Some (Inr s')"
  shows "count_ok s' \<and> wake_ok s' \<and> order s' = order s"
proof -
  have le: "length (popped s') \<le> length (order s')" using assms(3) by (auto simp: queue_ok_def entries_ok_def)
  consider "s' = s\<lparr>cons_at := CAfter\<rparr>"
    | e s1 where "cb_queue_pop s = Inr (Some e, s1)" "s' = s1\<lparr>cons_at := CSub (b - 1), popped := popped s1 @ [e]\<rparr>"
  proof (cases "b = 0")
    case False
    then obtain r s1 where r: "cb_queue_pop s = Inr (r, s1)" using assms(4,5) by (cases "cb_queue_pop s") auto
    have n: "s1 = s" if "r = None" using r that by (auto simp: cb_queue_pop_def split: option.splits)
    show thesis
    proof (cases r)
      case None
      then show thesis using that(1) r n False assms(4,5) by auto
    next
      case (Some e)
      then show thesis using that(2) r False assms(4,5) by auto
    qed
  qed (use assms(4,5) that in auto)
  then show ?thesis
  proof cases
    case 1
    then show ?thesis using assms(1,2,4) by (auto simp: count_ok_def wake_ok_def subs_def)
  next
    case (2 e s1)
    have eq: "prods s1 = prods s" "counted s1 = counted s" "order s1 = order s" "popped s1 = popped s"
      "q_depth s1 = q_depth s" "q_pending s1 = q_pending s" "q_async s1 = q_async s"
      using 2(1) by (auto simp: cb_queue_pop_def split: option.splits)
    show ?thesis using assms(1,2,4) eq le 2(2) by (auto simp: count_ok_def wake_ok_def subs_def)
  qed
qed

lemma wake_loop:
  assumes "count_ok s" "wake_ok s" "queue_ok s'" "loop_step a s = Some (Inr s')" "length (order s) < 2 ^ 63"
  shows "count_ok s' \<and> wake_ok s' \<and> order s' = order s"
proof (cases a)
  case Pop
  then obtain b where "cons_at s = CDrain b" using assms(4) by (auto split: cons_pc.splits)
  with pop_counts [OF assms(1-3)] assms(4) Pop show ?thesis by blast
next
  case Sub
  then obtain b where b: "cons_at s = CSub b" "s' = s\<lparr>q_depth := size_sub (q_depth s) 1, cons_at := CDrain b\<rparr>"
    using assms(4) by (auto split: cons_pc.splits)
  then have "subs s' = Suc (subs s)" using assms(1) by (cases "popped s") (auto simp: count_ok_def subs_def)
  then have "count_ok s'"
    using assms(1) depth_sub [of "q_depth s" "counted s" "subs s"] size_op_bound(2) [of "q_depth s" 1] b
    by (auto simp: count_ok_def)
  then show ?thesis using assms(2) b by (auto simp: wake_ok_def)
next
  case After
  then show ?thesis using assms depth_zero [OF assms(1,5)]
    by (auto simp: count_ok_def wake_ok_def subs_def split: if_splits)
qed (use assms in \<open>auto simp: count_ok_def wake_ok_def subs_def ringing_def split: if_splits\<close>)

lemma wake_run:
  assumes "queue_ok s" "count_ok s" "wake_ok s" "cb_run as s = Some (Inr s')" "length (order s) + length as < 2 ^ 63"
  shows "count_ok s' \<and> wake_ok s' \<and> length (order s') \<le> length (order s) + length as"
  using assms
proof (induction as arbitrary: s)
  case (Cons a as)
  obtain s1 where s1: "cb_step a s = Some (Inr s1)" "cb_run as s1 = Some (Inr s')"
    using Cons.prems(4) by (cases "cb_step a s"; cases "the (cb_step a s)") auto
  have q1: "queue_ok s1" using queue_run [OF Cons.prems(1), of "[a]"] s1(1) by auto
  have "count_ok s1 \<and> wake_ok s1 \<and> length (order s1) \<le> Suc (length (order s))"
  proof (cases a)
    case (ByProducer p b)
    then show ?thesis using s1(1) wake_producer [OF Cons.prems(2,3)] Cons.prems(5) by (auto split: if_splits)
  next
    case (ByLoop b)
    then show ?thesis using s1(1) wake_loop [OF Cons.prems(2,3) q1] Cons.prems(5) by auto
  qed
  with Cons.IH [OF q1 _ _ s1(2)] Cons.prems(5) show ?case by simp
qed simp

lemma wake_init: "count_ok (cb_queue_init n) \<and> wake_ok (cb_queue_init n)"
  by (auto simp: count_ok_def wake_ok_def cb_queue_init_def subs_def)

section \<open>What one wake-up drains\<close>

definition still :: "cb_queue \<Rightarrow> bool" where
  "still s \<longleftrightarrow> (\<forall>pc \<in> set (prods s). pc = PIdle)"

definition rest :: "cb_queue \<Rightarrow> nat list" where
  "rest s = drop (length (popped s)) (order s)"

lemma rest_live: "queue_ok s \<Longrightarrow> rest s = map (\<lambda>n. m_entry (the (q_nodes s n))) (tl (live s))"
  by (simp add: queue_ok_def entries_ok_def rest_def)

lemma order_rest: "queue_ok s \<Longrightarrow> order s = popped s @ rest s"
  by (simp add: rest_live) (simp add: queue_ok_def entries_ok_def)

lemma pop_first:
  assumes "queue_ok s" "still s" "cons_at s = CDrain (Suc b)" "rest s = e # es"
  obtains s1 where "cb_run [ByLoop Pop, ByLoop Sub] s = Some (Inr s1)" "queue_ok s1" "still s1" "cons_at s1 = CDrain b"
    "popped s1 = popped s @ [e]" "rest s1 = es" "order s1 = order s"
    "q_depth s1 = size_sub (q_depth s) 1" "q_pending s1 = q_pending s" "q_async s1 = q_async s"
proof -
  have no: "nodes_ok s" using assms(1) by (simp add: queue_ok_def)
  obtain t n ns where l: "live s = t # n # ns" "m_entry (the (q_nodes s n)) = e"
    using assms(1,4) by (cases "live s"; cases "tl (live s)") (auto simp: rest_live)
  obtain nd where nd: "q_nodes s t = Some nd" "m_next nd = Some n"
    using nodes_okD(1) [OF no] assms(2) l by (fastforce simp: linked_def still_def)
  obtain nb where nb: "q_nodes s n = Some nb" using linked_node [OF nodes_okD(1) [OF no], of n] l by auto
  let ?s = "s\<lparr>q_tailp := n, q_nodes := (q_nodes s)(t := None), live := n # ns, cons_at := CSub b, popped := popped s @ [e]\<rparr>"
  have pop: "loop_step Pop s = Some (Inr ?s)"
    using assms(3) nodes_okD(4) [OF no] l nd nb by (simp add: cb_queue_pop_def)
  from loop_ok [OF assms(1) pop] have ok: "queue_ok ?s" by simp
  let ?s1 = "?s\<lparr>q_depth := size_sub (q_depth s) 1, cons_at := CDrain b\<rparr>"
  have ok1: "queue_ok ?s1" by (rule queue_same [OF ok]) simp_all
  have "order s = (popped s @ [e]) @ es" using order_rest [OF assms(1)] unfolding assms(4) by simp
  then have "rest ?s1 = es" unfolding rest_def by simp
  then show thesis using that [of ?s1] pop ok1 assms(2) by (simp add: still_def)
qed

lemma cb_run_append: "cb_run (as @ bs) s = obind (cb_run as s) (cb_run bs)"
proof (induction as arbitrary: s)
  case (Cons a as)
  then show ?case by (cases "cb_step a s"; cases "the (cb_step a s)") auto
qed simp

lemma pop_many:
  assumes "queue_ok s" "still s" "cons_at s = CDrain (j + b)" "j \<le> length (rest s)"
  shows "\<exists>s1. cb_run (concat (replicate j [ByLoop Pop, ByLoop Sub])) s = Some (Inr s1) \<and> queue_ok s1 \<and> still s1
           \<and> cons_at s1 = CDrain b \<and> popped s1 = popped s @ take j (rest s) \<and> rest s1 = drop j (rest s)
           \<and> order s1 = order s \<and> q_pending s1 = q_pending s \<and> q_async s1 = q_async s"
  using assms
proof (induction j arbitrary: s)
  case (Suc j)
  have c: "cons_at s = CDrain (Suc (j + b))" using Suc.prems(3) by simp
  obtain e es where e: "rest s = e # es" using Suc.prems(4) by (cases "rest s") auto
  obtain s1 where s1: "cb_run [ByLoop Pop, ByLoop Sub] s = Some (Inr s1)" "queue_ok s1" "still s1"
    "cons_at s1 = CDrain (j + b)" "popped s1 = popped s @ [e]" "rest s1 = es" "order s1 = order s"
    "q_depth s1 = size_sub (q_depth s) 1" "q_pending s1 = q_pending s" "q_async s1 = q_async s"
    using pop_first [OF Suc.prems(1,2) c e] by blast
  have run: "cb_run ([ByLoop Pop, ByLoop Sub] @ as) s = cb_run as s1" for as
    unfolding cb_run_append s1(1) by simp
  obtain s2 where "cb_run (concat (replicate j [ByLoop Pop, ByLoop Sub])) s1 = Some (Inr s2)" "queue_ok s2" "still s2"
    "cons_at s2 = CDrain b" "popped s2 = popped s1 @ take j (rest s1)" "rest s2 = drop j (rest s1)"
    "order s2 = order s1" "q_pending s2 = q_pending s1" "q_async s2 = q_async s1"
    using Suc.IH [OF s1(2-4)] Suc.prems(4) e s1(6) by auto
  with s1(5-10) e run [of "concat (replicate j [ByLoop Pop, ByLoop Sub])"] show ?case by simp
qed simp

definition wakeup_schedule :: "nat \<Rightarrow> cb_act list" where
  "wakeup_schedule k = [ByLoop Fire, ByLoop Clear]
     @ concat (replicate (min k GOC_CB_DRAIN_BUDGET) [ByLoop Pop, ByLoop Sub]) @ [ByLoop Pop, ByLoop After]
     @ (if GOC_CB_DRAIN_BUDGET < k then [ByLoop RingSelf, ByLoop SendSelf] else [])"

lemma pop_end:
  assumes "queue_ok s" "still s" "cons_at s = CDrain b" "b = 0 \<or> rest s = []"
  shows "loop_step Pop s = Some (Inr (s\<lparr>cons_at := CAfter\<rparr>))"
proof (cases "b = 0")
  case False
  have no: "nodes_ok s" using assms(1) by (simp add: queue_ok_def)
  obtain t where t: "live s = [t]" using assms(1,4) False nodes_okD(1) [OF no]
    by (cases "live s"; cases "tl (live s)") (auto simp: rest_live linked_def)
  obtain nd where "q_nodes s t = Some nd" "m_next nd = None"
    using nodes_okD(1) [OF no] t by (auto simp: linked_def)
  then show ?thesis using False assms(3) nodes_okD(4) [OF no] t by (simp add: cb_queue_pop_def)
qed (use assms in simp)

lemma run_facts:
  assumes "cb_run as (cb_queue_init n) = Some (Inr s)" "length as < 2 ^ 63"
  shows "queue_ok s" "count_ok s" "wake_ok s" "length (order s) \<le> length as"
proof -
  have i: "order (cb_queue_init n) = []" by (simp add: cb_queue_init_def)
  show "queue_ok s" using queue_run [OF queue_init assms(1)] by auto
  have "count_ok s \<and> wake_ok s \<and> length (order s) \<le> length as"
    using wake_run [OF queue_init _ _ assms(1)] wake_init [of n] assms(2) by (simp add: i)
  then show "count_ok s" "wake_ok s" "length (order s) \<le> length as" by simp_all
qed

lemma still_counted:
  assumes "queue_ok s" "count_ok s" "still s" "cons_at s = CIdle \<or> cons_at s = CAfter"
  shows "counted s = subs s \<longleftrightarrow> rest s = []"
proof -
  have "filter uncounted (prods s) = []" using assms(3) by (auto simp: filter_empty_conv still_def)
  then have "counted s = length (order s)" using assms(2) by (simp add: count_ok_def)
  moreover have "subs s = length (popped s)" using assms(4) by (auto simp: subs_def)
  moreover have "length (order s) = length (popped s) + length (rest s)"
    using order_rest [OF assms(1)] by (metis length_append)
  ultimately show ?thesis by simp
qed

lemma queued_rings:
  assumes "queue_ok s" "count_ok s" "wake_ok s" "still s" "cons_at s = CIdle" "rest s \<noteq> []"
  shows "q_async s"
proof -
  have "ringing s" using assms still_counted [OF assms(1,2,4)] by (simp add: wake_ok_def)
  moreover have "PWake 0 \<notin> set (prods s)" "PHwm 0 \<notin> set (prods s)" "PAsync \<notin> set (prods s)"
    using assms(4) by (auto simp: still_def)
  ultimately show ?thesis using assms(3,5) by (auto simp: wake_ok_def ringing_def)
qed

text \<open>The wake-up from its first access to the check for entries left.\<close>

lemma wakeup_until_check:
  assumes "queue_ok s" "still s" "cons_at s = CIdle" "q_async s"
  shows "\<exists>s1. cb_run ([ByLoop Fire, ByLoop Clear]
               @ concat (replicate (min (length (rest s)) GOC_CB_DRAIN_BUDGET) [ByLoop Pop, ByLoop Sub]) @ [ByLoop Pop]) s = Some (Inr s1)
           \<and> queue_ok s1 \<and> still s1 \<and> cons_at s1 = CAfter \<and> popped s1 = popped s @ take GOC_CB_DRAIN_BUDGET (rest s)
           \<and> rest s1 = drop GOC_CB_DRAIN_BUDGET (rest s) \<and> \<not> q_pending s1 \<and> \<not> q_async s1"
proof -
  let ?k = "min (length (rest s)) GOC_CB_DRAIN_BUDGET" and ?b = "GOC_CB_DRAIN_BUDGET - length (rest s)"
  let ?s0 = "s\<lparr>q_async := False, q_pending := False, cons_at := CDrain GOC_CB_DRAIN_BUDGET\<rparr>"
  have q0: "queue_ok ?s0" by (rule queue_same [OF assms(1)]) simp_all
  have r0: "rest ?s0 = rest s" by (simp add: rest_def)
  have "\<exists>s1. cb_run (concat (replicate ?k [ByLoop Pop, ByLoop Sub])) ?s0 = Some (Inr s1) \<and> queue_ok s1 \<and> still s1
           \<and> cons_at s1 = CDrain ?b \<and> popped s1 = popped ?s0 @ take ?k (rest ?s0) \<and> rest s1 = drop ?k (rest ?s0)
           \<and> order s1 = order ?s0 \<and> q_pending s1 = q_pending ?s0 \<and> q_async s1 = q_async ?s0"
    by (rule pop_many [OF q0]) (use assms(2) in \<open>simp_all add: r0 still_def\<close>)
  then obtain s1 where s1: "cb_run (concat (replicate ?k [ByLoop Pop, ByLoop Sub])) ?s0 = Some (Inr s1)" "queue_ok s1"
    "still s1" "cons_at s1 = CDrain ?b" "popped s1 = popped s @ take ?k (rest s)" "rest s1 = drop ?k (rest s)"
    "\<not> q_pending s1" "\<not> q_async s1" unfolding r0 by auto
  have "?b = 0 \<or> rest s1 = []" using s1(6) by auto
  note pop = pop_end [OF s1(2-4) this]
  have enter: "cb_run ([ByLoop Fire, ByLoop Clear] @ as) s = cb_run as ?s0" for as using assms(3,4) by simp
  have "cb_run ([ByLoop Fire, ByLoop Clear] @ concat (replicate ?k [ByLoop Pop, ByLoop Sub]) @ [ByLoop Pop]) s
      = Some (Inr (s1\<lparr>cons_at := CAfter\<rparr>))"
    unfolding enter unfolding cb_run_append s1(1) by (simp add: pop del: loop_step.simps)
  moreover have "queue_ok (s1\<lparr>cons_at := CAfter\<rparr>)" by (rule queue_same [OF s1(2)]) simp_all
  moreover have "take ?k (rest s) = take GOC_CB_DRAIN_BUDGET (rest s)" "drop ?k (rest s) = drop GOC_CB_DRAIN_BUDGET (rest s)"
    by (simp_all add: min_def)
  ultimately show ?thesis using s1(3,5-8) by (intro exI [of _ "s1\<lparr>cons_at := CAfter\<rparr>"]) (simp add: still_def rest_def)
qed

section \<open>Properties\<close>

text \<open>One producer posts entry 7 without interruption: a state for the witnesses.\<close>

definition one_post :: "cb_act list" where
  "one_post = map (ByProducer 0) [Post 7, Xchg, Link, Count, Hwm, Ring, Send]"

definition after_one_post :: cb_queue where
  "after_one_post = \<lparr>q_nodes = [0 \<mapsto> \<lparr>m_next = Some 1, m_entry = 0\<rparr>, 1 \<mapsto> \<lparr>m_next = None, m_entry = 7\<rparr>],
     q_fresh = 2, q_headp = 1, q_tailp = 0, q_depth = 1, q_hwm = 1, q_pending = True, q_async = True,
     prods = [PIdle], cons_at = CIdle, order = [7], popped = [], live = [0, 1], counted = 1\<rparr>"

lemma run_one_post: "cb_run one_post (cb_queue_init 1) = Some (Inr after_one_post)"
  by (simp add: one_post_def after_one_post_def cb_queue_init_def size_add_def Let_def fun_upd_twist)

text \<open>
  C23: Under every schedule of any number of producers and the loop thread, no freed node is
  accessed, and the entries the loop thread has taken are, each once and in order, the first of
  the entries the producers have exchanged in; the others are all still queued.
\<close>

theorem cb_queue_in_order:
  assumes "cb_run as (cb_queue_init n) = Some r"
  shows "\<exists>s. r = Inr s \<and> order s = popped s @ map (\<lambda>n. m_entry (the (q_nodes s n))) (tl (live s))
           \<and> (\<forall>n \<in> set (live s). q_nodes s n \<noteq> None)"
proof -
  obtain s where s: "r = Inr s" "queue_ok s" using queue_run [OF queue_init assms] by blast
  have "\<forall>n \<in> set (live s). q_nodes s n \<noteq> None"
    using linked_node [OF nodes_okD(1)] s(2) by (fastforce simp: queue_ok_def)
  with s order_rest [OF s(2)] rest_live [OF s(2)] show ?thesis by metis
qed

theorem cb_queue_in_order_witness:
  "\<exists>s. Inr after_one_post = (Inr s :: cb_queue res) \<and> order s = popped s @ map (\<lambda>n. m_entry (the (q_nodes s n))) (tl (live s))
     \<and> (\<forall>n \<in> set (live s). q_nodes s n \<noteq> None)"
  by (rule cb_queue_in_order [OF run_one_post])

text \<open>
  C22: No wake-up is lost: when every producer has returned and the loop thread is back in libuv,
  entries still queued mean that a wake-up is outstanding, although queue and depth are updated
  separately and the depth may have passed below zero in between.
\<close>

theorem no_lost_wakeup:
  assumes "cb_run as (cb_queue_init n) = Some (Inr s)" "length as < 2 ^ 63"
    and "\<forall>pc \<in> set (prods s). pc = PIdle" "cons_at s = CIdle" "popped s \<noteq> order s"
  shows "q_async s"
proof -
  note f = run_facts [OF assms(1,2)]
  have "still s" using assms(3) by (simp add: still_def)
  moreover have "rest s \<noteq> []" using order_rest [OF f(1)] assms(5) by auto
  ultimately show ?thesis using queued_rings [OF f(1-3)] assms(4) by blast
qed

theorem no_lost_wakeup_witness:
  "cb_run one_post (cb_queue_init 1) = Some (Inr after_one_post) \<and> popped after_one_post \<noteq> order after_one_post
     \<and> q_async after_one_post"
proof -
  have "length one_post < 2 ^ 63" "\<forall>pc \<in> set (prods after_one_post). pc = PIdle" "cons_at after_one_post = CIdle"
    "popped after_one_post \<noteq> order after_one_post"
    by (simp_all add: one_post_def after_one_post_def)
  with no_lost_wakeup [OF run_one_post] run_one_post show ?thesis by blast
qed

text \<open>
  C32: One wake-up, undisturbed by producers, hands out the oldest entries up to the budget of 512
  in order, and rings again exactly when entries are left.
\<close>

theorem wakeup_drains_budget:
  assumes "cb_run as (cb_queue_init n) = Some (Inr s)" "length as < 2 ^ 62"
    and "\<forall>pc \<in> set (prods s). pc = PIdle" "cons_at s = CIdle" "order s = popped s @ es" "es \<noteq> []"
  shows "\<exists>s1. cb_run (wakeup_schedule (length es)) s = Some (Inr s1) \<and> cons_at s1 = CIdle
           \<and> popped s1 = popped s @ take GOC_CB_DRAIN_BUDGET es
           \<and> q_async s1 = (GOC_CB_DRAIN_BUDGET < length es)"
proof -
  let ?as = "[ByLoop Fire, ByLoop Clear] @ concat (replicate (min (length (rest s)) GOC_CB_DRAIN_BUDGET) [ByLoop Pop, ByLoop Sub]) @ [ByLoop Pop]"
  have l: "length as < 2 ^ 63" using assms(2) by simp
  note f = run_facts [OF assms(1) l]
  have st: "still s" using assms(3) by (simp add: still_def)
  have r: "rest s = es" using assms(5) by (simp add: rest_def)
  have "q_async s" using queued_rings [OF f(1-3) st assms(4)] r assms(6) by blast
  then obtain s1 where s1: "cb_run ?as s = Some (Inr s1)" "queue_ok s1" "still s1" "cons_at s1 = CAfter"
    "popped s1 = popped s @ take GOC_CB_DRAIN_BUDGET es" "rest s1 = drop GOC_CB_DRAIN_BUDGET es" "\<not> q_pending s1" "\<not> q_async s1"
    using wakeup_until_check [OF f(1) st assms(4)] unfolding r by blast
  have "length ?as \<le> 2000" by (simp add: GOC_CB_DRAIN_BUDGET_def length_concat sum_list_replicate)
  moreover have "length as + 2000 < 2 ^ 63" using assms(2) by simp
  ultimately have b: "length (order s) + length ?as < 2 ^ 63" using f(4) by linarith
  have c: "count_ok s1" "length (order s1) < 2 ^ 63" using wake_run [OF f(1-3) s1(1) b] b by linarith+
  have d: "0 < q_depth s1 \<longleftrightarrow> GOC_CB_DRAIN_BUDGET < length es"
    using depth_zero [OF c] still_counted [OF s1(2) c(1) s1(3)] s1(4,6) by auto
  have "wakeup_schedule (length es) = ?as @ [ByLoop After]
      @ (if GOC_CB_DRAIN_BUDGET < length es then [ByLoop RingSelf, ByLoop SendSelf] else [])"
    by (simp add: wakeup_schedule_def r)
  then have "cb_run (wakeup_schedule (length es)) s = cb_run ([ByLoop After]
      @ (if GOC_CB_DRAIN_BUDGET < length es then [ByLoop RingSelf, ByLoop SendSelf] else [])) s1"
    by (simp only: cb_run_append [of ?as] s1(1)) simp
  then show ?thesis using d s1(4,5,7,8) by simp
qed

theorem wakeup_drains_budget_witness:
  "\<exists>s1. cb_run (wakeup_schedule (length [7::nat])) after_one_post = Some (Inr s1) \<and> cons_at s1 = CIdle
     \<and> popped s1 = popped after_one_post @ take GOC_CB_DRAIN_BUDGET [7]
     \<and> q_async s1 = (GOC_CB_DRAIN_BUDGET < length [7::nat])"
  by (rule wakeup_drains_budget [OF run_one_post]) (simp_all add: one_post_def after_one_post_def)

section \<open>The depth below zero\<close>

text \<open>
  The depth is raised after the node is linked, so the loop thread can lower it first. With two
  producers caught between link and count it wraps, and a third one records \<open>SIZE_MAX\<close> as the
  high-water mark.
\<close>

lemma hwm_wraps:
  "\<exists>s. cb_run (map (ByProducer 0) [Post 1, Xchg, Link, Count, Hwm, Ring, Send] @ map ByLoop [Fire, Clear]
         @ map (ByProducer 1) [Post 2, Xchg, Link] @ map (ByProducer 2) [Post 3, Xchg, Link]
         @ map ByLoop [Pop, Sub, Pop, Sub, Pop, Sub] @ map (ByProducer 1) [Count, Hwm]) (cb_queue_init 3) = Some (Inr s)
       \<and> q_hwm s = 2 ^ 64 - 1"
  by (simp add: cb_queue_init_def cb_queue_pop_def size_add_def size_sub_def Let_def GOC_CB_DRAIN_BUDGET_def numeral_2_eq_2 numeral_3_eq_3)
    (simp flip: numeral_2_eq_2)

end
