(* ===== verification/Goc_Pool.thy ===== *)
theory Goc_Pool
  imports Goc_Wsdq
begin

text \<open>
  The fiber scheduler (pool.c) and the launching of fibers (fiber.c): the workers' loop, the posting
  of runnable fibers, the throttling of spawns and the shutdown of a pool. Workers, fibers running
  on them and threads outside the pool take steps in any order. A step is one access to a queue, a
  flag or a counter together with the thread's own bookkeeping; what happens under \<open>drain_mutex\<close> and
  the pushes that follow it are one step, the wake-up after a push to an injector is another. A
  queue operation is taken in one piece (what its parts do when interleaved is the subject of
  Goc\_Wsdq\_Props). A fiber is known by the number of its entry; what it computes is not modelled,
  only when it posts, spawns, suspends and ends. libuv's part is its contract: \<open>uv_async_send\<close> on an
  open handle succeeds and makes the owner's next or current \<open>uv_run\<close> return; the tests of
  \<open>worker_try_wakeup\<close> and the send are one step. \<open>goc_pool_make\<close> returns when all workers are idle; here a
  schedule may start before that.
\<close>

section \<open>State\<close>

definition STEAL_BACKOFF_THRESHOLD :: nat where
  "STEAL_BACKOFF_THRESHOLD = 8"

text \<open>
  Where a worker is in \<open>pool_worker_fn\<close>: at the test of \<open>shutdown\<close>; before the pop of its own deque, of
  its injector, the steal from the last victim, the \<open>k\<close>-th steal of a scan; about to become idle and
  to be counted as such; at the two pops after that; in \<open>uv_run\<close>; in a fiber; out of the loop.
\<close>

datatype worker_pc =
  WTop | WPop | WInject | WHint | WScan nat nat | WIdle | WCount | WRecheck | WRecheckInj | WSleep
| WRun ptr | WExit

text \<open>
  \<open>w_wakeup\<close>: the handle was sent to and libuv has not yet called \<open>worker_wakeup_cb\<close>. \<open>task_queue\<close> has
  the newest task first; \<open>tasks_in\<close> and \<open>tasks_run\<close> record the tasks accepted and run.
\<close>

record goc_worker =
  w_deque :: goc_wsdq
  w_injector :: goc_injector
  w_wakeup :: bool
  w_closing :: bool
  last_steal_victim :: nat
  miss_streak :: nat
  w_seed :: "32 word"
  active_io_handles :: nat
  task_queue :: "(nat \<times> ptr) list"
  pending_handle_tasks :: nat
  tasks_in :: "(nat \<times> ptr) list"
  tasks_run :: "(nat \<times> ptr) list"
  w_pc :: worker_pc

record goc_spawn_req =
  sr_fn :: nat
  sr_arg :: ptr
  sr_join :: nat
  sr_home :: nat

text \<open>
  The part of a fiber's entry that the scheduler uses; \<open>fb_ext\<close> says that a thread outside the pool
  asked for it.
\<close>

record goc_fiber =
  fb_req :: goc_spawn_req
  fb_home :: nat
  fb_ext :: bool

text \<open>
  A thread in \<open>post_on_handle_loop\<close>: it has found the worker open, or it has queued the task and not
  yet woken the worker.
\<close>

datatype poster = Tested nat "nat \<times> ptr" | Queued nat

text \<open>
  Entry \<open>k\<close> belongs to the \<open>k\<close>-th fiber, counted from 1. The deferred requests are a list, whose last
  element the code also keeps a pointer to. \<open>waking\<close> are the workers that some thread has pushed an
  entry to and not yet woken, \<open>posters\<close> the threads handing over a task; \<open>destroyer\<close> is the number of
  workers \<open>goc_pool_destroy\<close> has woken.
  For the properties: \<open>alive\<close> are the fibers created and not ended, \<open>posted\<close> and \<open>started\<close> the entries
  posted and picked up, \<open>asked\<close> the requests of threads outside the pool and \<open>asked_in\<close> those of
  fibers of the pool, \<open>joined\<close> the join channels closed.
\<close>

record goc_pool =
  workers :: "goc_worker list"
  max_live_fibers :: nat
  idle_count :: nat
  next_push_idx :: nat
  pool_shutdown :: bool
  live_count :: nat
  resident_count :: nat
  pending_spawn :: "goc_spawn_req list"
  fibers :: "goc_fiber list"
  waking :: "nat list"
  posters :: "poster list"
  destroyer :: "nat option"
  alive :: "ptr list"
  posted :: "ptr list"
  started :: "ptr list"
  asked :: "goc_spawn_req list"
  asked_in :: "goc_spawn_req list"
  joined :: "nat list"

definition upd_worker :: "nat \<Rightarrow> (goc_worker \<Rightarrow> goc_worker) \<Rightarrow> goc_pool \<Rightarrow> goc_pool" where
  "upd_worker i f p = p\<lparr>workers := (workers p)[i := f (workers p ! i)]\<rparr>"

definition goto :: "nat \<Rightarrow> worker_pc \<Rightarrow> goc_pool \<Rightarrow> goc_pool" where
  "goto i pc p = upd_worker i (\<lambda>w. w\<lparr>w_pc := pc\<rparr>) p"

text \<open>An operation on the deque or the injector of worker \<open>i\<close>.\<close>

definition with_deque :: "nat \<Rightarrow> (goc_wsdq \<Rightarrow> ('a \<times> goc_wsdq) res) \<Rightarrow> goc_pool \<Rightarrow> ('a \<times> goc_pool) res" where
  "with_deque i f p =
     rbind (lread (workers p) i) (\<lambda>w.
     rbind (f (w_deque w)) (\<lambda>(r, q). Inr (r, upd_worker i (\<lambda>w. w\<lparr>w_deque := q\<rparr>) p)))"

definition with_injector :: "nat \<Rightarrow> (goc_injector \<Rightarrow> ('a \<times> goc_injector) res) \<Rightarrow> goc_pool \<Rightarrow> ('a \<times> goc_pool) res" where
  "with_injector i f p =
     rbind (lread (workers p) i) (\<lambda>w.
     rbind (f (w_injector w)) (\<lambda>(r, q). Inr (r, upd_worker i (\<lambda>w. w\<lparr>w_injector := q\<rparr>) p)))"

definition new_worker :: "nat \<Rightarrow> nat \<Rightarrow> goc_wsdq \<Rightarrow> goc_worker" where
  "new_worker addr i dq = \<lparr>w_deque = dq, w_injector = injector_init, w_wakeup = False, w_closing = False,
     last_steal_victim = SIZE_MAX, miss_streak = 0, w_seed = word_of_nat (i XOR addr),
     active_io_handles = 0, task_queue = [], pending_handle_tasks = 0, tasks_in = [], tasks_run = [],
     w_pc = WTop\<rparr>"

text \<open>
  \<open>goc_pool_make\<close>; the addresses of the worker records, which seed the victim choice, and the
  default cap, which depends on the environment and the memory size, are arguments.
\<close>

definition goc_pool_make :: "(nat \<Rightarrow> nat) \<Rightarrow> nat \<Rightarrow> nat \<Rightarrow> goc_pool res" where
  "goc_pool_make addr cap threads =
     rbind (wsdq_init 256) (\<lambda>dq.
     Inr \<lparr>workers = map (\<lambda>i. new_worker (addr i) i dq) [0..<threads], max_live_fibers = cap, idle_count = 0,
          next_push_idx = 0, pool_shutdown = False, live_count = 0, resident_count = 0, pending_spawn = [],
          fibers = [], waking = [], posters = [], destroyer = None, alive = [], posted = [], started = [], asked = [],
          asked_in = [], joined = []\<rparr>)"

section \<open>Posting\<close>

definition worker_try_wakeup :: "nat \<Rightarrow> goc_pool \<Rightarrow> goc_pool" where
  "worker_try_wakeup i p =
     (if w_closing (workers p ! i) then p else upd_worker i (\<lambda>w. w\<lparr>w_wakeup := True\<rparr>) p)"

definition neighbor :: "nat \<Rightarrow> goc_pool \<Rightarrow> nat" where
  "neighbor i p = (i + 1) mod length (workers p)"

text \<open>A push to the poster's own deque, with the wake-up of an idle peer.\<close>

definition push_local :: "nat \<Rightarrow> ptr \<Rightarrow> goc_pool \<Rightarrow> goc_pool res" where
  "push_local i e p =
     rbind (with_deque i (\<lambda>q. rbind (wsdq_push_bottom e q) (\<lambda>q1. Inr ((), q1))) p) (\<lambda>(_, p1).
     let p2 = p1\<lparr>posted := posted p1 @ [e]\<rparr> in
     Inr (if 1 < length (workers p2) \<and> 0 < idle_count p2 then worker_try_wakeup (neighbor i p2) p2 else p2))"

text \<open>A push to another worker's injector; the wake-up is a step of its own.\<close>

definition push_remote :: "nat \<Rightarrow> ptr \<Rightarrow> goc_pool \<Rightarrow> goc_pool res" where
  "push_remote i e p =
     rbind (with_injector i (\<lambda>q. rbind (injector_push e q) (\<lambda>q1. Inr ((), q1))) p) (\<lambda>(_, p1).
     Inr (p1\<lparr>posted := posted p1 @ [e], waking := waking p1 @ [i]\<rparr>))"

text \<open>\<open>cur\<close> is \<open>tl_worker\<close>: the worker of this pool that the caller runs on, if any.\<close>

definition post_to_run_queue :: "nat option \<Rightarrow> ptr \<Rightarrow> goc_pool \<Rightarrow> goc_pool res" where
  "post_to_run_queue cur e p =
     (case cur of
        Some i \<Rightarrow> push_local i e p
      | None \<Rightarrow>
          push_remote (next_push_idx p mod length (workers p)) e
            (p\<lparr>next_push_idx := size_add (next_push_idx p) 1\<rparr>))"

definition post_to_specific_worker :: "nat option \<Rightarrow> nat \<Rightarrow> ptr \<Rightarrow> goc_pool \<Rightarrow> goc_pool res" where
  "post_to_specific_worker cur i e p =
     (if length (workers p) \<le> i \<or> e = NULL then Inl (Abort ''post_to_specific_worker: invalid arguments'')
      else if cur = Some i then push_local i e p
      else push_remote i e p)"

text \<open>The wake-up after a push to an injector.\<close>

definition wake_pushed :: "nat \<Rightarrow> goc_pool \<Rightarrow> goc_pool out" where
  "wake_pushed k p =
     (if k < length (waking p)
      then let i = waking p ! k; p1 = p\<lparr>waking := take k (waking p) @ drop (Suc k) (waking p)\<rparr> in
           Some (Inr (if pool_shutdown p then p1 else worker_try_wakeup i p1))
      else None)"

text \<open>
  \<open>post_on_handle_loop\<close>, a task for the loop of worker \<open>i\<close>, in three parts between which the worker may
  close its loop: the tests, after which the caller gets \<open>UV_ECANCELED\<close>; the counting and the push; and
  the wake-up, whose failure aborts the process.
\<close>

definition handle_test :: "nat \<Rightarrow> nat \<times> ptr \<Rightarrow> goc_pool \<Rightarrow> goc_pool" where
  "handle_test i t p =
     (if pool_shutdown p \<or> w_closing (workers p ! i) then p else p\<lparr>posters := posters p @ [Tested i t]\<rparr>)"

definition handle_push :: "nat \<Rightarrow> goc_pool \<Rightarrow> goc_pool out" where
  "handle_push k p =
     (if k < length (posters p)
      then case posters p ! k of
             Tested i t \<Rightarrow>
               Some (Inr ((upd_worker i (\<lambda>w. w\<lparr>task_queue := t # task_queue w,
                 pending_handle_tasks := pending_handle_tasks w + 1, tasks_in := tasks_in w @ [t]\<rparr>) p)
                 \<lparr>posters := (posters p)[k := Queued i]\<rparr>))
           | Queued i \<Rightarrow> None
      else None)"

definition handle_wake :: "nat \<Rightarrow> goc_pool \<Rightarrow> goc_pool out" where
  "handle_wake k p =
     (if k < length (posters p)
      then case posters p ! k of
             Queued i \<Rightarrow>
               let p1 = p\<lparr>posters := take k (posters p) @ drop (Suc k) (posters p)\<rparr> in
               Some (if w_closing (workers p ! i) then Inl (Abort ''post_on_handle_loop: cannot wake worker loop'')
                     else Inr (worker_try_wakeup i p1))
           | Tested i t \<Rightarrow> None
      else None)"

definition goc_worker_io_handle_opened :: "nat option \<Rightarrow> goc_pool \<Rightarrow> goc_pool" where
  "goc_worker_io_handle_opened cur p =
     (case cur of
        None \<Rightarrow> p
      | Some i \<Rightarrow> upd_worker i (\<lambda>w. w\<lparr>active_io_handles := size_add (active_io_handles w) 1\<rparr>) p)"

definition goc_worker_io_handle_closed :: "nat option \<Rightarrow> goc_pool \<Rightarrow> goc_pool res" where
  "goc_worker_io_handle_closed cur p =
     (case cur of
        None \<Rightarrow> Inr p
      | Some i \<Rightarrow>
          if 0 < active_io_handles (workers p ! i)
          then Inr (upd_worker i (\<lambda>w. w\<lparr>active_io_handles := size_sub (active_io_handles w) 1\<rparr>) p)
          else Inl (Abort ''goc_worker_io_handle_closed called with no active IO handles''))"

section \<open>Spawning\<close>

definition pool_spawn_cap_reached_locked :: "goc_pool \<Rightarrow> bool" where
  "pool_spawn_cap_reached_locked p \<longleftrightarrow> max_live_fibers p \<noteq> 0 \<and> max_live_fibers p \<le> resident_count p"

definition pool_enqueue_spawn_locked :: "goc_spawn_req \<Rightarrow> goc_pool \<Rightarrow> goc_pool" where
  "pool_enqueue_spawn_locked r p = p\<lparr>pending_spawn := pending_spawn p @ [r]\<rparr>"

function pool_collect_admitted_spawns_locked :: "goc_pool \<Rightarrow> goc_spawn_req list \<times> goc_pool" where
  "pool_collect_admitted_spawns_locked p =
     (case pending_spawn p of
        [] \<Rightarrow> ([], p)
      | r # rs \<Rightarrow>
          if pool_spawn_cap_reached_locked p then ([], p)
          else case pool_collect_admitted_spawns_locked
                 (p\<lparr>pending_spawn := rs, resident_count := size_add (resident_count p) 1\<rparr>) of
                 (adm, p1) \<Rightarrow> (r # adm, p1))"
  by auto
termination
  by (relation "measure (\<lambda>p. length (pending_spawn p))") auto

declare pool_collect_admitted_spawns_locked.simps [simp del]

text \<open>
  \<open>goc_fiber_entry_create\<close>: the entry comes cleared from the collector, so that its home worker is
  0. Creating the coroutine succeeds; the code aborts otherwise.
\<close>

definition goc_fiber_entry_create :: "bool \<Rightarrow> goc_spawn_req \<Rightarrow> goc_pool \<Rightarrow> ptr \<times> goc_pool" where
  "goc_fiber_entry_create ext r p =
     (let e = Suc (length (fibers p)) in
      (e, p\<lparr>fibers := fibers p @ [\<lparr>fb_req = r, fb_home = 0, fb_ext = ext\<rparr>], alive := alive p @ [e]\<rparr>))"

definition set_home :: "ptr \<Rightarrow> nat \<Rightarrow> goc_pool \<Rightarrow> goc_pool" where
  "set_home e h p = p\<lparr>fibers := (fibers p)[e - 1 := (fibers p ! (e - 1))\<lparr>fb_home := h\<rparr>]\<rparr>"

fun pool_dispatch_spawn_list :: "nat option \<Rightarrow> goc_spawn_req list \<Rightarrow> goc_pool \<Rightarrow> goc_pool res" where
  "pool_dispatch_spawn_list cur [] p = Inr p"
| "pool_dispatch_spawn_list cur (r # rs) p =
     (case goc_fiber_entry_create True r p of (e, p1) \<Rightarrow>
      rbind (if sr_home r \<noteq> SIZE_MAX
             then post_to_specific_worker cur (sr_home r) e (set_home e (sr_home r) p1)
             else post_to_run_queue cur e p1)
        (pool_dispatch_spawn_list cur rs))"

text \<open>The common part of the two submissions: \<open>post\<close> puts a fiber created at once on a queue.\<close>

definition submit_spawn ::
  "nat option \<Rightarrow> goc_spawn_req \<Rightarrow> (ptr \<Rightarrow> goc_pool \<Rightarrow> goc_pool res) \<Rightarrow> goc_pool \<Rightarrow> goc_pool res" where
  "submit_spawn cur r post p =
     (let bypass_throttle = (cur \<noteq> None);
          p1 = p\<lparr>live_count := size_add (live_count p) 1, asked := (if bypass_throttle then asked p else asked p @ [r]),
                 asked_in := (if bypass_throttle then asked_in p @ [r] else asked_in p)\<rparr>
      in if bypass_throttle \<or> pending_spawn p1 = [] \<and> \<not> pool_spawn_cap_reached_locked p1
         then let p2 = p1\<lparr>resident_count := size_add (resident_count p1) 1\<rparr> in
              case goc_fiber_entry_create (\<not> bypass_throttle) r p2 of (e, p3) \<Rightarrow> post e p3
         else case pool_collect_admitted_spawns_locked (pool_enqueue_spawn_locked r p1) of (adm, p2) \<Rightarrow>
              pool_dispatch_spawn_list cur adm p2)"

definition pool_submit_spawn :: "nat option \<Rightarrow> nat \<Rightarrow> ptr \<Rightarrow> nat \<Rightarrow> goc_pool \<Rightarrow> goc_pool res" where
  "pool_submit_spawn cur fn arg j p =
     submit_spawn cur \<lparr>sr_fn = fn, sr_arg = arg, sr_join = j, sr_home = SIZE_MAX\<rparr> (post_to_run_queue cur) p"

definition pool_submit_spawn_to_worker ::
  "nat option \<Rightarrow> nat \<Rightarrow> nat \<Rightarrow> ptr \<Rightarrow> nat \<Rightarrow> goc_pool \<Rightarrow> goc_pool res" where
  "pool_submit_spawn_to_worker cur i fn arg j p =
     submit_spawn cur \<lparr>sr_fn = fn, sr_arg = arg, sr_join = j, sr_home = i\<rparr>
       (\<lambda>e q. post_to_specific_worker cur i e (set_home e i q)) p"

section \<open>The workers' loop\<close>

text \<open>
  \<open>drain_worker_tasks\<close>: the list is taken as a whole, reversed, and run in that order. libuv calls
  it, through \<open>worker_wakeup_cb\<close>, when the handle was sent to.
\<close>

definition drain_worker_tasks :: "goc_worker \<Rightarrow> goc_worker" where
  "drain_worker_tasks w =
     w\<lparr>task_queue := [], tasks_run := tasks_run w @ rev (task_queue w),
       pending_handle_tasks := pending_handle_tasks w - length (task_queue w)\<rparr>"

definition deliver :: "nat \<Rightarrow> goc_pool \<Rightarrow> goc_pool" where
  "deliver i p = upd_worker i (\<lambda>w. if w_wakeup w then drain_worker_tasks (w\<lparr>w_wakeup := False\<rparr>) else w) p"

definition pick_up :: "nat \<Rightarrow> ptr \<Rightarrow> goc_pool \<Rightarrow> goc_pool" where
  "pick_up i e p = (goto i (WRun e) p)\<lparr>started := started p @ [e]\<rparr>"

definition next_seed :: "32 word \<Rightarrow> 32 word" where
  "next_seed s = (let a = s XOR push_bit 13 s; b = a XOR drop_bit 17 a in b XOR push_bit 5 b)"

definition steal_offset :: "nat \<Rightarrow> 32 word \<Rightarrow> nat" where
  "steal_offset n s = 1 + unat (s mod word_of_nat (n - 1))"

definition start_scan :: "nat \<Rightarrow> goc_pool \<Rightarrow> goc_pool" where
  "start_scan i p = upd_worker i (\<lambda>w. let s = next_seed (w_seed w) in
     w\<lparr>w_seed := s, w_pc := WScan (steal_offset (length (workers p)) s) 0\<rparr>) p"

definition miss :: "nat \<Rightarrow> goc_pool \<Rightarrow> goc_pool" where
  "miss i p = upd_worker i (\<lambda>w. w\<lparr>miss_streak := (miss_streak w + 1) mod 2 ^ 32\<rparr>) p"

definition hit :: "nat \<Rightarrow> nat \<Rightarrow> goc_pool \<Rightarrow> goc_pool" where
  "hit i v p = upd_worker i (\<lambda>w. w\<lparr>last_steal_victim := v, miss_streak := 0\<rparr>) p"

definition no_miss :: "nat \<Rightarrow> goc_pool \<Rightarrow> goc_pool" where
  "no_miss i p = upd_worker i (\<lambda>w. w\<lparr>miss_streak := 0\<rparr>) p"

text \<open>An attempt to steal from \<open>v\<close>; \<open>next\<close> is where a miss leads.\<close>

definition steal_from :: "nat \<Rightarrow> nat \<Rightarrow> (goc_pool \<Rightarrow> goc_pool) \<Rightarrow> goc_pool \<Rightarrow> goc_pool out" where
  "steal_from i v next p =
     obind (Some (with_deque v wsdq_steal_top p)) (\<lambda>(e, p1).
     Some (Inr (if e \<noteq> NULL then pick_up i e (hit i v p1) else next (miss i p1))))"

definition worker_step :: "nat \<Rightarrow> goc_pool \<Rightarrow> goc_pool out" where
  "worker_step i p =
     (let w = workers p ! i; n = length (workers p) in
      case w_pc w of
        WTop \<Rightarrow> Some (Inr (if pool_shutdown p then upd_worker i (\<lambda>w. drain_worker_tasks (w\<lparr>w_closing := True, w_pc := WExit\<rparr>)) p
                          else goto i WPop p))
      | WPop \<Rightarrow>
          obind (Some (with_deque i wsdq_pop_bottom p)) (\<lambda>(e, p1).
          Some (Inr (if e \<noteq> NULL then pick_up i e (no_miss i p1) else goto i WInject p1)))
      | WInject \<Rightarrow>
          obind (Some (with_injector i injector_pop p)) (\<lambda>(e, p1).
          Some (Inr (if e \<noteq> NULL then pick_up i e (no_miss i p1)
                     else goto i (if 1 < n \<and> miss_streak w < STEAL_BACKOFF_THRESHOLD then WHint else WIdle) p1)))
      | WHint \<Rightarrow>
          (let v = last_steal_victim w in
           if v \<noteq> SIZE_MAX \<and> v \<noteq> i then steal_from i v (start_scan i) p else Some (Inr (start_scan i p)))
      | WScan off k \<Rightarrow>
          (let v = (i + off + k) mod n in
           if n \<le> k then Some (Inr (upd_worker i (\<lambda>w. w\<lparr>last_steal_victim := SIZE_MAX, w_pc := WIdle\<rparr>) p))
           else if v = i then Some (Inr (goto i (WScan off (Suc k)) p))
           else steal_from i v (goto i (WScan off (Suc k))) p)
      | WIdle \<Rightarrow>
          Some (Inr (goto i WCount
            (if 1 < n \<and> \<not> pool_shutdown p \<and> 0 < wsdq_approx_size (w_deque w) \<and> 0 < idle_count p
             then worker_try_wakeup (neighbor i p) p else p)))
      | WCount \<Rightarrow> Some (Inr (goto i WRecheck (p\<lparr>idle_count := size_add (idle_count p) 1\<rparr>)))
      | WRecheck \<Rightarrow>
          obind (Some (with_deque i wsdq_pop_bottom p)) (\<lambda>(e, p1).
          Some (Inr (if e \<noteq> NULL then pick_up i e (p1\<lparr>idle_count := size_sub (idle_count p1) 1\<rparr>)
                     else goto i WRecheckInj p1)))
      | WRecheckInj \<Rightarrow>
          obind (Some (with_injector i injector_pop p)) (\<lambda>(e, p1).
          Some (Inr (if e \<noteq> NULL then pick_up i e (p1\<lparr>idle_count := size_sub (idle_count p1) 1\<rparr>)
                     else goto i WSleep p1)))
      | WSleep \<Rightarrow>
          if w_wakeup w
          then Some (Inr (goto i WTop (no_miss i ((deliver i p)\<lparr>idle_count := size_sub (idle_count p) 1\<rparr>))))
          else None
      | WRun e \<Rightarrow> None
      | WExit \<Rightarrow> None)"

text \<open>An I/O event of the worker's loop, without a wake-up.\<close>

definition io_event :: "nat \<Rightarrow> goc_pool \<Rightarrow> goc_pool out" where
  "io_event i p =
     (if w_pc (workers p ! i) = WSleep
      then Some (Inr (goto i WTop (no_miss i (p\<lparr>idle_count := size_sub (idle_count p) 1\<rparr>)))) else None)"

section \<open>When the fiber returns to the worker\<close>

definition drain_io :: "nat \<Rightarrow> goc_pool \<Rightarrow> goc_pool" where
  "drain_io i p =
     (if 0 < active_io_handles (workers p ! i) \<or> task_queue (workers p ! i) \<noteq> [] then deliver i p else p)"

definition fiber_suspended :: "nat \<Rightarrow> goc_pool \<Rightarrow> goc_pool" where
  "fiber_suspended i p =
     (let p1 = drain_io i p; q = w_deque (workers p1 ! i) in
      goto i WTop
        (if 1 < length (workers p1) \<and> \<not> pool_shutdown p1 \<and> dq_capacity q div 2 < wsdq_approx_size q
            \<and> 0 < idle_count p1 \<and> neighbor i p1 \<noteq> i
         then worker_try_wakeup (neighbor i p1) p1 else p1))"

text \<open>
  \<open>fiber_trampoline\<close> closes the join channel before the coroutine ends; the worker then counts the
  fiber out and admits deferred spawns.
\<close>

definition fiber_dead :: "nat \<Rightarrow> ptr \<Rightarrow> goc_pool \<Rightarrow> goc_pool res" where
  "fiber_dead i e p =
     (let p1 = drain_io i (p\<lparr>joined := joined p @ [sr_join (fb_req (fibers p ! (e - 1)))]\<rparr>);
          p2 = p1\<lparr>resident_count := if 0 < resident_count p1 then size_sub (resident_count p1) 1 else resident_count p1,
                  live_count := size_sub (live_count p1) 1, alive := remove1 e (alive p1)\<rparr>
      in case pool_collect_admitted_spawns_locked p2 of (adm, p3) \<Rightarrow>
         rbind (pool_dispatch_spawn_list (Some i) adm p3) (\<lambda>p4. Inr (goto i WTop p4)))"

section \<open>Destroying a pool\<close>

text \<open>
  The drain of \<open>goc_pool_destroy\<close> is over when no fiber is left; then the flag is set and every worker
  woken, in turn. With a time limit the first step may instead find fibers left and return.
\<close>

definition destroy_begin :: "goc_pool \<Rightarrow> goc_pool out" where
  "destroy_begin p =
     (if destroyer p = None \<and> live_count p = 0
      then Some (Inr (p\<lparr>pool_shutdown := True, destroyer := Some 0\<rparr>)) else None)"

definition destroy_wake :: "goc_pool \<Rightarrow> goc_pool out" where
  "destroy_wake p =
     (case destroyer p of
        None \<Rightarrow> None
      | Some k \<Rightarrow>
          if k < length (workers p)
          then Some (Inr ((worker_try_wakeup k p)\<lparr>destroyer := Some (Suc k)\<rparr>)) else None)"

text \<open>After the threads are joined, the queues are released.\<close>

fun release_queues :: "goc_worker list \<Rightarrow> goc_worker list out" where
  "release_queues [] = Some (Inr [])"
| "release_queues (w # ws) =
     obind (injector_destroy (w_injector w)) (\<lambda>q.
     obind (release_queues ws) (\<lambda>ws1.
     Some (Inr (w\<lparr>w_deque := wsdq_destroy (w_deque w), w_injector := q\<rparr> # ws1))))"

definition destroy_end :: "goc_pool \<Rightarrow> goc_pool out" where
  "destroy_end p =
     (if destroyer p = Some (length (workers p)) \<and> (\<forall>w \<in> set (workers p). w_pc w = WExit)
      then obind (release_queues (workers p)) (\<lambda>ws. Some (Inr (p\<lparr>workers := ws\<rparr>))) else None)"

section \<open>Schedules\<close>

datatype pool_act =
  Step nat | Io nat | Wake nat
| FPost nat ptr | FPostTo nat nat ptr | FSpawn nat nat ptr nat | FSpawnTo nat nat nat ptr nat | FSuspend nat | FEnd nat
| FOpen nat | FClose nat
| EPost ptr | EPostTo nat ptr | ETask nat "nat \<times> ptr" | EPush nat | ESend nat | ESpawn nat ptr nat | ESpawnTo nat nat ptr nat
| DestroyBegin | DestroyWake

text \<open>The fiber that runs on worker \<open>i\<close> takes a step.\<close>

definition in_fiber :: "nat \<Rightarrow> (ptr \<Rightarrow> goc_pool \<Rightarrow> goc_pool res) \<Rightarrow> goc_pool \<Rightarrow> goc_pool out" where
  "in_fiber i f p =
     (if i < length (workers p) then (case w_pc (workers p ! i) of WRun e \<Rightarrow> Some (f e p) | _ \<Rightarrow> None) else None)"

text \<open>Entries posted belong to fibers, and a fiber that ends has not ended before.\<close>

definition is_fiber :: "ptr \<Rightarrow> goc_pool \<Rightarrow> bool" where
  "is_fiber e p \<longleftrightarrow> 0 < e \<and> e \<le> length (fibers p)"

fun pool_step :: "pool_act \<Rightarrow> goc_pool \<Rightarrow> goc_pool out" where
  "pool_step (Step i) p = (if i < length (workers p) then worker_step i p else None)"
| "pool_step (Io i) p = (if i < length (workers p) then io_event i p else None)"
| "pool_step (Wake k) p = wake_pushed k p"
| "pool_step (FPost i x) p = (if is_fiber x p then in_fiber i (\<lambda>_. post_to_run_queue (Some i) x) p else None)"
| "pool_step (FPostTo i j x) p = (if is_fiber x p then in_fiber i (\<lambda>_. post_to_specific_worker (Some i) j x) p else None)"
| "pool_step (FSpawn i fn arg j) p = in_fiber i (\<lambda>_. pool_submit_spawn (Some i) fn arg j) p"
| "pool_step (FSpawnTo i h fn arg j) p = in_fiber i (\<lambda>_. pool_submit_spawn_to_worker (Some i) h fn arg j) p"
| "pool_step (FSuspend i) p = in_fiber i (\<lambda>_ q. Inr (fiber_suspended i q)) p"
| "pool_step (FEnd i) p =
     (case w_pc (workers p ! i) of
        WRun e \<Rightarrow> if i < length (workers p) \<and> e \<in> set (alive p) then Some (fiber_dead i e p) else None
      | _ \<Rightarrow> None)"
| "pool_step (FOpen i) p = in_fiber i (\<lambda>_ q. Inr (goc_worker_io_handle_opened (Some i) q)) p"
| "pool_step (FClose i) p = in_fiber i (\<lambda>_. goc_worker_io_handle_closed (Some i)) p"
| "pool_step (ETask i t) p =
     (if i < length (workers p) then Some (Inr (handle_test i t p)) else None)"
| "pool_step (EPush k) p = handle_push k p"
| "pool_step (ESend k) p = handle_wake k p"
| "pool_step (EPost x) p = (if is_fiber x p then Some (post_to_run_queue None x p) else None)"
| "pool_step (EPostTo j x) p = (if is_fiber x p then Some (post_to_specific_worker None j x p) else None)"
| "pool_step (ESpawn fn arg j) p = Some (pool_submit_spawn None fn arg j p)"
| "pool_step (ESpawnTo h fn arg j) p = Some (pool_submit_spawn_to_worker None h fn arg j p)"
| "pool_step DestroyBegin p = destroy_begin p"
| "pool_step DestroyWake p = destroy_wake p"

fun pool_run :: "pool_act list \<Rightarrow> goc_pool \<Rightarrow> goc_pool out" where
  "pool_run [] p = Some (Inr p)"
| "pool_run (a # as) p = obind (pool_step a p) (pool_run as)"

end
