(* ===== verification/Goc_Pool_Queues.thy ===== *)
theory Goc_Pool_Queues
  imports Goc_Pool Goc_Wsdq_Props
begin

text \<open>
  What the scheduler relies on in its queues, as an interface with three providers: a worker's deque
  seen by the worker, the same deque seen by thieves, and the injector. On top of it, the contents
  of all queues of a pool under the operations of Goc\_Pool.
\<close>

section \<open>The interface\<close>

text \<open>\<open>rel b q xs\<close>: the queue holds \<open>xs\<close> and has room for \<open>b\<close> more puts.\<close>

locale work_queue =
  fixes rel :: "nat \<Rightarrow> 'q \<Rightarrow> ptr list \<Rightarrow> bool"
    and put :: "ptr \<Rightarrow> 'q \<Rightarrow> 'q res"
    and get :: "'q \<Rightarrow> (ptr \<times> 'q) res"
    and pick :: "ptr list \<Rightarrow> ptr"
    and left :: "ptr list \<Rightarrow> ptr list"
  assumes put_ok: "rel (Suc b) q xs \<Longrightarrow> \<exists>q'. put e q = Inr q' \<and> rel b q' (xs @ [e])"
    and get_ok: "rel b q xs \<Longrightarrow> \<exists>q'. get q = Inr (if xs = [] then NULL else pick xs, q') \<and> rel b q' (left xs)"
    and less_room: "\<lbrakk>rel b q xs; c \<le> b\<rbrakk> \<Longrightarrow> rel c q xs"
    and pick_left: "xs \<noteq> [] \<Longrightarrow> mset xs = add_mset (pick xs) (mset (left xs))"
    and left_Nil: "left [] = []"
begin

text \<open>What a caller that tests the result for \<open>NULL\<close> knows, when no entry is \<open>NULL\<close>.\<close>

lemma get_cases:
  assumes "rel b q xs" "NULL \<notin> set xs"
  obtains (none) q' where "get q = Inr (NULL, q')" "xs = []" "rel b q' []"
  | (some) e q' ys where "get q = Inr (e, q')" "e \<noteq> NULL" "mset xs = add_mset e (mset ys)" "rel b q' ys"
      "NULL \<notin> set ys"
proof (cases "xs = []")
  case True
  with get_ok [OF assms(1)] left_Nil none show thesis by auto
next
  case False
  from get_ok [OF assms(1)] False obtain q' where "get q = Inr (pick xs, q')" "rel b q' (left xs)" by auto
  moreover have m: "mset xs = add_mset (pick xs) (mset (left xs))" by (rule pick_left [OF False])
  moreover have "pick xs \<in> set xs" "set (left xs) \<subseteq> set xs"
    using arg_cong [OF m, of set_mset] by auto
  ultimately show thesis using some assms(2) by (metis subsetD)
qed

end

lemma inj_room: "inj_rel k q es \<Longrightarrow> inj_rel j q es"
  by (simp add: inj_rel_def)

interpretation own: work_queue dq_rel wsdq_push_bottom wsdq_pop_bottom last butlast
proof
  fix xs :: "ptr list" assume "xs \<noteq> []"
  then have "mset xs = mset (butlast xs @ [last xs])" by simp
  also have "\<dots> = add_mset (last xs) (mset (butlast xs))" by (simp only: mset_append) simp
  finally show "mset xs = add_mset (last xs) (mset (butlast xs))" .
qed (use push_rel pop_rel dq_mono in auto)

interpretation thief: work_queue dq_rel wsdq_push_bottom wsdq_steal_top hd tl
proof
  fix xs :: "ptr list" assume "xs \<noteq> []"
  then show "mset xs = add_mset (hd xs) (mset (tl xs))" by (cases xs) auto
qed (use push_rel steal_rel dq_mono in auto)

interpretation inject: work_queue inj_rel injector_push injector_pop hd tl
proof
  fix b q xs assume "inj_rel b q xs"
  then show "\<exists>q'. injector_pop q = Inr (if xs = [] then NULL else hd xs, q') \<and> inj_rel b q' (tl xs)"
    by (rule inj_pop_rel [OF inj_room])
next
  fix xs :: "ptr list" assume "xs \<noteq> []"
  then show "mset xs = add_mset (hd xs) (mset (tl xs))" by (cases xs) auto
qed (auto intro: inj_push_rel inj_room)

section \<open>The queues of a pool\<close>

text \<open>\<open>D i\<close> and \<open>J i\<close> are the entries in the deque and the injector of worker \<open>i\<close>.\<close>

definition wk_rel :: "nat \<Rightarrow> goc_worker \<Rightarrow> ptr list \<Rightarrow> ptr list \<Rightarrow> bool" where
  "wk_rel b w ds js \<longleftrightarrow> dq_rel b (w_deque w) ds \<and> inj_rel b (w_injector w) js \<and> NULL \<notin> set ds \<union> set js"

definition queues :: "nat \<Rightarrow> goc_pool \<Rightarrow> (nat \<Rightarrow> ptr list) \<Rightarrow> (nat \<Rightarrow> ptr list) \<Rightarrow> bool" where
  "queues b p D J \<longleftrightarrow> (\<forall>i < length (workers p). wk_rel b (workers p ! i) (D i) (J i))"

definition queued :: "goc_pool \<Rightarrow> (nat \<Rightarrow> ptr list) \<Rightarrow> (nat \<Rightarrow> ptr list) \<Rightarrow> ptr multiset" where
  "queued p D J = (\<Sum>i < length (workers p). mset (D i) + mset (J i))"

lemma upd_worker_simps [simp]:
  "length (workers (upd_worker i f p)) = length (workers p)"
  "i < length (workers p) \<Longrightarrow> workers (upd_worker i f p) ! j = (if j = i then f (workers p ! i) else workers p ! j)"
  "posted (upd_worker i f p) = posted p" "started (upd_worker i f p) = started p"
  "waking (upd_worker i f p) = waking p" "idle_count (upd_worker i f p) = idle_count p"
  "pool_shutdown (upd_worker i f p) = pool_shutdown p" "destroyer (upd_worker i f p) = destroyer p"
  "next_push_idx (upd_worker i f p) = next_push_idx p"
  by (auto simp: upd_worker_def nth_list_update)

lemma queues_mono: "\<lbrakk>queues b p D J; c \<le> b\<rbrakk> \<Longrightarrow> queues c p D J"
  unfolding queues_def wk_rel_def by (blast intro: dq_mono inj_room)

lemma queues_upd:
  assumes "queues b p D J" "i < length (workers p)" "wk_rel b (f (workers p ! i)) ds js"
  shows "queues b (upd_worker i f p) (D(i := ds)) (J(i := js))"
  using assms by (simp add: queues_def)

lemma queues_same:
  assumes "queues b p D J" "workers p' = workers p"
  shows "queues b p' D J"
  using assms by (simp add: queues_def)

text \<open>A change of a worker that leaves its queues alone.\<close>

lemma queues_keep:
  assumes "queues b p D J" "\<And>w. w_deque (f w) = w_deque w \<and> w_injector (f w) = w_injector w"
  shows "queues b (upd_worker i f p) D J"
  using assms by (cases "i < length (workers p)") (auto simp: queues_def wk_rel_def upd_worker_def nth_list_update)

lemma queued_upd:
  assumes "i < length (workers p)"
  shows "queued (upd_worker i f p) (D(i := ds)) (J(i := js)) + mset (D i) + mset (J i)
       = queued p D J + mset ds + mset js"
proof -
  let ?n = "length (workers p)"
  have split: "(\<Sum>k < ?n. g k) = g i + (\<Sum>k \<in> {..<?n} - {i}. g k)" for g :: "nat \<Rightarrow> ptr multiset"
    using assms by (intro sum.remove) auto
  have "(\<Sum>k \<in> {..<?n} - {i}. mset ((D(i := ds)) k) + mset ((J(i := js)) k))
      = (\<Sum>k \<in> {..<?n} - {i}. mset (D k) + mset (J k))" by (rule sum.cong) auto
  then show ?thesis unfolding queued_def upd_worker_simps split by (simp add: ac_simps)
qed

lemma queued_same: "length (workers p') = length (workers p) \<Longrightarrow> queued p' D J = queued p D J"
  by (simp add: queued_def)

text \<open>The two ways to look into a queue of worker \<open>i\<close>.\<close>

lemma deque_get:
  assumes "queues b p D J" "i < length (workers p)"
    and "work_queue dq_rel wsdq_push_bottom get pick left"
  obtains (none) q where "with_deque i get p = Inr (NULL, upd_worker i (\<lambda>w. w\<lparr>w_deque := q\<rparr>) p)" "D i = []"
      "queues b (upd_worker i (\<lambda>w. w\<lparr>w_deque := q\<rparr>) p) D J"
  | (some) e q ds where "with_deque i get p = Inr (e, upd_worker i (\<lambda>w. w\<lparr>w_deque := q\<rparr>) p)" "e \<noteq> NULL"
      "mset (D i) = add_mset e (mset ds)" "queues b (upd_worker i (\<lambda>w. w\<lparr>w_deque := q\<rparr>) p) (D(i := ds)) J"
proof -
  have r: "dq_rel b (w_deque (workers p ! i)) (D i)" "NULL \<notin> set (D i)"
    and j: "inj_rel b (w_injector (workers p ! i)) (J i)" "NULL \<notin> set (J i)"
    using assms(1,2) by (auto simp: queues_def wk_rel_def)
  from r show thesis
  proof (cases rule: work_queue.get_cases [OF assms(3), consumes 2, case_names none some])
    case (none q)
    then show thesis using that(1) [of q] queues_upd [OF assms(1,2), of "\<lambda>w. w\<lparr>w_deque := q\<rparr>" "D i" "J i", unfolded fun_upd_triv] j assms(2)
      by (simp add: with_deque_def wk_rel_def)
  next
    case (some e q ds)
    then show thesis using that(2) [of e q ds] queues_upd [OF assms(1,2), of "\<lambda>w. w\<lparr>w_deque := q\<rparr>" ds "J i"] j assms(2)
      by (simp add: with_deque_def wk_rel_def)
  qed
qed

lemma injector_get:
  assumes "queues b p D J" "i < length (workers p)"
  obtains (none) q where "with_injector i injector_pop p = Inr (NULL, upd_worker i (\<lambda>w. w\<lparr>w_injector := q\<rparr>) p)" "J i = []"
      "queues b (upd_worker i (\<lambda>w. w\<lparr>w_injector := q\<rparr>) p) D J"
  | (some) e q js where "with_injector i injector_pop p = Inr (e, upd_worker i (\<lambda>w. w\<lparr>w_injector := q\<rparr>) p)" "e \<noteq> NULL"
      "mset (J i) = add_mset e (mset js)" "queues b (upd_worker i (\<lambda>w. w\<lparr>w_injector := q\<rparr>) p) D (J(i := js))"
proof -
  have r: "inj_rel b (w_injector (workers p ! i)) (J i)" "NULL \<notin> set (J i)"
    and j: "dq_rel b (w_deque (workers p ! i)) (D i)" "NULL \<notin> set (D i)"
    using assms(1,2) by (auto simp: queues_def wk_rel_def)
  from r show thesis
  proof (cases rule: inject.get_cases)
    case (none q)
    then show thesis using that(1) [of q] queues_upd [OF assms(1,2), of "\<lambda>w. w\<lparr>w_injector := q\<rparr>" "D i" "J i", unfolded fun_upd_triv] j assms(2)
      by (simp add: with_injector_def wk_rel_def)
  next
    case (some e q js)
    then show thesis using that(2) [of e q js] queues_upd [OF assms(1,2), of "\<lambda>w. w\<lparr>w_injector := q\<rparr>" "D i" js] j assms(2)
      by (simp add: with_injector_def wk_rel_def)
  qed
qed

lemma deque_put:
  assumes "queues (Suc b) p D J" "i < length (workers p)" "e \<noteq> NULL"
  obtains q where "with_deque i (\<lambda>q. rbind (wsdq_push_bottom e q) (\<lambda>q1. Inr ((), q1))) p
      = Inr ((), upd_worker i (\<lambda>w. w\<lparr>w_deque := q\<rparr>) p)"
    "queues b (upd_worker i (\<lambda>w. w\<lparr>w_deque := q\<rparr>) p) (D(i := D i @ [e])) J"
proof -
  have r: "dq_rel (Suc b) (w_deque (workers p ! i)) (D i)" "NULL \<notin> set (D i)"
    and j: "inj_rel b (w_injector (workers p ! i)) (J i)" "NULL \<notin> set (J i)"
    using assms(1,2) by (auto simp: queues_def wk_rel_def intro: inj_room)
  have qb: "queues b p D J" by (rule queues_mono [OF assms(1)]) simp
  from own.put_ok [OF r(1), of e] obtain q where
    "wsdq_push_bottom e (w_deque (workers p ! i)) = Inr q" "dq_rel b q (D i @ [e])" by blast
  then show thesis using that [of q] queues_upd [OF qb assms(2), of "\<lambda>w. w\<lparr>w_deque := q\<rparr>" "D i @ [e]" "J i"] r j assms(2,3)
    by (simp add: with_deque_def wk_rel_def)
qed

lemma injector_put:
  assumes "queues b p D J" "i < length (workers p)" "e \<noteq> NULL"
  obtains q where "with_injector i (\<lambda>q. rbind (injector_push e q) (\<lambda>q1. Inr ((), q1))) p
      = Inr ((), upd_worker i (\<lambda>w. w\<lparr>w_injector := q\<rparr>) p)"
    "queues b (upd_worker i (\<lambda>w. w\<lparr>w_injector := q\<rparr>) p) D (J(i := J i @ [e]))"
proof -
  have r: "inj_rel (Suc b) (w_injector (workers p ! i)) (J i)" "NULL \<notin> set (J i)"
    and j: "dq_rel b (w_deque (workers p ! i)) (D i)" "NULL \<notin> set (D i)"
    using assms(1,2) by (auto simp: queues_def wk_rel_def intro: inj_room)
  from inject.put_ok [OF r(1), of e] obtain q where
    "injector_push e (w_injector (workers p ! i)) = Inr q" "inj_rel b q (J i @ [e])" by blast
  then show thesis using that [of q] queues_upd [OF assms(1,2), of "\<lambda>w. w\<lparr>w_injector := q\<rparr>" "D i" "J i @ [e]"] r j assms(2,3)
    by (simp add: with_injector_def wk_rel_def)
qed

end
