(* ===== verification/Goc_Pool_Sched.thy ===== *)
theory Goc_Pool_Sched
  imports Goc_Pool_Queues
begin

text \<open>
  The invariant of the scheduler's queues and workers, and that every step of a worker, every post,
  every wake-up and every step of a shutdown keeps it.
\<close>

section \<open>The invariant of the queues and the workers\<close>

fun is_idle :: "worker_pc \<Rightarrow> bool" where
  "is_idle WRecheck = True"
| "is_idle WRecheckInj = True"
| "is_idle WSleep = True"
| "is_idle _ = False"

text \<open>After a pop of its own deque has failed, until the worker runs a fiber.\<close>

fun own_empty :: "worker_pc \<Rightarrow> bool" where
  "own_empty WTop = False"
| "own_empty WPop = False"
| "own_empty (WRun e) = False"
| "own_empty WExit = False"
| "own_empty _ = True"

text \<open>Between the test of \<open>shutdown\<close> and the next one.\<close>

fun past_check :: "worker_pc \<Rightarrow> bool" where
  "past_check WTop = False"
| "past_check (WRun e) = False"
| "past_check WExit = False"
| "past_check _ = True"

definition tasks_ok :: "goc_worker \<Rightarrow> bool" where
  "tasks_ok w \<longleftrightarrow> tasks_in w = tasks_run w @ rev (task_queue w) \<and> pending_handle_tasks w = length (task_queue w)"

definition wk_ok :: "goc_pool \<Rightarrow> ptr list \<Rightarrow> ptr list \<Rightarrow> nat \<Rightarrow> goc_worker \<Rightarrow> bool" where
  "wk_ok p ds js i w \<longleftrightarrow>
     (own_empty (w_pc w) \<longrightarrow> ds = [])
   \<and> (w_pc w = WSleep \<and> js \<noteq> [] \<and> \<not> pool_shutdown p \<longrightarrow> w_wakeup w \<or> i \<in> set (waking p))
   \<and> (pool_shutdown p \<and> past_check (w_pc w) \<longrightarrow> w_wakeup w \<or> (\<exists>k \<le> i. destroyer p = Some k))
   \<and> (w_closing w \<longleftrightarrow> w_pc w = WExit)
   \<and> (last_steal_victim w = SIZE_MAX \<or> last_steal_victim w < length (workers p))
   \<and> tasks_ok w"

definition pool_ok :: "goc_pool \<Rightarrow> (nat \<Rightarrow> ptr list) \<Rightarrow> (nat \<Rightarrow> ptr list) \<Rightarrow> bool" where
  "pool_ok p D J \<longleftrightarrow>
     workers p \<noteq> [] \<and> length (workers p) < 2 ^ 32 \<and> queues (2 ^ 59 - length (posted p)) p D J
   \<and> mset (posted p) = mset (started p) + queued p D J
   \<and> (\<forall>i < length (workers p). wk_ok p (D i) (J i) i (workers p ! i))
   \<and> idle_count p = length (filter (\<lambda>w. is_idle (w_pc w)) (workers p))
   \<and> set (waking p) \<subseteq> {..<length (workers p)} \<and> (pool_shutdown p \<longleftrightarrow> destroyer p \<noteq> None)"

text \<open>What a worker may see changed by others: its deque shrink, its injector grow, a wake-up.\<close>

definition unmoved :: "goc_worker \<Rightarrow> goc_worker \<Rightarrow> bool" where
  "unmoved w w' \<longleftrightarrow> w_pc w' = w_pc w \<and> (w_wakeup w \<longrightarrow> w_wakeup w') \<and> w_closing w' = w_closing w
     \<and> last_steal_victim w' = last_steal_victim w \<and> (tasks_ok w \<longrightarrow> tasks_ok w')"

lemma unmoved_refl [simp]: "unmoved w w"
  by (simp add: unmoved_def)

lemma wk_ok_unmoved:
  assumes "wk_ok p ds js i w" "unmoved w w'" "ds = [] \<longrightarrow> ds' = []"
    and "js' \<noteq> [] \<longrightarrow> js \<noteq> [] \<or> w_wakeup w' \<or> i \<in> set (waking p')"
    and "i \<in> set (waking p) \<longrightarrow> w_wakeup w' \<or> i \<in> set (waking p')"
    and "pool_shutdown p' = pool_shutdown p" "destroyer p' = destroyer p" "length (workers p') = length (workers p)"
  shows "wk_ok p' ds' js' i w'"
  using assms unfolding wk_ok_def unmoved_def by metis

lemma count_map: "length (filter P xs) = length (filter id (map P xs))"
  by (simp add: filter_map o_def)

text \<open>A step of worker \<open>i\<close>, with the entry it picks up if any.\<close>

lemma pool_ok_step:
  assumes "pool_ok p D J" "i < length (workers p)" "length (workers p') = length (workers p)"
    and "\<And>j. \<lbrakk>j < length (workers p); j \<noteq> i\<rbrakk> \<Longrightarrow> unmoved (workers p ! j) (workers p' ! j)"
    and "\<And>j. \<lbrakk>j \<noteq> i; D j = []\<rbrakk> \<Longrightarrow> D' j = []" "\<And>j. \<lbrakk>j \<noteq> i; J j = []\<rbrakk> \<Longrightarrow> J' j = []"
    and "queues (2 ^ 59 - length (posted p)) p' D' J'"
    and "mset (started p') + queued p' D' J' = mset (started p) + queued p D J"
    and "posted p' = posted p" "waking p' = waking p" "pool_shutdown p' = pool_shutdown p" "destroyer p' = destroyer p"
    and "idle_count p' + (if is_idle (w_pc (workers p ! i)) then 1 else 0)
       = idle_count p + (if is_idle (w_pc (workers p' ! i)) then 1 else 0)"
    and "wk_ok p' (D' i) (J' i) i (workers p' ! i)"
  shows "pool_ok p' D' J'"
proof -
  let ?n = "length (workers p)" and ?f = "\<lambda>w. is_idle (w_pc w)"
  have w: "\<forall>j < ?n. wk_ok p (D j) (J j) j (workers p ! j)" using assms(1) by (simp add: pool_ok_def)
  have "wk_ok p' (D' j) (J' j) j (workers p' ! j)" if "j < ?n" for j
  proof (cases "j = i")
    case False
    show ?thesis
      by (rule wk_ok_unmoved [OF _ assms(4) [OF that False]]) (use w that assms False in auto)
  qed (use assms in simp)
  moreover have "length (filter ?f (workers p')) + (if ?f (workers p ! i) then 1 else 0)
      = length (filter ?f (workers p)) + (if ?f (workers p' ! i) then 1 else 0)"
  proof -
    have "map ?f (workers p') = (map ?f (workers p))[i := ?f (workers p' ! i)]"
    proof (rule nth_equalityI)
      fix k assume "k < length (map ?f (workers p'))"
      then show "map ?f (workers p') ! k = (map ?f (workers p))[i := ?f (workers p' ! i)] ! k"
        using assms(3) assms(4) [of k] by (cases "k = i") (simp_all add: unmoved_def)
    qed (simp add: assms(3))
    then show ?thesis
      using count_update [of i "map ?f (workers p)" id "?f (workers p' ! i)"] assms(2)
      unfolding count_map [of ?f] by (simp only: length_map nth_map id_apply)
  qed
  ultimately show ?thesis using assms by (auto simp: pool_ok_def simp del: length_greater_0_conv)
qed

text \<open>
  The state inside a step of worker \<open>i\<close>: its queue operation is done and its own fields may have
  changed, its place in the loop not yet.
\<close>

definition amid :: "goc_pool \<Rightarrow> nat \<Rightarrow> (nat \<Rightarrow> ptr list) \<Rightarrow> (nat \<Rightarrow> ptr list) \<Rightarrow> goc_pool \<Rightarrow> bool" where
  "amid p i D J q \<longleftrightarrow> i < length (workers p) \<and> length (workers q) = length (workers p)
   \<and> (\<forall>j < length (workers p). j \<noteq> i \<longrightarrow> unmoved (workers p ! j) (workers q ! j))
   \<and> queues (2 ^ 59 - length (posted p)) q D J
   \<and> w_closing (workers q ! i) = w_closing (workers p ! i) \<and> tasks_ok (workers q ! i)
   \<and> (last_steal_victim (workers q ! i) = SIZE_MAX \<or> last_steal_victim (workers q ! i) < length (workers p))
   \<and> (w_wakeup (workers p ! i) \<longrightarrow> w_wakeup (workers q ! i))
   \<and> posted q = posted p \<and> started q = started p \<and> waking q = waking p
   \<and> pool_shutdown q = pool_shutdown p \<and> destroyer q = destroyer p"

lemma amid_start:
  "\<lbrakk>pool_ok p D J; i < length (workers p)\<rbrakk> \<Longrightarrow> amid p i D J p"
  by (auto simp: pool_ok_def amid_def wk_ok_def)

lemma amid_own:
  assumes "amid p i D J q"
    and "\<And>w. w_deque (f w) = w_deque w \<and> w_injector (f w) = w_injector w \<and> w_closing (f w) = w_closing w
          \<and> (tasks_ok w \<longrightarrow> tasks_ok (f w)) \<and> (w_wakeup w \<longrightarrow> w_wakeup (f w))
          \<and> (last_steal_victim (f w) = last_steal_victim w \<or> last_steal_victim (f w) = SIZE_MAX
             \<or> last_steal_victim (f w) < length (workers p))"
  shows "amid p i D J (upd_worker i f q)"
  using assms queues_keep [of _ q D J f i] unfolding amid_def by (simp; metis)

lemma amid_idle: "amid p i D J q \<Longrightarrow> amid p i D J (q\<lparr>idle_count := c\<rparr>)"
  using queues_same [of _ q D J "q\<lparr>idle_count := c\<rparr>"] unfolding amid_def by simp

lemma amid_queue:
  assumes "pool_ok p D J" "i < length (workers p)" "v < length (workers p)"
    and "queues (2 ^ 59 - length (posted p)) (upd_worker v f p) D' J'"
    and "\<And>w. unmoved w (f w) \<and> tasks_ok (f w) = tasks_ok w"
  shows "amid p i D' J' (upd_worker v f p)"
proof -
  have "wk_ok p (D i) (J i) i (workers p ! i)" using assms(1,2) by (simp add: pool_ok_def)
  then show ?thesis using assms(2-5) unfolding amid_def wk_ok_def
    by (cases "v = i") (auto simp: unmoved_def)
qed

lemma amid_goto:
  assumes "pool_ok p D J" "amid p i D J q" "w_pc (workers p ! i) \<noteq> WExit" "pc \<noteq> WExit"
    and "idle_count q + (if is_idle (w_pc (workers p ! i)) then 1 else 0) = idle_count p + (if is_idle pc then 1 else 0)"
    and "own_empty pc \<longrightarrow> D i = []" "pc = WSleep \<longrightarrow> J i = []"
    and "past_check pc \<longrightarrow> past_check (w_pc (workers p ! i)) \<or> \<not> pool_shutdown p"
  shows "pool_ok (goto i pc q) D J"
proof (rule pool_ok_step [OF assms(1), of i])
  note q = assms(2) [unfolded amid_def]
  show "i < length (workers p)" using q by simp
  have w: "wk_ok p (D i) (J i) i (workers p ! i)" using assms(1) q by (simp add: pool_ok_def)
  show "wk_ok (goto i pc q) (D i) (J i) i (workers (goto i pc q) ! i)"
    using w q assms(3,4,6-8) by (auto simp: wk_ok_def goto_def tasks_ok_def)
  show "queues (2 ^ 59 - length (posted p)) (goto i pc q) D J"
    unfolding goto_def by (rule queues_keep) (use q in simp_all)
qed (use assms(2,5) in \<open>auto simp: amid_def goto_def queued_def\<close>)

lemma amid_pick:
  assumes "pool_ok p D J" "amid p i D' J' q" "w_pc (workers p ! i) \<noteq> WExit"
    and "idle_count q + (if is_idle (w_pc (workers p ! i)) then 1 else 0) = idle_count p"
    and "queued p D J = add_mset e (queued p D' J')"
    and "\<And>j. D j = [] \<Longrightarrow> D' j = []" "\<And>j. J j = [] \<Longrightarrow> J' j = []"
  shows "pool_ok (pick_up i e q) D' J'"
proof (rule pool_ok_step [OF assms(1), of i])
  note q = assms(2) [unfolded amid_def]
  show "i < length (workers p)" using q by simp
  have "queues (2 ^ 59 - length (posted p)) (goto i (WRun e) q) D' J'"
    unfolding goto_def by (rule queues_keep) (use q in simp_all)
  then show "queues (2 ^ 59 - length (posted p)) (pick_up i e q) D' J'"
    by (rule queues_same) (simp add: pick_up_def)
  show "wk_ok (pick_up i e q) (D' i) (J' i) i (workers (pick_up i e q) ! i)"
    using assms(1,3) q by (auto simp: wk_ok_def goto_def pick_up_def tasks_ok_def pool_ok_def)
  have "queued (pick_up i e q) D' J' = queued p D' J'" using q by (intro queued_same) (simp add: pick_up_def goto_def)
  then show "mset (started (pick_up i e q)) + queued (pick_up i e q) D' J' = mset (started p) + queued p D J"
    using assms(5) q by (simp add: pick_up_def)
qed (use assms(2,4,6,7) in \<open>auto simp: amid_def goto_def pick_up_def\<close>)

lemma queued_less:
  assumes "v < length (workers p)" "mset (D v) + mset (J v) = add_mset e (mset ds + mset js)"
  shows "queued p D J = add_mset e (queued p (D(v := ds)) (J(v := js)))"
proof -
  have "queued p (D(v := ds)) (J(v := js)) + (mset (D v) + mset (J v)) = queued p D J + (mset ds + mset js)"
    using queued_upd [OF assms(1), of id D ds J js] queued_same [of "upd_worker v id p" p] by (simp add: ac_simps)
  then show ?thesis unfolding assms(2) by simp
qed

section \<open>Wake-ups and steps of a worker\<close>

lemma wakeup_facts [simp]:
  "length (workers (worker_try_wakeup i p)) = length (workers p)" "posted (worker_try_wakeup i p) = posted p"
  "started (worker_try_wakeup i p) = started p" "waking (worker_try_wakeup i p) = waking p"
  "idle_count (worker_try_wakeup i p) = idle_count p" "pool_shutdown (worker_try_wakeup i p) = pool_shutdown p"
  "destroyer (worker_try_wakeup i p) = destroyer p" "next_push_idx (worker_try_wakeup i p) = next_push_idx p"
  by (simp_all add: worker_try_wakeup_def)

lemma wakeup_worker:
  "i < length (workers p) \<Longrightarrow> unmoved (workers p ! j) (workers (worker_try_wakeup i p) ! j)"
  "i < length (workers p) \<Longrightarrow> \<not> w_closing (workers p ! i) \<Longrightarrow> w_wakeup (workers (worker_try_wakeup i p) ! i)"
  by (auto simp: worker_try_wakeup_def unmoved_def tasks_ok_def)

lemma wakeup_queues: "queues b p D J \<Longrightarrow> queues b (worker_try_wakeup i p) D J"
  unfolding worker_try_wakeup_def by (auto intro: queues_keep)

lemma wakeup_amid:
  assumes "pool_ok p D J" "i < length (workers p)" "v < length (workers p)"
  shows "amid p i D J (worker_try_wakeup v p)"
proof -
  have "tasks_ok (workers p ! i)" using assms(1,2) by (simp add: pool_ok_def wk_ok_def)
  then show ?thesis using assms amid_start [OF assms(1,2)] wakeup_worker(1) [OF assms(3)] wakeup_queues
    by (auto simp: amid_def unmoved_def)
qed

lemma wakeup_ok:
  assumes "pool_ok p D J" "i < length (workers p)"
  shows "pool_ok (worker_try_wakeup i p) D J"
proof (rule pool_ok_step [OF assms])
  have "wk_ok p (D i) (J i) i (workers p ! i)" using assms by (simp add: pool_ok_def)
  then show "wk_ok (worker_try_wakeup i p) (D i) (J i) i (workers (worker_try_wakeup i p) ! i)"
    by (rule wk_ok_unmoved [OF _ wakeup_worker(1) [OF assms(2)]]) simp_all
  show "queues (2 ^ 59 - length (posted p)) (worker_try_wakeup i p) D J"
    using assms(1) by (intro wakeup_queues) (simp add: pool_ok_def)
qed (use wakeup_worker(1) [OF assms(2)] in \<open>auto simp: queued_def unmoved_def\<close>)

lemma neighbor_less: "workers p \<noteq> [] \<Longrightarrow> neighbor i p < length (workers p)"
  by (simp add: neighbor_def)

lemma steal_ok:
  assumes "pool_ok p D J" "i < length (workers p)" "v < length (workers p)" "steal_from i v f p = Some r"
    and "w_pc (workers p ! i) \<noteq> WExit" "\<not> is_idle (w_pc (workers p ! i))"
    and "\<And>q. \<lbrakk>amid p i D J q; idle_count q = idle_count p\<rbrakk> \<Longrightarrow> pool_ok (f q) D J"
  shows "\<exists>p' D' J'. r = Inr p' \<and> pool_ok p' D' J'"
proof -
  have q: "queues (2 ^ 59 - length (posted p)) p D J" using assms(1) by (simp add: pool_ok_def)
  show ?thesis
  proof (cases rule: deque_get [OF q assms(3) thief.work_queue_axioms, case_names none some])
    case (none q)
    have "amid p i D J (miss i (upd_worker v (\<lambda>w. w\<lparr>w_deque := q\<rparr>) p))"
      unfolding miss_def by (intro amid_own amid_queue [OF assms(1-3) none(3)]) (simp_all add: unmoved_def tasks_ok_def)
    then have "pool_ok (f (miss i (upd_worker v (\<lambda>w. w\<lparr>w_deque := q\<rparr>) p))) D J"
      by (rule assms(7)) (simp add: miss_def)
    then show ?thesis using assms(4) none(1) by (auto simp: steal_from_def)
  next
    case (some e q ds)
    have a: "amid p i (D(v := ds)) J (hit i v (upd_worker v (\<lambda>w. w\<lparr>w_deque := q\<rparr>) p))"
      unfolding hit_def by (intro amid_own amid_queue [OF assms(1-3) some(4)]) (use assms(3) in \<open>simp_all add: unmoved_def tasks_ok_def\<close>)
    have "queued p D J = add_mset e (queued p (D(v := ds)) (J(v := J v)))"
      by (rule queued_less [OF assms(3)]) (simp add: some(3))
    then have "pool_ok (pick_up i e (hit i v (upd_worker v (\<lambda>w. w\<lparr>w_deque := q\<rparr>) p))) (D(v := ds)) J"
      using some(3) assms(6) by (intro amid_pick [OF assms(1) a assms(5)]) (auto simp: hit_def)
    then show ?thesis using assms(4) some(1,2) by (auto simp: steal_from_def)
  qed
qed

text \<open>The two pops of a worker, with what each branch does.\<close>

lemma own_pop_ok:
  assumes "pool_ok p D J" "i < length (workers p)"
    and "r = rbind (with_deque i wsdq_pop_bottom p) (\<lambda>(e, q). Inr (if e \<noteq> NULL then pick_up i e (f q) else g q))"
    and "w_pc (workers p ! i) \<noteq> WExit"
    and "\<And>D J q. amid p i D J q \<Longrightarrow> amid p i D J (f q)"
    and "\<And>q. idle_count q = idle_count p \<Longrightarrow> idle_count (f q) + (if is_idle (w_pc (workers p ! i)) then 1 else 0) = idle_count p"
    and "\<And>q. \<lbrakk>amid p i D J q; idle_count q = idle_count p; D i = []\<rbrakk> \<Longrightarrow> pool_ok (g q) D J"
  shows "\<exists>p' D' J'. r = Inr p' \<and> pool_ok p' D' J'"
proof -
  have q: "queues (2 ^ 59 - length (posted p)) p D J" using assms(1) by (simp add: pool_ok_def)
  show ?thesis
  proof (cases rule: deque_get [OF q assms(2) own.work_queue_axioms, case_names none some])
    case (none q)
    have "amid p i D J (upd_worker i (\<lambda>w. w\<lparr>w_deque := q\<rparr>) p)"
      by (intro amid_queue [OF assms(1,2,2) none(3)]) (simp add: unmoved_def tasks_ok_def)
    then have "pool_ok (g (upd_worker i (\<lambda>w. w\<lparr>w_deque := q\<rparr>) p)) D J"
      by (rule assms(7)) (simp_all add: none(2))
    then show ?thesis using assms(3) none(1) by auto
  next
    case (some e q ds)
    have a: "amid p i (D(i := ds)) J (upd_worker i (\<lambda>w. w\<lparr>w_deque := q\<rparr>) p)"
      by (intro amid_queue [OF assms(1,2,2) some(4)]) (simp add: unmoved_def tasks_ok_def)
    have "queued p D J = add_mset e (queued p (D(i := ds)) (J(i := J i)))"
      by (rule queued_less [OF assms(2)]) (simp add: some(3))
    then have "pool_ok (pick_up i e (f (upd_worker i (\<lambda>w. w\<lparr>w_deque := q\<rparr>) p))) (D(i := ds)) J"
      using some(3) assms(6) by (intro amid_pick [OF assms(1) assms(5) [OF a] assms(4)]) auto
    then show ?thesis using assms(3) some(1,2) by auto
  qed
qed

lemma injected_pop_ok:
  assumes "pool_ok p D J" "i < length (workers p)"
    and "r = rbind (with_injector i injector_pop p) (\<lambda>(e, q). Inr (if e \<noteq> NULL then pick_up i e (f q) else g q))"
    and "w_pc (workers p ! i) \<noteq> WExit"
    and "\<And>D J q. amid p i D J q \<Longrightarrow> amid p i D J (f q)"
    and "\<And>q. idle_count q = idle_count p \<Longrightarrow> idle_count (f q) + (if is_idle (w_pc (workers p ! i)) then 1 else 0) = idle_count p"
    and "\<And>q. \<lbrakk>amid p i D J q; idle_count q = idle_count p; J i = []\<rbrakk> \<Longrightarrow> pool_ok (g q) D J"
  shows "\<exists>p' D' J'. r = Inr p' \<and> pool_ok p' D' J'"
proof -
  have q: "queues (2 ^ 59 - length (posted p)) p D J" using assms(1) by (simp add: pool_ok_def)
  from q assms(2) show ?thesis
  proof (cases rule: injector_get)
    case (none q)
    have "amid p i D J (upd_worker i (\<lambda>w. w\<lparr>w_injector := q\<rparr>) p)"
      by (intro amid_queue [OF assms(1,2,2) none(3)]) (simp add: unmoved_def tasks_ok_def)
    then have "pool_ok (g (upd_worker i (\<lambda>w. w\<lparr>w_injector := q\<rparr>) p)) D J"
      by (rule assms(7)) (simp_all add: none(2))
    then show ?thesis using assms(3) none(1) by auto
  next
    case (some e q js)
    have a: "amid p i D (J(i := js)) (upd_worker i (\<lambda>w. w\<lparr>w_injector := q\<rparr>) p)"
      by (intro amid_queue [OF assms(1,2,2) some(4)]) (simp add: unmoved_def tasks_ok_def)
    have "queued p D J = add_mset e (queued p (D(i := D i)) (J(i := js)))"
      by (rule queued_less [OF assms(2)]) (simp add: some(3))
    then have "pool_ok (pick_up i e (f (upd_worker i (\<lambda>w. w\<lparr>w_injector := q\<rparr>) p))) D (J(i := js))"
      using some(3) assms(6) by (intro amid_pick [OF assms(1) assms(5) [OF a] assms(4)]) auto
    then show ?thesis using assms(3) some(1,2) by auto
  qed
qed

lemma idle_bounds:
  assumes "pool_ok p D J"
  shows "idle_count p < 2 ^ 32" "\<lbrakk>i < length (workers p); is_idle (w_pc (workers p ! i))\<rbrakk> \<Longrightarrow> 0 < idle_count p"
proof -
  have c: "idle_count p = length (filter (\<lambda>w. is_idle (w_pc w)) (workers p))" "length (workers p) < 2 ^ 32"
    using assms by (simp_all add: pool_ok_def)
  show "idle_count p < 2 ^ 32" using c by (metis length_filter_le le_less_trans)
  show "0 < idle_count p" if "i < length (workers p)" "is_idle (w_pc (workers p ! i))"
    using that nth_mem [OF that(1)] c(1) by (auto simp: filter_empty_conv)
qed

lemma idle_less:
  assumes "pool_ok p D J" "i < length (workers p)" "is_idle (w_pc (workers p ! i))"
  shows "size_sub (idle_count p) 1 + 1 = idle_count p"
  using idle_bounds [OF assms(1)] idle_bounds(2) [OF assms] by (simp add: size_sub_eq)

lemma idle_more: "pool_ok p D J \<Longrightarrow> size_add (idle_count p) 1 = idle_count p + 1"
  using idle_bounds(1) [of p D J] by (simp add: size_add_eq)

lemmas own_simps = tasks_ok_def no_miss_def miss_def hit_def drain_worker_tasks_def

lemma top_ok:
  assumes "pool_ok p D J" "i < length (workers p)" "w_pc (workers p ! i) = WTop"
  shows "pool_ok (if pool_shutdown p then upd_worker i (\<lambda>w. drain_worker_tasks (w\<lparr>w_closing := True, w_pc := WExit\<rparr>)) p
                  else goto i WPop p) D J"
proof (cases "pool_shutdown p")
  case True
  let ?p = "upd_worker i (\<lambda>w. drain_worker_tasks (w\<lparr>w_closing := True, w_pc := WExit\<rparr>)) p"
  have w: "wk_ok p (D i) (J i) i (workers p ! i)" using assms(1,2) by (simp add: pool_ok_def)
  have "pool_ok ?p D J"
  proof (rule pool_ok_step [OF assms(1,2)])
    show "wk_ok ?p (D i) (J i) i (workers ?p ! i)"
      using w assms(2) by (auto simp: wk_ok_def drain_worker_tasks_def tasks_ok_def)
    show "queues (2 ^ 59 - length (posted p)) ?p D J"
      using assms(1) by (intro queues_keep) (auto simp: pool_ok_def drain_worker_tasks_def)
  qed (use assms(2,3) in \<open>auto simp: queued_def drain_worker_tasks_def\<close>)
  with True show ?thesis by simp
next
  case False
  then show ?thesis using amid_goto [OF assms(1) amid_start [OF assms(1,2)], of WPop] assms(3) by simp
qed

lemma hint_ok:
  assumes "pool_ok p D J" "i < length (workers p)" "w_pc (workers p ! i) = WHint" "worker_step i p = Some r"
  shows "\<exists>p' D' J'. r = Inr p' \<and> pool_ok p' D' J'"
proof -
  let ?v = "last_steal_victim (workers p ! i)"
  have w: "wk_ok p (D i) (J i) i (workers p ! i)" using assms(1,2) by (simp add: pool_ok_def)
  have scan: "pool_ok (start_scan i q) D J" if "amid p i D J q" "idle_count q = idle_count p" for q
  proof -
    let ?s = "next_seed (w_seed (workers q ! i))"
    have "start_scan i q = goto i (WScan (steal_offset (length (workers q)) ?s) 0) (upd_worker i (\<lambda>w. w\<lparr>w_seed := ?s\<rparr>) q)"
      by (simp add: start_scan_def goto_def upd_worker_def Let_def list_update_beyond nth_list_update
          linorder_not_less split: if_splits) (metis list_update_beyond list_update_overwrite not_le nth_list_update_eq)
    moreover have "amid p i D J (upd_worker i (\<lambda>w. w\<lparr>w_seed := ?s\<rparr>) q)"
      by (intro amid_own that) (simp add: tasks_ok_def)
    moreover have "D i = []" using w assms(3) by (simp add: wk_ok_def)
    ultimately show ?thesis using that(2) assms(3) by (simp add: amid_goto [OF assms(1)])
  qed
  show ?thesis
  proof (cases "?v \<noteq> SIZE_MAX \<and> ?v \<noteq> i")
    case True
    then have "?v < length (workers p)" using w by (auto simp: wk_ok_def)
    moreover have "steal_from i ?v (start_scan i) p = Some r" using True assms(3,4) by (simp add: worker_step_def)
    ultimately show ?thesis using steal_ok [OF assms(1,2)] scan assms(3) by auto
  next
    case False
    then have "r = Inr (start_scan i p)" using assms(3,4) by (auto simp: worker_step_def)
    with scan [OF amid_start [OF assms(1,2)]] show ?thesis by blast
  qed
qed

lemma scan_ok:
  assumes "pool_ok p D J" "i < length (workers p)" "w_pc (workers p ! i) = WScan off k" "worker_step i p = Some r"
  shows "\<exists>p' D' J'. r = Inr p' \<and> pool_ok p' D' J'"
proof -
  let ?n = "length (workers p)" and ?v = "(i + off + k) mod length (workers p)"
  have e: "D i = []" using assms(1-3) by (auto simp: pool_ok_def wk_ok_def)
  have v: "?v < ?n" using assms(2) by (intro mod_less_divisor) linarith
  have go: "pool_ok (goto i (WScan off (Suc k)) q) D J" if "amid p i D J q" "idle_count q = idle_count p" for q
    using that assms(3) e by (intro amid_goto [OF assms(1)]) auto
  consider "?n \<le> k" "r = Inr (upd_worker i (\<lambda>w. w\<lparr>last_steal_victim := SIZE_MAX, w_pc := WIdle\<rparr>) p)"
    | "r = Inr (goto i (WScan off (Suc k)) p)"
    | "steal_from i ?v (goto i (WScan off (Suc k))) p = Some r"
  proof (cases "?n \<le> k"; cases "?v = i")
  qed (use that assms(4) in \<open>simp_all add: worker_step_def Let_def assms(3)\<close>)
  then show ?thesis
  proof cases
    case 1
    have eq: "upd_worker i (\<lambda>w. w\<lparr>last_steal_victim := SIZE_MAX, w_pc := WIdle\<rparr>) p
        = goto i WIdle (upd_worker i (\<lambda>w. w\<lparr>last_steal_victim := SIZE_MAX\<rparr>) p)"
      using assms(2) by (simp add: goto_def upd_worker_def)
    have "amid p i D J (upd_worker i (\<lambda>w. w\<lparr>last_steal_victim := SIZE_MAX\<rparr>) p)"
      by (intro amid_own amid_start [OF assms(1,2)]) (simp add: tasks_ok_def)
    then have "pool_ok (goto i WIdle (upd_worker i (\<lambda>w. w\<lparr>last_steal_victim := SIZE_MAX\<rparr>) p)) D J"
      using assms(3) e by (intro amid_goto [OF assms(1)]) auto
    then show ?thesis using 1(2) eq by auto
  next
    case 2
    with go [OF amid_start [OF assms(1,2)]] show ?thesis by blast
  next
    case 3
    show ?thesis by (rule steal_ok [OF assms(1,2) v 3]) (use assms(3) go in auto)
  qed
qed

lemma Some_rbind: "(obind (Some m) (\<lambda>(e, q). Some (Inr (h e q))) = Some r) \<longleftrightarrow> r = rbind m (\<lambda>(e, q). Inr (h e q))"
  by (cases m) (auto split: prod.splits)

lemma amid_no_miss: "amid p i D J q \<Longrightarrow> amid p i D J (no_miss i q)"
  unfolding no_miss_def by (intro amid_own) (auto simp: tasks_ok_def)

lemma no_miss_idle [simp]: "idle_count (no_miss i q) = idle_count q"
  by (simp add: no_miss_def)

lemma deliver_facts [simp]:
  "length (workers (deliver i p)) = length (workers p)" "posted (deliver i p) = posted p"
  "started (deliver i p) = started p" "waking (deliver i p) = waking p" "idle_count (deliver i p) = idle_count p"
  "pool_shutdown (deliver i p) = pool_shutdown p" "destroyer (deliver i p) = destroyer p"
  "next_push_idx (deliver i p) = next_push_idx p"
  by (simp_all add: deliver_def)

lemma pop_steps_ok:
  assumes "pool_ok p D J" "i < length (workers p)" "worker_step i p = Some r"
    and "w_pc (workers p ! i) = WPop \<or> w_pc (workers p ! i) = WRecheck"
  shows "\<exists>p' D' J'. r = Inr p' \<and> pool_ok p' D' J'"
  using assms(4)
proof
  assume pc: "w_pc (workers p ! i) = WPop"
  show ?thesis
  proof (rule own_pop_ok [OF assms(1,2)])
    show "r = rbind (with_deque i wsdq_pop_bottom p) (\<lambda>(e, q). Inr (if e \<noteq> NULL then pick_up i e (no_miss i q) else goto i WInject q))"
      using assms(3) by (simp only: worker_step_def pc Let_def worker_pc.simps Some_rbind)
    show "pool_ok (goto i WInject q) D J" if "amid p i D J q" "idle_count q = idle_count p" "D i = []" for q
      using that by (intro amid_goto [OF assms(1) that(1)]) (simp_all add: pc)
  qed (simp_all add: pc amid_no_miss)
next
  assume pc: "w_pc (workers p ! i) = WRecheck"
  show ?thesis
  proof (rule own_pop_ok [OF assms(1,2)])
    show "r = rbind (with_deque i wsdq_pop_bottom p) (\<lambda>(e, q). Inr (if e \<noteq> NULL
        then pick_up i e (q\<lparr>idle_count := size_sub (idle_count q) 1\<rparr>) else goto i WRecheckInj q))"
      using assms(3) by (simp only: worker_step_def pc Let_def worker_pc.simps Some_rbind)
    show "pool_ok (goto i WRecheckInj q) D J" if "amid p i D J q" "idle_count q = idle_count p" "D i = []" for q
      using that by (intro amid_goto [OF assms(1) that(1)]) (simp_all add: pc)
  qed (use idle_less [OF assms(1,2)] in \<open>simp_all add: pc amid_idle\<close>)
qed

lemma inject_steps_ok:
  assumes "pool_ok p D J" "i < length (workers p)" "worker_step i p = Some r"
    and "w_pc (workers p ! i) = WInject \<or> w_pc (workers p ! i) = WRecheckInj"
  shows "\<exists>p' D' J'. r = Inr p' \<and> pool_ok p' D' J'"
  using assms(4)
proof
  assume pc: "w_pc (workers p ! i) = WInject"
  have e: "D i = []" using assms(1,2) pc by (auto simp: pool_ok_def wk_ok_def)
  show ?thesis
  proof (rule injected_pop_ok [OF assms(1,2)])
    show "r = rbind (with_injector i injector_pop p) (\<lambda>(e, q). Inr (if e \<noteq> NULL then pick_up i e (no_miss i q)
        else goto i (if 1 < length (workers p) \<and> miss_streak (workers p ! i) < STEAL_BACKOFF_THRESHOLD then WHint else WIdle) q))"
      using assms(3) by (simp only: worker_step_def pc Let_def worker_pc.simps Some_rbind)
    show "pool_ok (goto i (if 1 < length (workers p) \<and> miss_streak (workers p ! i) < STEAL_BACKOFF_THRESHOLD then WHint else WIdle) q) D J"
      if "amid p i D J q" "idle_count q = idle_count p" for q
      using that e by (intro amid_goto [OF assms(1) that(1)]) (simp_all add: pc)
  qed (simp_all add: pc amid_no_miss)
next
  assume pc: "w_pc (workers p ! i) = WRecheckInj"
  have e: "D i = []" using assms(1,2) pc by (auto simp: pool_ok_def wk_ok_def)
  show ?thesis
  proof (rule injected_pop_ok [OF assms(1,2)])
    show "r = rbind (with_injector i injector_pop p) (\<lambda>(e, q). Inr (if e \<noteq> NULL
        then pick_up i e (q\<lparr>idle_count := size_sub (idle_count q) 1\<rparr>) else goto i WSleep q))"
      using assms(3) by (simp only: worker_step_def pc Let_def worker_pc.simps Some_rbind)
    show "pool_ok (goto i WSleep q) D J" if "amid p i D J q" "idle_count q = idle_count p" "J i = []" for q
      using that e by (intro amid_goto [OF assms(1) that(1)]) (simp_all add: pc)
  qed (use idle_less [OF assms(1,2)] in \<open>simp_all add: pc amid_idle\<close>)
qed

text \<open>A return to the top of the loop; the wake-up may have been used up.\<close>

lemma to_top_ok:
  assumes "pool_ok p D J" "i < length (workers p)" "w_pc (workers p ! i) \<noteq> WExit"
    and "workers q = (workers p)[i := w]" "w_deque w = w_deque (workers p ! i)" "w_injector w = w_injector (workers p ! i)"
    and "w_closing w = w_closing (workers p ! i)" "last_steal_victim w = last_steal_victim (workers p ! i)"
    and "w_pc w = WTop \<or> (\<exists>e. w_pc w = WRun e)" "tasks_ok w"
    and "idle_count q + (if is_idle (w_pc (workers p ! i)) then 1 else 0) = idle_count p"
    and "posted q = posted p" "started q = started p" "waking q = waking p" "pool_shutdown q = pool_shutdown p"
      "destroyer q = destroyer p"
  shows "pool_ok q D J"
proof (rule pool_ok_step [OF assms(1,2)])
  have w: "wk_ok p (D i) (J i) i (workers p ! i)" using assms(1,2) by (simp add: pool_ok_def)
  have eq: "workers q ! i = w" "length (workers q) = length (workers p)" using assms(2,4) by simp_all
  have pc: "\<not> own_empty (w_pc w)" "w_pc w \<noteq> WSleep" "\<not> past_check (w_pc w)" "w_pc w \<noteq> WExit" using assms(9) by auto
  show "wk_ok q (D i) (J i) i (workers q ! i)"
    using w pc assms(3,10) unfolding wk_ok_def eq assms(7,8) by simp
  have "queues (2 ^ 59 - length (posted p)) p D J" using assms(1) by (simp add: pool_ok_def)
  then show "queues (2 ^ 59 - length (posted p)) q D J"
    unfolding queues_def wk_rel_def assms(4) using assms(2,5,6) by (simp add: nth_list_update)
  have "is_idle (w_pc w) = False" using pc by (cases "w_pc w") simp_all
  then show "idle_count q + (if is_idle (w_pc (workers p ! i)) then 1 else 0)
      = idle_count p + (if is_idle (w_pc (workers q ! i)) then 1 else 0)" using assms(11) eq by simp
qed (use assms(4,12-16) in \<open>simp_all add: queued_def\<close>)

lemma worker_step_ok:
  assumes "pool_ok p D J" "i < length (workers p)" "worker_step i p = Some r"
  shows "\<exists>p' D' J'. r = Inr p' \<and> pool_ok p' D' J'"
proof (cases "w_pc (workers p ! i)")
  case WTop
  with top_ok [OF assms(1,2)] assms(3) show ?thesis by (auto simp: worker_step_def)
next
  case WIdle
  have e: "D i = []" using assms(1,2) WIdle by (auto simp: pool_ok_def wk_ok_def)
  have "amid p i D J (if b then worker_try_wakeup (neighbor i p) p else p)" for b
    using assms(1,2) neighbor_less by (auto simp: pool_ok_def intro!: amid_start wakeup_amid)
  then have "pool_ok (goto i WCount (if b then worker_try_wakeup (neighbor i p) p else p)) D J" for b
    using e WIdle by (intro amid_goto [OF assms(1)]) simp_all
  then show ?thesis using assms(3) WIdle by (auto simp: worker_step_def Let_def)
next
  case WCount
  have e: "D i = []" using assms(1,2) WCount by (auto simp: pool_ok_def wk_ok_def)
  have "pool_ok (goto i WRecheck (p\<lparr>idle_count := size_add (idle_count p) 1\<rparr>)) D J"
    using e WCount idle_more [OF assms(1)] by (intro amid_goto [OF assms(1)] amid_idle amid_start [OF assms(1,2)]) simp_all
  then show ?thesis using assms(3) WCount by (auto simp: worker_step_def)
next
  case WSleep
  have t: "tasks_ok (workers p ! i)" using assms(1,2) by (simp add: pool_ok_def wk_ok_def)
  let ?q = "goto i WTop (no_miss i ((deliver i p)\<lparr>idle_count := size_sub (idle_count p) 1\<rparr>))"
  have "pool_ok ?q D J"
    by (rule to_top_ok [OF assms(1,2), of ?q "(workers (no_miss i (deliver i p)) ! i)\<lparr>w_pc := WTop\<rparr>"])
      (use assms(2) t WSleep idle_less [OF assms(1,2)] in
        \<open>simp_all add: goto_def no_miss_def deliver_def upd_worker_def drain_worker_tasks_def tasks_ok_def\<close>)
  then show ?thesis using assms(3) WSleep by (auto simp: worker_step_def Let_def split: if_splits)
qed (use assms pop_steps_ok inject_steps_ok hint_ok scan_ok in \<open>auto simp: worker_step_def\<close>)

lemma io_event_ok:
  assumes "pool_ok p D J" "i < length (workers p)" "io_event i p = Some r"
  shows "\<exists>p' D' J'. r = Inr p' \<and> pool_ok p' D' J'"
proof -
  have pc: "w_pc (workers p ! i) = WSleep" and r: "r = Inr (goto i WTop (no_miss i (p\<lparr>idle_count := size_sub (idle_count p) 1\<rparr>)))"
    using assms(3) by (auto simp: io_event_def split: if_splits)
  have "pool_ok (goto i WTop (no_miss i (p\<lparr>idle_count := size_sub (idle_count p) 1\<rparr>))) D J"
    using idle_less [OF assms(1,2)] pc
    by (intro amid_goto [OF assms(1)] amid_no_miss amid_idle amid_start [OF assms(1,2)]) simp_all
  with r show ?thesis by blast
qed

section \<open>Posting\<close>

text \<open>What posting and running leave alone: the counts of the spawning side and the workers' places.\<close>

definition spawn_part ::
  "goc_pool \<Rightarrow> nat \<times> nat \<times> nat \<times> goc_spawn_req list \<times> goc_fiber list \<times> ptr list \<times> goc_spawn_req list \<times> goc_spawn_req list \<times> nat list" where
  "spawn_part p = (max_live_fibers p, live_count p, resident_count p, pending_spawn p, fibers p, alive p,
     asked p, asked_in p, joined p)"

definition pcs :: "goc_pool \<Rightarrow> worker_pc list" where
  "pcs p = map w_pc (workers p)"

lemma spawn_part_upd [simp]: "spawn_part (upd_worker i f p) = spawn_part p"
  by (simp add: spawn_part_def upd_worker_def)

lemma pcs_upd:
  assumes "\<And>w. w_pc (f w) = w_pc w"
  shows "pcs (upd_worker i f p) = pcs p"
proof (cases "i < length (workers p)")
  case True
  then show ?thesis using list_update_id [of "map w_pc (workers p)" i] assms by (simp add: pcs_def upd_worker_def map_update)
qed (simp add: pcs_def upd_worker_def list_update_beyond)

lemma wakeup_parts [simp]: "spawn_part (worker_try_wakeup i p) = spawn_part p" "pcs (worker_try_wakeup i p) = pcs p"
  by (simp_all add: worker_try_wakeup_def pcs_upd)

lemma pool_ok_post:
  assumes "pool_ok p D J" "length (workers p') = length (workers p)"
    and "\<And>j. j < length (workers p) \<Longrightarrow> unmoved (workers p ! j) (workers p' ! j)"
    and "\<And>j. \<lbrakk>j < length (workers p); D j = []; own_empty (w_pc (workers p ! j))\<rbrakk> \<Longrightarrow> D' j = []"
    and "\<And>j. J' j \<noteq> [] \<Longrightarrow> J j \<noteq> [] \<or> j \<in> set (waking p')"
    and "set (waking p) \<subseteq> set (waking p')" "set (waking p') \<subseteq> {..<length (workers p)}"
    and "queues (2 ^ 59 - length (posted p')) p' D' J'" "posted p' = posted p @ [e]"
    and "queued p' D' J' = add_mset e (queued p D J)" "started p' = started p"
    and "pool_shutdown p' = pool_shutdown p" "destroyer p' = destroyer p" "idle_count p' = idle_count p"
  shows "pool_ok p' D' J'"
proof -
  let ?n = "length (workers p)"
  have w: "\<forall>j < ?n. wk_ok p (D j) (J j) j (workers p ! j)" using assms(1) by (simp add: pool_ok_def)
  have "wk_ok p' (D' j) (J' j) j (workers p' ! j)" if j: "j < ?n" for j
  proof -
    have u: "unmoved (workers p ! j) (workers p' ! j)" by (rule assms(3) [OF j])
    have oe: "own_empty (w_pc (workers p ! j)) \<longrightarrow> D' j = []" using w j assms(4) by (auto simp: wk_ok_def)
    have "wk_ok p (if own_empty (w_pc (workers p ! j)) then [] else D' j) (J j) j (workers p ! j)"
      using w j by (auto simp: wk_ok_def)
    then show ?thesis
    proof (rule wk_ok_unmoved [OF _ u])
      show "(if own_empty (w_pc (workers p ! j)) then [] else D' j) = [] \<longrightarrow> D' j = []" using oe by simp
      show "J' j \<noteq> [] \<longrightarrow> J j \<noteq> [] \<or> w_wakeup (workers p' ! j) \<or> j \<in> set (waking p')" using assms(5) by blast
      show "j \<in> set (waking p) \<longrightarrow> w_wakeup (workers p' ! j) \<or> j \<in> set (waking p')" using assms(6) by blast
    qed (use assms(2,12,13) in simp_all)
  qed
  moreover have "map (\<lambda>w. is_idle (w_pc w)) (workers p') = map (\<lambda>w. is_idle (w_pc w)) (workers p)"
    using assms(2,3) by (intro nth_equalityI) (auto simp: unmoved_def)
  then have "length (filter (\<lambda>w. is_idle (w_pc w)) (workers p')) = length (filter (\<lambda>w. is_idle (w_pc w)) (workers p))"
    by (simp only: count_map [of "\<lambda>w. is_idle (w_pc w)"])
  ultimately show ?thesis using assms by (auto simp: pool_ok_def simp del: length_greater_0_conv)
qed

lemma pool_ok_same:
  assumes "pool_ok p D J" "workers p' = workers p" "posted p' = posted p" "started p' = started p" "waking p' = waking p"
    "idle_count p' = idle_count p" "pool_shutdown p' = pool_shutdown p" "destroyer p' = destroyer p"
  shows "pool_ok p' D J"
  using assms(1) unfolding pool_ok_def wk_ok_def queues_def queued_def assms(2-8) .

text \<open>How a post ends: the entry is recorded, and nothing but queues and wake-ups has changed.\<close>

definition posts_entry :: "ptr \<Rightarrow> goc_pool \<Rightarrow> goc_pool \<Rightarrow> bool" where
  "posts_entry e p p' \<longleftrightarrow> (\<exists>D J. pool_ok p' D J) \<and> posted p' = posted p @ [e] \<and> spawn_part p' = spawn_part p \<and> pcs p' = pcs p"

lemma posts_entryI:
  "\<lbrakk>pool_ok p' D J; posted p' = posted p @ [e]; spawn_part p' = spawn_part p; pcs p' = pcs p\<rbrakk> \<Longrightarrow> posts_entry e p p'"
  unfolding posts_entry_def by blast

lemma push_local_ok:
  assumes "pool_ok p D J" "i < length (workers p)" "w_pc (workers p ! i) = WRun x" "e \<noteq> NULL" "length (posted p) < 2 ^ 59"
  shows "\<exists>p'. push_local i e p = Inr p' \<and> posts_entry e p p'"
proof -
  have b: "2 ^ 59 - length (posted p) = Suc (2 ^ 59 - length (posted p @ [e]))" using assms(5) by simp
  have "queues (Suc (2 ^ 59 - length (posted p @ [e]))) p D J" using assms(1) unfolding pool_ok_def b by blast
  then obtain q where q: "with_deque i (\<lambda>q. rbind (wsdq_push_bottom e q) (\<lambda>q1. Inr ((), q1))) p
      = Inr ((), upd_worker i (\<lambda>w. w\<lparr>w_deque := q\<rparr>) p)"
    "queues (2 ^ 59 - length (posted p @ [e])) (upd_worker i (\<lambda>w. w\<lparr>w_deque := q\<rparr>) p) (D(i := D i @ [e])) J"
    by (rule deque_put [OF _ assms(2,4)])
  let ?p1 = "upd_worker i (\<lambda>w. w\<lparr>w_deque := q\<rparr>) p" and ?D = "D(i := D i @ [e])"
  let ?p2 = "?p1\<lparr>posted := posted ?p1 @ [e]\<rparr>"
  have "queued ?p1 (D(i := D i @ [e])) (J(i := J i)) + mset (D i) + mset (J i) = queued p D J + mset (D i @ [e]) + mset (J i)"
    by (rule queued_upd [OF assms(2)])
  then have m: "queued ?p2 ?D J = add_mset e (queued p D J)" using queued_same [of ?p2 ?p1] by simp
  have ok: "pool_ok ?p2 ?D J"
  proof (rule pool_ok_post [OF assms(1)])
    have l: "length (posted ?p2) = length (posted p @ [e])" by simp
    show "queues (2 ^ 59 - length (posted ?p2)) ?p2 ?D J" unfolding l by (rule queues_same [OF q(2)]) simp
  qed (use assms(1-3) m in \<open>auto simp: unmoved_def tasks_ok_def pool_ok_def\<close>)
  let ?p3 = "if 1 < length (workers ?p2) \<and> 0 < idle_count ?p2 then worker_try_wakeup (neighbor i ?p2) ?p2 else ?p2"
  have "workers ?p2 \<noteq> []" using assms(2) by (auto simp: upd_worker_def)
  then have ok3: "pool_ok ?p3 ?D J" using ok wakeup_ok [OF ok neighbor_less] by simp
  have "push_local i e p = Inr ?p3" by (simp add: push_local_def q(1) Let_def)
  moreover have "spawn_part ?p2 = spawn_part p" "pcs ?p2 = pcs p" by (simp_all add: spawn_part_def upd_worker_def)
     (simp add: pcs_def upd_worker_def map_update, metis list_update_id map_update)
  moreover have "posted ?p3 = posted p @ [e]" by simp
  ultimately show ?thesis using posts_entryI [OF ok3] by simp
qed

lemma push_remote_ok:
  assumes "pool_ok p D J" "i < length (workers p)" "e \<noteq> NULL"
  shows "\<exists>p'. push_remote i e p = Inr p' \<and> posts_entry e p p'"
proof -
  have "queues (2 ^ 59 - length (posted p)) p D J" using assms(1) unfolding pool_ok_def by blast
  then have "queues (2 ^ 59 - length (posted p @ [e])) p D J" by (rule queues_mono) simp
  then obtain q where q: "with_injector i (\<lambda>q. rbind (injector_push e q) (\<lambda>q1. Inr ((), q1))) p
      = Inr ((), upd_worker i (\<lambda>w. w\<lparr>w_injector := q\<rparr>) p)"
    "queues (2 ^ 59 - length (posted p @ [e])) (upd_worker i (\<lambda>w. w\<lparr>w_injector := q\<rparr>) p) D (J(i := J i @ [e]))"
    by (rule injector_put [OF _ assms(2,3)])
  let ?p1 = "upd_worker i (\<lambda>w. w\<lparr>w_injector := q\<rparr>) p" and ?J = "J(i := J i @ [e])"
  let ?p2 = "?p1\<lparr>posted := posted ?p1 @ [e], waking := waking ?p1 @ [i]\<rparr>"
  have "queued ?p1 (D(i := D i)) (J(i := J i @ [e])) + mset (D i) + mset (J i) = queued p D J + mset (D i) + mset (J i @ [e])"
    by (rule queued_upd [OF assms(2)])
  then have m: "queued ?p2 D ?J = add_mset e (queued p D J)" using queued_same [of ?p2 ?p1] by simp
  have ok: "pool_ok ?p2 D ?J"
  proof (rule pool_ok_post [OF assms(1)])
    have l: "length (posted ?p2) = length (posted p @ [e])" by simp
    show "queues (2 ^ 59 - length (posted ?p2)) ?p2 D ?J" unfolding l by (rule queues_same [OF q(2)]) simp
  qed (use assms(1,2) m in \<open>auto simp: unmoved_def tasks_ok_def pool_ok_def split: if_splits\<close>)
  have "push_remote i e p = Inr ?p2" by (simp add: push_remote_def q(1))
  moreover have "spawn_part ?p2 = spawn_part p" "pcs ?p2 = pcs p" by (simp_all add: spawn_part_def upd_worker_def)
     (simp add: pcs_def upd_worker_def map_update, metis list_update_id map_update)
  moreover have "posted ?p2 = posted p @ [e]" by simp
  ultimately show ?thesis using posts_entryI [OF ok] by blast
qed

text \<open>The caller of a post: a thread outside the pool, or the fiber that runs on worker \<open>i\<close>.\<close>

definition caller_ok :: "nat option \<Rightarrow> goc_pool \<Rightarrow> bool" where
  "caller_ok cur p \<longleftrightarrow> (\<forall>i. cur = Some i \<longrightarrow> i < length (pcs p) \<and> (\<exists>x. pcs p ! i = WRun x))"

lemma caller_okD:
  "\<lbrakk>caller_ok (Some i) p\<rbrakk> \<Longrightarrow> i < length (workers p) \<and> (\<exists>x. w_pc (workers p ! i) = WRun x)"
  by (auto simp: caller_ok_def pcs_def)

lemma post_run_ok:
  assumes "pool_ok p D J" "caller_ok cur p" "e \<noteq> NULL" "length (posted p) < 2 ^ 59"
  shows "\<exists>p'. post_to_run_queue cur e p = Inr p' \<and> posts_entry e p p'"
proof (cases cur)
  case (Some i)
  obtain x where "i < length (workers p)" "w_pc (workers p ! i) = WRun x" using caller_okD assms(2) Some by blast
  from push_local_ok [OF assms(1) this assms(3,4)] Some show ?thesis by (simp add: post_to_run_queue_def)
next
  case None
  let ?p = "p\<lparr>next_push_idx := size_add (next_push_idx p) 1\<rparr>"
  have ok: "pool_ok ?p D J" by (rule pool_ok_same [OF assms(1)]) simp_all
  have "next_push_idx p mod length (workers p) < length (workers ?p)" using assms(1) by (simp add: pool_ok_def)
  from push_remote_ok [OF ok this assms(3)] None show ?thesis
    by (auto simp: post_to_run_queue_def posts_entry_def spawn_part_def pcs_def)
qed

text \<open>
  The aborts that are left: a caller names no worker, closes more handles than were opened, or hands a
  task to a worker that closes its loop meanwhile.
\<close>

definition caller_fault :: "'a res \<Rightarrow> bool" where
  "caller_fault r \<longleftrightarrow> r = Inl (Abort ''post_to_specific_worker: invalid arguments'')
     \<or> r = Inl (Abort ''goc_worker_io_handle_closed called with no active IO handles'')
     \<or> r = Inl (Abort ''post_on_handle_loop: cannot wake worker loop'')"

lemma post_specific_ok:
  assumes "pool_ok p D J" "caller_ok cur p" "e \<noteq> NULL" "length (posted p) < 2 ^ 59"
  shows "caller_fault (post_to_specific_worker cur i e p)
    \<or> (\<exists>p'. post_to_specific_worker cur i e p = Inr p' \<and> posts_entry e p p')"
proof (cases "i < length (workers p)")
  case True
  show ?thesis
  proof (cases "cur = Some i")
    case cur: True
    obtain x where "w_pc (workers p ! i) = WRun x" using caller_okD assms(2) cur by blast
    from push_local_ok [OF assms(1) True this assms(3,4)] cur True assms(3) show ?thesis
      by (simp add: post_to_specific_worker_def)
  next
    case False
    with push_remote_ok [OF assms(1) True assms(3)] True assms(3) show ?thesis by (simp add: post_to_specific_worker_def)
  qed
qed (simp add: post_to_specific_worker_def caller_fault_def)

lemma remove_nth_set: "k < length xs \<Longrightarrow> set xs = insert (xs ! k) (set (take k xs @ drop (Suc k) xs))"
  by (subst id_take_nth_drop [of k xs]) auto

lemma wake_pushed_ok:
  assumes "pool_ok p D J" "wake_pushed k p = Some r"
  shows "\<exists>p'. r = Inr p' \<and> pool_ok p' D J"
proof -
  define i where "i = waking p ! k"
  define p1 where "p1 = p\<lparr>waking := take k (waking p) @ drop (Suc k) (waking p)\<rparr>"
  define q where "q = (if pool_shutdown p then p1 else worker_try_wakeup i p1)"
  let ?n = "length (workers p)" and ?f = "\<lambda>w. is_idle (w_pc w)"
  have k: "k < length (waking p)" and r: "r = Inr q"
    using assms(2) by (auto simp: wake_pushed_def Let_def q_def p1_def i_def split: if_splits)
  have w1: "workers p1 = workers p" "waking q = waking p1" by (simp_all add: p1_def q_def)
  have in_set: "set (waking p) = insert i (set (waking q))"
    using remove_nth_set [OF k] unfolding w1 by (simp add: p1_def i_def)
  have i: "i < length (workers p1)" using assms(1) in_set by (auto simp: pool_ok_def w1)
  have same: "length (workers q) = ?n" "posted q = posted p" "started q = started p" "idle_count q = idle_count p"
    "pool_shutdown q = pool_shutdown p" "destroyer q = destroyer p" by (simp_all add: q_def p1_def)
  have u: "unmoved (workers p ! j) (workers q ! j)" for j using wakeup_worker(1) [OF i, of j] by (simp add: q_def w1)
  have wake: "w_wakeup (workers q ! i)" if "\<not> pool_shutdown p" "\<not> w_closing (workers p ! i)"
    using wakeup_worker(2) [OF i] that by (simp add: q_def w1)
  have "wk_ok q (D j) (J j) j (workers q ! j)" if j: "j < ?n" for j
  proof -
    have w: "wk_ok p (D j) (J j) j (workers p ! j)" using assms(1) j by (simp add: pool_ok_def)
    have cl: "w_closing (workers p ! j) = (w_pc (workers p ! j) = WExit)" using w by (simp add: wk_ok_def)
    have "j \<in> set (waking p) \<longrightarrow> j = i \<or> j \<in> set (waking q)" using in_set by blast
    then have "pool_shutdown p \<or> w_pc (workers p ! j) = WExit \<or> (j \<in> set (waking p) \<longrightarrow> w_wakeup (workers q ! j) \<or> j \<in> set (waking q))"
      using wake cl by blast
    then show ?thesis using w u [of j] unfolding wk_ok_def unmoved_def same by auto
  qed
  moreover have "map ?f (workers q) = map ?f (workers p)"
    using same(1) u by (intro nth_equalityI) (simp_all add: unmoved_def)
  then have "length (filter ?f (workers q)) = length (filter ?f (workers p))" by (simp only: count_map [of ?f])
  moreover have "queues (2 ^ 59 - length (posted p)) p1 D J"
    by (rule queues_same [of _ p]) (use assms(1) w1 in \<open>simp_all add: pool_ok_def\<close>)
  then have "queues (2 ^ 59 - length (posted p)) q D J" unfolding q_def using wakeup_queues by simp
  moreover have "set (waking q) \<subseteq> {..<?n}" using assms(1) in_set unfolding pool_ok_def by auto
  moreover have "queued q D J = queued p D J" by (rule queued_same [OF same(1)])
  moreover have "workers q \<noteq> []" using same(1) assms(1) by (metis length_0_conv pool_ok_def)
  ultimately have "pool_ok q D J" using assms(1) unfolding pool_ok_def same by simp
  with r show ?thesis by blast
qed

section \<open>Fibers, tasks and shutdown\<close>

lemma own_change_ok:
  assumes "pool_ok p D J" "i < length (workers p)"
    and "\<And>w. unmoved w (f w) \<and> w_deque (f w) = w_deque w \<and> w_injector (f w) = w_injector w"
  shows "pool_ok (upd_worker i f p) D J"
proof (rule pool_ok_step [OF assms(1,2)])
  have "wk_ok p (D i) (J i) i (workers p ! i)" using assms(1,2) by (simp add: pool_ok_def)
  moreover have "unmoved (workers p ! i) (workers (upd_worker i f p) ! i)" using assms(2,3) by simp
  ultimately show "wk_ok (upd_worker i f p) (D i) (J i) i (workers (upd_worker i f p) ! i)"
    by (rule wk_ok_unmoved) simp_all
  have "queues (2 ^ 59 - length (posted p)) p D J" using assms(1) by (simp add: pool_ok_def)
  then show "queues (2 ^ 59 - length (posted p)) (upd_worker i f p) D J" by (rule queues_keep) (use assms(3) in blast)
  show "idle_count (upd_worker i f p) + (if is_idle (w_pc (workers p ! i)) then 1 else 0)
      = idle_count p + (if is_idle (w_pc (workers (upd_worker i f p) ! i)) then 1 else 0)"
    using assms(2,3) by (simp add: unmoved_def)
qed (use assms(2) in \<open>simp_all add: queued_def\<close>)

definition poster_of :: "poster \<Rightarrow> nat" where
  "poster_of x = (case x of Tested i t \<Rightarrow> i | Queued i \<Rightarrow> i)"

definition posters_ok :: "goc_pool \<Rightarrow> bool" where
  "posters_ok p \<longleftrightarrow> (\<forall>x \<in> set (posters p). poster_of x < length (workers p))"

lemma pool_ok_posters: "pool_ok p D J \<Longrightarrow> pool_ok (p\<lparr>posters := xs\<rparr>) D J"
  by (rule pool_ok_same) simp_all

lemma handle_push_ok:
  assumes "pool_ok p D J" "posters_ok p" "handle_push k p = Some r"
  shows "\<exists>p'. r = Inr p' \<and> pool_ok p' D J \<and> posters_ok p'"
proof -
  let ?f = "\<lambda>t w. w\<lparr>task_queue := t # task_queue w, pending_handle_tasks := pending_handle_tasks w + 1, tasks_in := tasks_in w @ [t]\<rparr>"
  obtain i t where k: "k < length (posters p)" "posters p ! k = Tested i t"
    and r: "r = Inr ((upd_worker i (?f t) p)\<lparr>posters := (posters p)[k := Queued i]\<rparr>)"
    using assms(3) by (auto simp: handle_push_def split: if_splits poster.splits)
  have i: "i < length (workers p)" using assms(2) k nth_mem [OF k(1)] by (auto simp: posters_ok_def poster_of_def)
  have "pool_ok (upd_worker i (?f t) p) D J" by (rule own_change_ok [OF assms(1) i]) (simp add: unmoved_def tasks_ok_def)
  then have "pool_ok ((upd_worker i (?f t) p)\<lparr>posters := (posters p)[k := Queued i]\<rparr>) D J" by (rule pool_ok_posters)
  moreover have "posters_ok ((upd_worker i (?f t) p)\<lparr>posters := (posters p)[k := Queued i]\<rparr>)"
    using assms(2) i set_update_subset_insert [of "posters p" k "Queued i"] by (auto simp: posters_ok_def poster_of_def)
  ultimately show ?thesis using r by blast
qed

lemma handle_wake_ok:
  assumes "pool_ok p D J" "posters_ok p" "handle_wake k p = Some r"
  shows "caller_fault r \<or> (\<exists>p'. r = Inr p' \<and> pool_ok p' D J \<and> posters_ok p')"
proof -
  let ?p = "p\<lparr>posters := take k (posters p) @ drop (Suc k) (posters p)\<rparr>"
  obtain i where k: "k < length (posters p)" "posters p ! k = Queued i"
    and r: "r = (if w_closing (workers p ! i) then Inl (Abort ''post_on_handle_loop: cannot wake worker loop'')
                 else Inr (worker_try_wakeup i ?p))"
    using assms(3) by (auto simp: handle_wake_def Let_def split: if_splits poster.splits)
  have i: "i < length (workers p)" using assms(2) k nth_mem [OF k(1)] by (auto simp: posters_ok_def poster_of_def)
  have ok: "pool_ok (worker_try_wakeup i ?p) D J" using i by (intro wakeup_ok pool_ok_posters [OF assms(1)]) simp
  have "posters (worker_try_wakeup i ?p) = posters ?p" by (simp add: worker_try_wakeup_def upd_worker_def)
  then have "posters_ok (worker_try_wakeup i ?p)"
    using assms(2) by (auto simp: posters_ok_def dest: in_set_takeD in_set_dropD)
  with ok r show ?thesis by (simp add: caller_fault_def)
qed

lemma io_count_ok:
  assumes "pool_ok p D J" "i < length (workers p)"
  shows "pool_ok (goc_worker_io_handle_opened (Some i) p) D J"
    "goc_worker_io_handle_closed (Some i) p = Inr p' \<Longrightarrow> pool_ok p' D J"
  unfolding goc_worker_io_handle_opened_def goc_worker_io_handle_closed_def
  by (auto simp: unmoved_def tasks_ok_def intro!: own_change_ok [OF assms] split: if_splits)

lemma drain_io_ok:
  assumes "pool_ok p D J" "i < length (workers p)" "w_pc (workers p ! i) = WRun x"
  shows "pool_ok (drain_io i p) D J" "pcs (drain_io i p) = pcs p" "spawn_part (drain_io i p) = spawn_part p"
    "posted (drain_io i p) = posted p"
proof -
  have t: "tasks_ok (workers p ! i)" using assms(1,2) by (simp add: pool_ok_def wk_ok_def)
  have "pool_ok (deliver i p) D J"
    by (rule to_top_ok [OF assms(1,2), of _ "workers (deliver i p) ! i"])
      (use assms(2,3) t in \<open>simp_all add: deliver_def upd_worker_def drain_worker_tasks_def tasks_ok_def\<close>)
  with assms(1) show "pool_ok (drain_io i p) D J" by (simp add: drain_io_def)
  show "pcs (drain_io i p) = pcs p" by (auto simp: drain_io_def deliver_def drain_worker_tasks_def intro!: pcs_upd)
qed (simp_all add: drain_io_def deliver_def)

lemma pcs_worker: "\<lbrakk>pcs p' = pcs p; i < length (workers p)\<rbrakk> \<Longrightarrow> i < length (workers p') \<and> w_pc (workers p' ! i) = w_pc (workers p ! i)"
  unfolding pcs_def by (metis length_map nth_map)

lemma goto_top_ok:
  assumes "pool_ok p D J" "i < length (workers p)" "w_pc (workers p ! i) = WRun x"
  shows "pool_ok (goto i WTop p) D J"
  using assms(3) by (intro amid_goto [OF assms(1) amid_start [OF assms(1,2)]]) simp_all

lemma suspended_ok:
  assumes "pool_ok p D J" "i < length (workers p)" "w_pc (workers p ! i) = WRun x"
  shows "pool_ok (fiber_suspended i p) D J"
proof -
  let ?p = "drain_io i p"
  note d = drain_io_ok [OF assms]
  note w = pcs_worker [OF d(2) assms(2)]
  have "pool_ok (goto i WTop ?p) D J" using w assms(3) by (intro goto_top_ok [OF d(1)]) simp_all
  moreover have "pool_ok (goto i WTop (worker_try_wakeup (neighbor i ?p) ?p)) D J"
  proof (rule goto_top_ok)
    have "workers ?p \<noteq> []" using d(1) by (simp add: pool_ok_def)
    then show "pool_ok (worker_try_wakeup (neighbor i ?p) ?p) D J" by (intro wakeup_ok [OF d(1)] neighbor_less)
    show "w_pc (workers (worker_try_wakeup (neighbor i ?p) ?p) ! i) = WRun x"
      using pcs_worker [of "worker_try_wakeup (neighbor i ?p) ?p" ?p i] w assms(3) by simp
  qed (use w in simp)
  ultimately show ?thesis by (simp add: fiber_suspended_def Let_def)
qed

lemma destroy_begin_ok:
  assumes "pool_ok p D J" "destroy_begin p = Some r"
  shows "\<exists>p'. r = Inr p' \<and> pool_ok p' D J"
proof -
  let ?p = "p\<lparr>pool_shutdown := True, destroyer := Some 0\<rparr>"
  have r: "r = Inr ?p" using assms(2) by (auto simp: destroy_begin_def split: if_splits)
  have "pool_ok ?p D J" using assms(1) by (auto simp: pool_ok_def queues_def queued_def wk_ok_def)
  with r show ?thesis by blast
qed

lemma destroy_wake_ok:
  assumes "pool_ok p D J" "destroy_wake p = Some r"
  shows "\<exists>p'. r = Inr p' \<and> pool_ok p' D J"
proof -
  obtain k where k: "destroyer p = Some k" "k < length (workers p)" "r = Inr ((worker_try_wakeup k p)\<lparr>destroyer := Some (Suc k)\<rparr>)"
    using assms(2) by (auto simp: destroy_wake_def split: option.splits if_splits)
  let ?q = "worker_try_wakeup k p" and ?n = "length (workers p)"
  let ?p = "?q\<lparr>destroyer := Some (Suc k)\<rparr>"
  have ok: "pool_ok ?q D J" by (rule wakeup_ok [OF assms(1) k(2)])
  have "wk_ok ?p (D j) (J j) j (workers ?p ! j)" if j: "j < ?n" for j
  proof -
    have w: "wk_ok ?q (D j) (J j) j (workers ?q ! j)" using ok j by (simp add: pool_ok_def)
    have "past_check (w_pc (workers ?q ! j)) \<longrightarrow> w_wakeup (workers ?q ! j) \<or> Suc k \<le> j \<or> j < k"
    proof (cases "j = k")
      case True
      have "unmoved (workers p ! k) (workers ?q ! k)" by (rule wakeup_worker(1) [OF k(2)])
      then show ?thesis using True wakeup_worker(2) [OF k(2)] w by (auto simp: wk_ok_def unmoved_def)
    qed auto
    then show ?thesis using w k(1) unfolding wk_ok_def by auto
  qed
  then have "pool_ok ?p D J" using ok k(1) by (auto simp: pool_ok_def queues_def queued_def)
  with k(3) show ?thesis by blast
qed

end
