(* ===== verification/Goc_Pool_Inv.thy ===== *)
theory Goc_Pool_Inv
  imports Goc_Pool_Sched
begin

text \<open>
  The invariant of the spawning side of the scheduler - requests, counts, living fibers, joins - and
  that every step of workers, fibers and other threads keeps it together with the invariant of the
  queues, from the pool just made on.
\<close>

section \<open>The invariant of spawning\<close>

definition join_of :: "goc_pool \<Rightarrow> ptr \<Rightarrow> nat" where
  "join_of p e = sr_join (fb_req (fibers p ! (e - 1)))"

lemma join_of_upd [simp]:
  "join_of (p\<lparr>pending_spawn := rs\<rparr>) = join_of p" "join_of (p\<lparr>resident_count := n\<rparr>) = join_of p"
  "join_of (p\<lparr>live_count := n\<rparr>) = join_of p" "join_of (p\<lparr>alive := es\<rparr>) = join_of p"
  "join_of (p\<lparr>asked := rs\<rparr>) = join_of p" "join_of (p\<lparr>asked_in := rs\<rparr>) = join_of p"
  "join_of (p\<lparr>joined := js\<rparr>) = join_of p"
  by (intro ext; simp add: join_of_def)+

text \<open>
  \<open>adm\<close> and \<open>inn\<close>: requests from outside and from inside the pool that were admitted under the lock
  and whose fibers are not yet created.
\<close>

definition spawn_ok :: "goc_spawn_req list \<Rightarrow> goc_spawn_req list \<Rightarrow> goc_pool \<Rightarrow> bool" where
  "spawn_ok adm inn p \<longleftrightarrow>
     map fb_req (filter fb_ext (fibers p)) @ adm @ pending_spawn p = asked p
   \<and> map fb_req (filter (\<lambda>f. \<not> fb_ext f) (fibers p)) @ inn = asked_in p
   \<and> resident_count p = length (alive p) + length adm + length inn
   \<and> live_count p = length (alive p) + length adm + length inn + length (pending_spawn p)
   \<and> distinct (alive p) \<and> set (alive p) \<subseteq> {1..length (fibers p)}
   \<and> mset (joined p) + image_mset (join_of p) (mset (alive p)) = mset (map (\<lambda>f. sr_join (fb_req f)) (fibers p))"

text \<open>
  The cap holds, apart from the spawns of fibers, which are never deferred; and requests wait only
  while it is reached.
\<close>

definition capped :: "goc_pool \<Rightarrow> bool" where
  "capped p \<longleftrightarrow> (max_live_fibers p \<noteq> 0 \<longrightarrow> resident_count p \<le> max_live_fibers p + length (asked_in p))"

definition held :: "goc_pool \<Rightarrow> bool" where
  "held p \<longleftrightarrow> (pending_spawn p \<noteq> [] \<longrightarrow> pool_spawn_cap_reached_locked p) \<and> capped p"

lemma spawn_part_eq:
  assumes "spawn_part p' = spawn_part p"
  shows "spawn_ok adm inn p' = spawn_ok adm inn p" "held p' = held p" "pending_spawn p' = pending_spawn p"
    "asked p' = asked p" "asked_in p' = asked_in p" "fibers p' = fibers p" "alive p' = alive p" "joined p' = joined p"
    "live_count p' = live_count p" "resident_count p' = resident_count p" "max_live_fibers p' = max_live_fibers p"
proof -
  show eq: "pending_spawn p' = pending_spawn p"
    "asked p' = asked p" "asked_in p' = asked_in p" "fibers p' = fibers p" "alive p' = alive p" "joined p' = joined p"
    "live_count p' = live_count p" "resident_count p' = resident_count p" "max_live_fibers p' = max_live_fibers p"
    using assms by (simp_all add: spawn_part_def)
  have "join_of p' = join_of p" by (intro ext) (simp add: join_of_def eq)
  then show "spawn_ok adm inn p' = spawn_ok adm inn p" by (simp add: spawn_ok_def eq)
  show "held p' = held p" by (simp add: held_def capped_def pool_spawn_cap_reached_locked_def eq)
qed

lemma split_length: "length (filter P xs) + length (filter (\<lambda>x. \<not> P x) xs) = length xs"
  by (induction xs) auto

lemma live_bound:
  assumes "spawn_ok adm inn p"
  shows "live_count p \<le> length (asked p) + length (asked_in p)"
proof -
  have a: "length (alive p) \<le> length (fibers p)"
    using assms card_mono [of "{1..length (fibers p)}" "set (alive p)"] distinct_card [of "alive p"]
    by (simp add: spawn_ok_def)
  have "length (asked p) = length (filter fb_ext (fibers p)) + length adm + length (pending_spawn p)"
    "length (asked_in p) = length (filter (\<lambda>f. \<not> fb_ext f) (fibers p)) + length inn"
    using assms unfolding spawn_ok_def by (metis length_append length_map add.assoc)+
  with a split_length [of fb_ext "fibers p"] show ?thesis using assms by (simp add: spawn_ok_def)
qed

text \<open>The fields that the spawning side does not touch.\<close>

definition same_queues :: "goc_pool \<Rightarrow> goc_pool \<Rightarrow> bool" where
  "same_queues p p' \<longleftrightarrow> workers p' = workers p \<and> posted p' = posted p \<and> started p' = started p \<and> waking p' = waking p
     \<and> idle_count p' = idle_count p \<and> pool_shutdown p' = pool_shutdown p \<and> destroyer p' = destroyer p"

lemma same_queues_ok: "\<lbrakk>same_queues p p'; pool_ok p D J\<rbrakk> \<Longrightarrow> pool_ok p' D J"
  unfolding same_queues_def by (rule pool_ok_same) simp_all

lemma same_queues_refl [simp]: "same_queues p p"
  by (simp add: same_queues_def)

lemma admit_ok:
  assumes "spawn_ok adm inn p" "live_count p < 2 ^ 64" "pool_collect_admitted_spawns_locked p = (adm', p')" "capped p"
  shows "spawn_ok (adm @ adm') inn p' \<and> held p' \<and> same_queues p p' \<and> length adm' + length (pending_spawn p') = length (pending_spawn p)
       \<and> asked p' = asked p \<and> asked_in p' = asked_in p \<and> live_count p' = live_count p"
  using assms
proof (induction p arbitrary: adm adm' p' rule: pool_collect_admitted_spawns_locked.induct)
  case (1 p)
  show ?case
  proof (cases "pending_spawn p = [] \<or> pool_spawn_cap_reached_locked p")
    case True
    then have "adm' = []" "p' = p" using "1.prems"(3)
      by (auto simp: pool_collect_admitted_spawns_locked.simps [of p] split: list.splits)
    then show ?thesis using True "1.prems"(1,4) by (auto simp: held_def)
  next
    case False
    then obtain r rs where rs: "pending_spawn p = r # rs" by (cases "pending_spawn p") auto
    let ?p = "p\<lparr>pending_spawn := rs, resident_count := size_add (resident_count p) 1\<rparr>"
    obtain adm2 where c: "pool_collect_admitted_spawns_locked ?p = (adm2, p')" "adm' = r # adm2"
      using "1.prems"(3) False rs
      by (auto simp: pool_collect_admitted_spawns_locked.simps [of p] split: prod.splits)
    have rc: "size_add (length (alive p) + length adm + length inn) 1 = Suc (length (alive p) + length adm + length inn)"
      using "1.prems"(1,2) by (intro trans [OF size_add_eq]) (auto simp: spawn_ok_def rs)
    have s1: "spawn_ok (adm @ [r]) inn ?p" using "1.prems"(1) rc by (simp add: spawn_ok_def rs)
    have "resident_count p = length (alive p) + length adm + length inn" using "1.prems"(1) by (simp add: spawn_ok_def)
    then have c1: "capped ?p" using False rc by (auto simp: capped_def pool_spawn_cap_reached_locked_def)
    from "1.IH" [OF rs _ s1 _ c(1) c1] False "1.prems"(2) c(2) rs show ?thesis by (simp add: same_queues_def)
  qed
qed

section \<open>Creating and posting fibers\<close>

lemma create_ok:
  assumes "if ext then spawn_ok (r # adm) inn p else spawn_ok adm (r # inn) p"
    "goc_fiber_entry_create ext r p = (e, p')"
  shows "spawn_ok adm inn p'" "is_fiber e p'" "same_queues p p'" "pending_spawn p' = pending_spawn p"
    "asked p' = asked p" "asked_in p' = asked_in p" "max_live_fibers p' = max_live_fibers p"
    "resident_count p' = resident_count p"
proof -
  have e: "e = Suc (length (fibers p))"
    and p': "p' = p\<lparr>fibers := fibers p @ [\<lparr>fb_req = r, fb_home = 0, fb_ext = ext\<rparr>], alive := alive p @ [e]\<rparr>"
    using assms(2) by (auto simp: goc_fiber_entry_create_def Let_def)
  have al: "set (alive p) \<subseteq> {1..length (fibers p)}" "distinct (alive p)"
    and jn: "mset (joined p) + image_mset (join_of p) (mset (alive p)) = mset (map (\<lambda>f. sr_join (fb_req f)) (fibers p))"
    using assms(1) by (auto simp: spawn_ok_def split: if_splits)
  have "join_of p' x = join_of p x" if "x \<in> set (alive p)" for x
  proof -
    have "x - 1 < length (fibers p)" using al that by fastforce
    then show ?thesis by (simp add: join_of_def p' nth_append)
  qed
  then have "image_mset (join_of p') (mset (alive p)) = image_mset (join_of p) (mset (alive p))"
    by (intro image_mset_cong) simp
  moreover have "join_of p' e = sr_join r" by (simp add: join_of_def p' e)
  ultimately have "mset (joined p') + image_mset (join_of p') (mset (alive p'))
      = mset (map (\<lambda>f. sr_join (fb_req f)) (fibers p'))"
    using jn by (simp add: p')
  moreover have "distinct (alive p')" "set (alive p') \<subseteq> {1..length (fibers p')}" using al by (auto simp: p' e)
  ultimately show "spawn_ok adm inn p'" using assms(1) by (auto simp: spawn_ok_def p' split: if_splits)
qed (use assms(2) in \<open>auto simp: goc_fiber_entry_create_def Let_def is_fiber_def same_queues_def\<close>)

lemma set_home_ok:
  assumes "is_fiber e p"
  shows "spawn_ok adm inn (set_home e h p) = spawn_ok adm inn p" "same_queues p (set_home e h p)"
    "pending_spawn (set_home e h p) = pending_spawn p" "asked (set_home e h p) = asked p"
    "asked_in (set_home e h p) = asked_in p" "max_live_fibers (set_home e h p) = max_live_fibers p"
    "resident_count (set_home e h p) = resident_count p" "is_fiber e (set_home e h p)"
proof -
  let ?q = "set_home e h p"
  have e: "e - 1 < length (fibers p)" using assms by (auto simp: is_fiber_def)
  have m: "map (\<lambda>f. (fb_req f, fb_ext f)) (fibers ?q) = map (\<lambda>f. (fb_req f, fb_ext f)) (fibers p)"
    using e by (intro nth_equalityI) (auto simp: set_home_def nth_list_update)
  have "map fb_req (filter fb_ext fs) = map fst (filter snd (map (\<lambda>f. (fb_req f, fb_ext f)) fs))"
    "map fb_req (filter (\<lambda>f. \<not> fb_ext f) fs) = map fst (filter (\<lambda>x. \<not> snd x) (map (\<lambda>f. (fb_req f, fb_ext f)) fs))"
    "map (\<lambda>f. sr_join (fb_req f)) fs = map (\<lambda>x. sr_join (fst x)) (map (\<lambda>f. (fb_req f, fb_ext f)) fs)"
    for fs by (induction fs) auto
  note proj = this
  have "join_of ?q = join_of p" using e by (intro ext) (auto simp: join_of_def set_home_def nth_list_update)
  then show "spawn_ok adm inn ?q = spawn_ok adm inn p"
    unfolding spawn_ok_def proj m by (simp add: set_home_def)
qed (use assms in \<open>simp_all add: set_home_def same_queues_def is_fiber_def\<close>)

text \<open>How creating and posting \<open>k\<close> fibers ends.\<close>

definition settled :: "goc_spawn_req list \<Rightarrow> goc_spawn_req list \<Rightarrow> nat \<Rightarrow> goc_pool \<Rightarrow> goc_pool \<Rightarrow> bool" where
  "settled adm inn k p p' \<longleftrightarrow> (\<exists>D J. pool_ok p' D J) \<and> spawn_ok adm inn p' \<and> held p' \<and> pcs p' = pcs p
     \<and> length (posted p') = length (posted p) + k \<and> pending_spawn p' = pending_spawn p
     \<and> asked p' = asked p \<and> asked_in p' = asked_in p"

lemma caller_fault_Inr [simp]: "\<not> caller_fault (Inr x)"
  by (simp add: caller_fault_def)

lemma caller_fault_rbind: "caller_fault r \<Longrightarrow> caller_fault (rbind r f)"
  by (auto simp: caller_fault_def)

lemma same_queues_pcs: "same_queues p p' \<Longrightarrow> pcs p' = pcs p"
  by (simp add: same_queues_def pcs_def)

lemma caller_ok_pcs: "\<lbrakk>caller_ok cur p; pcs p' = pcs p\<rbrakk> \<Longrightarrow> caller_ok cur p'"
  by (simp add: caller_ok_def)

lemma held_eq:
  "\<lbrakk>pending_spawn p' = pending_spawn p; resident_count p' = resident_count p; max_live_fibers p' = max_live_fibers p;
    asked_in p' = asked_in p\<rbrakk>
   \<Longrightarrow> held p' = held p"
  by (simp add: held_def capped_def pool_spawn_cap_reached_locked_def)

lemma same_queues_trans: "\<lbrakk>same_queues p q; same_queues q r\<rbrakk> \<Longrightarrow> same_queues p r"
  by (simp add: same_queues_def)

text \<open>A fiber just created, at home anywhere or on a worker, is posted.\<close>

lemma posts_settled:
  assumes "posts_entry e q p'" "spawn_ok adm inn q" "held q" "same_queues p q" "pending_spawn q = pending_spawn p"
    "asked q = asked p" "asked_in q = asked_in p"
  shows "settled adm inn 1 p p'"
proof -
  have sp: "spawn_part p' = spawn_part q" using assms(1) by (simp add: posts_entry_def)
  note eq = spawn_part_eq [OF sp]
  have "pcs p' = pcs p" "length (posted p') = length (posted p) + 1"
    using assms(1,4) same_queues_pcs [OF assms(4)] by (auto simp: posts_entry_def same_queues_def)
  then show ?thesis using assms(1,2,3,5-7) unfolding settled_def posts_entry_def eq by blast
qed

lemma post_created_ok:
  assumes "pool_ok p D J" "caller_ok cur p" "length (posted p) < 2 ^ 59"
    "if ext then spawn_ok (r # adm) inn p else spawn_ok adm (r # inn) p" "held p"
    "goc_fiber_entry_create ext r p = (e, q)"
  shows "\<exists>p'. post_to_run_queue cur e q = Inr p' \<and> settled adm inn 1 p p'"
    "caller_fault (post_to_specific_worker cur h e (set_home e h q))
     \<or> (\<exists>p'. post_to_specific_worker cur h e (set_home e h q) = Inr p' \<and> settled adm inn 1 p p')"
proof -
  note c = create_ok [OF assms(4,6)]
  note h = set_home_ok [OF c(2)]
  have e: "e \<noteq> NULL" using c(2) by (simp add: is_fiber_def)
  have ready: "pool_ok q' D J" "caller_ok cur q'" "length (posted q') < 2 ^ 59" if sq: "same_queues p q'" for q'
    using same_queues_ok [OF sq assms(1)] caller_ok_pcs [OF assms(2) same_queues_pcs [OF sq]] assms(3) sq
    by (simp_all add: same_queues_def)
  have hq: "held q" using assms(5) held_eq [OF c(4,8,7,6)] by simp
  from post_run_ok [OF ready(1,2) [OF c(3)] e ready(3) [OF c(3)]]
  show "\<exists>p'. post_to_run_queue cur e q = Inr p' \<and> settled adm inn 1 p p'"
    using posts_settled [OF _ c(1) hq c(3,4,5,6)] by blast
  have sq: "same_queues p (set_home e h q)" by (rule same_queues_trans [OF c(3) h(2)])
  have "held (set_home e h q)" using hq held_eq [OF h(3,7,6,5)] by simp
  then have "posts_entry e (set_home e h q) p' \<Longrightarrow> settled adm inn 1 p p'" for p'
    using c h by (intro posts_settled [OF _ _ _ sq]) simp_all
  then show "caller_fault (post_to_specific_worker cur h e (set_home e h q))
     \<or> (\<exists>p'. post_to_specific_worker cur h e (set_home e h q) = Inr p' \<and> settled adm inn 1 p p')"
    using post_specific_ok [OF ready(1,2) [OF sq] e ready(3) [OF sq], of h] by blast
qed

lemma settled_add:
  assumes "settled adm1 inn1 j p q" "settled adm inn k q p'"
  shows "settled adm inn (j + k) p p'"
  using assms by (simp add: settled_def)

lemma dispatch_ok:
  assumes "pool_ok p D J" "caller_ok cur p" "length (posted p) + length adm \<le> 2 ^ 59" "spawn_ok adm [] p" "held p"
  shows "caller_fault (pool_dispatch_spawn_list cur adm p)
     \<or> (\<exists>p'. pool_dispatch_spawn_list cur adm p = Inr p' \<and> settled [] [] (length adm) p p')"
  using assms
proof (induction adm arbitrary: p D J)
  case Nil
  then show ?case by (auto simp: settled_def)
next
  case (Cons r adm)
  obtain e q where c: "goc_fiber_entry_create True r p = (e, q)" by force
  let ?post = "if sr_home r \<noteq> SIZE_MAX then post_to_specific_worker cur (sr_home r) e (set_home e (sr_home r) q)
    else post_to_run_queue cur e q"
  have run: "pool_dispatch_spawn_list cur (r # adm) p = rbind ?post (pool_dispatch_spawn_list cur adm)" by (simp add: c)
  have l: "length (posted p) < 2 ^ 59" using Cons.prems(3) by simp
  have s: "if True then spawn_ok (r # adm) [] p else spawn_ok adm [r] p" using Cons.prems(4) by simp
  from post_created_ok [OF Cons.prems(1,2) l s Cons.prems(5) c]
  have "caller_fault ?post \<or> (\<exists>q1. ?post = Inr q1 \<and> settled adm [] 1 p q1)" by metis
  then show ?case
  proof
    assume "caller_fault ?post"
    then show ?thesis unfolding run using caller_fault_rbind by blast
  next
    assume "\<exists>q1. ?post = Inr q1 \<and> settled adm [] 1 p q1"
    then obtain q1 where q1: "?post = Inr q1" "settled adm [] 1 p q1" by blast
    obtain D1 J1 where ok: "pool_ok q1 D1 J1" using q1(2) by (auto simp: settled_def)
    have "caller_ok cur q1" using caller_ok_pcs [OF Cons.prems(2)] q1(2) by (simp add: settled_def)
    from Cons.IH [OF ok this] have "caller_fault (pool_dispatch_spawn_list cur adm q1)
       \<or> (\<exists>p'. pool_dispatch_spawn_list cur adm q1 = Inr p' \<and> settled [] [] (length adm) q1 p')"
      using q1(2) Cons.prems(3) by (simp add: settled_def)
    moreover have "pool_dispatch_spawn_list cur (r # adm) p = pool_dispatch_spawn_list cur adm q1"
      unfolding run q1(1) by simp
    ultimately show ?thesis using settled_add [OF q1(2)] by auto
  qed
qed

section \<open>The invariant of the scheduler\<close>

text \<open>\<open>k\<close> bounds what happened so far, so that no counter wraps and no deque outgrows its index type.\<close>

definition pool_inv :: "nat \<Rightarrow> goc_pool \<Rightarrow> bool" where
  "pool_inv k p \<longleftrightarrow> (\<exists>D J. pool_ok p D J) \<and> spawn_ok [] [] p \<and> held p
     \<and> length (posted p) + length (pending_spawn p) \<le> k \<and> length (asked p) + length (asked_in p) \<le> k"

definition keeps_inv :: "nat \<Rightarrow> goc_pool res \<Rightarrow> bool" where
  "keeps_inv k r \<longleftrightarrow> caller_fault r \<or> (\<exists>p. r = Inr p \<and> pool_inv k p)"

lemma keeps_invI:
  assumes "caller_fault r \<or> (\<exists>p'. r = Inr p' \<and> settled [] [] j q p')"
    "length (posted q) + j + length (pending_spawn q) \<le> k" "length (asked q) + length (asked_in q) \<le> k"
  shows "keeps_inv k r"
  using assms by (auto simp: keeps_inv_def pool_inv_def settled_def)

text \<open>Requests queued, then admitted as far as the cap allows, then created and posted.\<close>

lemma admit_dispatch_ok:
  assumes "pool_ok p D J" "caller_ok cur p" "spawn_ok [] [] p"
    "length (posted p) + length (pending_spawn p) \<le> k" "length (asked p) + length (asked_in p) \<le> k" "k < 2 ^ 59"
    "pool_collect_admitted_spawns_locked p = (adm, q)" "capped p"
  shows "caller_fault (pool_dispatch_spawn_list cur adm q)
     \<or> (\<exists>p'. pool_dispatch_spawn_list cur adm q = Inr p' \<and> pcs p' = pcs p \<and> pool_inv k p')"
proof -
  have "live_count p < 2 ^ 64" using live_bound [OF assms(3)] assms(5,6) by simp
  from admit_ok [OF assms(3) this assms(7,8)]
  have a: "spawn_ok adm [] q" "held q" "same_queues p q" "length adm + length (pending_spawn q) = length (pending_spawn p)"
    "asked q = asked p" "asked_in q = asked_in p" by auto
  have "pool_ok q D J" "caller_ok cur q" "pcs q = pcs p" "posted q = posted p"
    using same_queues_ok [OF a(3) assms(1)] caller_ok_pcs [OF assms(2) same_queues_pcs [OF a(3)]] same_queues_pcs [OF a(3)] a(3)
    by (simp_all add: same_queues_def)
  moreover from this have "length (posted q) + length adm \<le> 2 ^ 59" using a(4) assms(4,6) by simp
  ultimately show ?thesis using dispatch_ok [of q D J cur adm] a assms(4,5)
    by (auto simp: pool_inv_def settled_def)
qed

lemma submit_spawn_ok:
  assumes "pool_inv k p" "caller_ok cur p" "k < 2 ^ 58"
    and post: "\<And>q. post = post_to_run_queue cur \<or> post = (\<lambda>e q. post_to_specific_worker cur h e (set_home e h q))"
  shows "keeps_inv (Suc k) (submit_spawn cur r post p)"
proof -
  obtain D J where ok: "pool_ok p D J" and sp: "spawn_ok [] [] p" and h: "held p"
    and b: "length (posted p) + length (pending_spawn p) \<le> k" "length (asked p) + length (asked_in p) \<le> k"
    using assms(1) by (auto simp: pool_inv_def)
  have live: "length (alive p) + length (pending_spawn p) \<le> k" using live_bound [OF sp] b sp by (simp add: spawn_ok_def)
  define p1 where "p1 = p\<lparr>live_count := size_add (live_count p) 1, asked := (if cur \<noteq> None then asked p else asked p @ [r]),
     asked_in := (if cur \<noteq> None then asked_in p @ [r] else asked_in p)\<rparr>"
  have plus: "size_add (live_count p) 1 = live_count p + 1" "size_add (resident_count p) 1 = resident_count p + 1"
    using live sp assms(3) by (auto simp: spawn_ok_def intro!: trans [OF size_add_eq])
  have b1: "length (asked p1) + length (asked_in p1) \<le> Suc k" using b(2) by (simp add: p1_def)
  have p1: "pending_spawn p1 = pending_spawn p" "resident_count p1 = resident_count p" "posted p1 = posted p"
    "max_live_fibers p1 = max_live_fibers p" by (simp_all add: p1_def)
  show ?thesis
  proof (cases "cur \<noteq> None \<or> pending_spawn p1 = [] \<and> \<not> pool_spawn_cap_reached_locked p1")
    case True
    define p2 where "p2 = p1\<lparr>resident_count := size_add (resident_count p1) 1\<rparr>"
    obtain e q where c: "goc_fiber_entry_create (cur = None) r p2 = (e, q)" by force
    have run: "submit_spawn cur r post p = post e q"
      unfolding submit_spawn_def Let_def p1_def [symmetric] p2_def [symmetric] using True c by simp
    have sq: "same_queues p p2" by (simp add: same_queues_def p1_def p2_def)
    have pn: "cur = None \<longrightarrow> pending_spawn p = []" using True p1(1) by auto
    have s2: "if cur = None then spawn_ok [r] [] p2 else spawn_ok [] [r] p2"
      using sp pn plus by (cases cur) (simp_all add: spawn_ok_def p1_def p2_def)
    have h2: "held p2" using h True plus by (auto simp: held_def capped_def pool_spawn_cap_reached_locked_def p1_def p2_def)
    have "pool_ok p2 D J" "caller_ok cur p2" "length (posted p2) < 2 ^ 59"
      using same_queues_ok [OF sq ok] caller_ok_pcs [OF assms(2) same_queues_pcs [OF sq]] b assms(3)
      by (simp_all add: p1_def p2_def)
    from post_created_ok [OF this s2 h2 c]
    have "caller_fault (post e q) \<or> (\<exists>p'. post e q = Inr p' \<and> settled [] [] 1 p2 p')" using post by blast
    then show ?thesis unfolding run by (rule keeps_invI) (use b b1 p1 in \<open>simp_all add: p2_def\<close>)
  next
    case False
    define p2 where "p2 = pool_enqueue_spawn_locked r p1"
    obtain adm q where c: "pool_collect_admitted_spawns_locked p2 = (adm, q)" by force
    have run: "submit_spawn cur r post p = pool_dispatch_spawn_list cur adm q"
      unfolding submit_spawn_def Let_def p1_def [symmetric] p2_def [symmetric] using False c by auto
    have sq: "same_queues p p2" by (simp add: same_queues_def p1_def p2_def pool_enqueue_spawn_locked_def)
    have "spawn_ok [] [] p2"
      using sp False plus by (simp add: spawn_ok_def p1_def p2_def pool_enqueue_spawn_locked_def)
    moreover have "capped p2" using h False by (simp add: held_def capped_def p1_def p2_def pool_enqueue_spawn_locked_def)
    ultimately have "length (posted p2) + length (pending_spawn p2) \<le> Suc k \<Longrightarrow> length (asked p2) + length (asked_in p2) \<le> Suc k
       \<Longrightarrow> caller_fault (pool_dispatch_spawn_list cur adm q) \<or> (\<exists>p'. pool_dispatch_spawn_list cur adm q = Inr p' \<and> pcs p' = pcs p2 \<and> pool_inv (Suc k) p')"
      using admit_dispatch_ok [OF same_queues_ok [OF sq ok] caller_ok_pcs [OF assms(2) same_queues_pcs [OF sq]] _ _ _ _ c, of "Suc k"] assms(3)
      by simp
    then
    show ?thesis unfolding run keeps_inv_def
      using b b1 p1 assms(3) by (auto simp: p2_def pool_enqueue_spawn_locked_def)
  qed
qed

lemma pool_inv_keep:
  assumes "pool_inv k p" "pool_ok p' D J" "spawn_part p' = spawn_part p" "posted p' = posted p"
  shows "pool_inv k p'"
  using assms(1,2,4) unfolding pool_inv_def spawn_part_eq [OF assms(3)] by auto

lemma pool_inv_mono: "\<lbrakk>pool_inv k p; k \<le> l\<rbrakk> \<Longrightarrow> pool_inv l p"
  by (auto simp: pool_inv_def)

definition leave :: "ptr \<Rightarrow> goc_pool \<Rightarrow> goc_pool" where
  "leave e p = p\<lparr>joined := joined p @ [join_of p e],
     resident_count := if 0 < resident_count p then size_sub (resident_count p) 1 else resident_count p,
     live_count := size_sub (live_count p) 1, alive := remove1 e (alive p)\<rparr>"

lemma leave_ok:
  assumes "spawn_ok [] [] p" "e \<in> set (alive p)" "live_count p < 2 ^ 64"
  shows "spawn_ok [] [] (leave e p)" "resident_count (leave e p) \<le> resident_count p"
proof -
  obtain n where n: "length (alive p) = Suc n" using assms(2) by (cases "alive p") auto
  have lc: "resident_count p = Suc n" "live_count p = Suc n + length (pending_spawn p)"
    using assms(1) n by (simp_all add: spawn_ok_def)
  have minus: "size_sub (Suc n) 1 = n" "size_sub (Suc n + length (pending_spawn p)) 1 = n + length (pending_spawn p)"
    using lc assms(3) by (auto intro!: trans [OF size_sub_eq])
  have m: "mset (alive p) = add_mset e (mset (remove1 e (alive p)))" using assms(2) by simp
  have "mset (joined p) + image_mset (join_of p) (mset (alive p)) = mset (map (\<lambda>f. sr_join (fb_req f)) (fibers p))"
    using assms(1) by (simp only: spawn_ok_def)
  then have "mset (joined p @ [join_of p e]) + image_mset (join_of p) (mset (remove1 e (alive p)))
      = mset (map (\<lambda>f. sr_join (fb_req f)) (fibers p))" unfolding m by simp
  moreover have "length (remove1 e (alive p)) = n" using n assms(2) by (simp add: length_remove1)
  moreover have "set (remove1 e (alive p)) \<subseteq> {1..length (fibers p)}" "distinct (remove1 e (alive p))"
    using assms(1) set_remove1_subset [of e "alive p"] by (auto simp: spawn_ok_def)
  moreover have "alive p \<noteq> []" using assms(2) by auto
  ultimately show "spawn_ok [] [] (leave e p)" using assms(1) minus unfolding spawn_ok_def leave_def lc by simp
  show "resident_count (leave e p) \<le> resident_count p" using minus(1) lc by (simp add: leave_def)
qed

lemma fiber_dead_ok:
  assumes "pool_inv k p" "i < length (workers p)" "w_pc (workers p ! i) = WRun e" "e \<in> set (alive p)" "k < 2 ^ 58"
  shows "keeps_inv k (fiber_dead i e p)"
proof -
  obtain D J where ok: "pool_ok p D J" and sp: "spawn_ok [] [] p" and h: "held p"
    and b: "length (posted p) + length (pending_spawn p) \<le> k" "length (asked p) + length (asked_in p) \<le> k"
    using assms(1) by (auto simp: pool_inv_def)
  define p0 where "p0 = p\<lparr>joined := joined p @ [join_of p e]\<rparr>"
  define p1 where "p1 = drain_io i p0"
  define p2 where "p2 = p1\<lparr>resident_count := if 0 < resident_count p1 then size_sub (resident_count p1) 1 else resident_count p1,
     live_count := size_sub (live_count p1) 1, alive := remove1 e (alive p1)\<rparr>"
  obtain adm q where c: "pool_collect_admitted_spawns_locked p2 = (adm, q)" by force
  have run: "fiber_dead i e p = rbind (pool_dispatch_spawn_list (Some i) adm q) (\<lambda>p4. Inr (goto i WTop p4))"
    unfolding fiber_dead_def Let_def join_of_def [symmetric] p0_def [symmetric] p1_def [symmetric] p2_def [symmetric] c by simp
  have ok0: "pool_ok p0 D J" by (rule pool_ok_same [OF ok]) (simp_all add: p0_def)
  have w0: "i < length (workers p0)" "w_pc (workers p0 ! i) = WRun e" using assms(2,3) by (simp_all add: p0_def)
  note d = drain_io_ok [OF ok0 w0, folded p1_def]
  note d1 = spawn_part_eq [OF d(3)]
  have l: "live_count p < 2 ^ 64" using live_bound [OF sp] b(2) assms(5) by simp
  note lv = leave_ok [OF sp assms(4) l]
  have sl: "spawn_part p2 = spawn_part (leave e p)"
    using d(3) unfolding spawn_part_def p2_def p0_def leave_def by auto
  have sp2: "spawn_ok [] [] p2" using spawn_part_eq(1) [OF sl] lv(1) by blast
  have "asked_in (leave e p) = asked_in p" "max_live_fibers (leave e p) = max_live_fibers p" by (simp_all add: leave_def)
  then have cap2: "capped p2" using h lv(2) spawn_part_eq(5,10,11) [OF sl] by (auto simp: held_def capped_def)
  have sq: "same_queues p1 p2" by (simp add: same_queues_def p2_def)
  have ok2: "pool_ok p2 D J" by (rule same_queues_ok [OF sq d(1)])
  have pc2: "pcs p2 = pcs p" using same_queues_pcs [OF sq] d(2) by (simp add: p0_def pcs_def)
  have "caller_ok (Some i) p" using assms(2,3) by (simp add: caller_ok_def pcs_def)
  then have call2: "caller_ok (Some i) p2" by (rule caller_ok_pcs [OF _ pc2])
  have "posted p2 = posted p" using d(4) by (simp add: p2_def p0_def)
  moreover have "pending_spawn p2 = pending_spawn p" "asked p2 = asked p" "asked_in p2 = asked_in p"
    using spawn_part_eq [OF sl] by (simp_all add: leave_def)
  ultimately have "caller_fault (pool_dispatch_spawn_list (Some i) adm q)
     \<or> (\<exists>p'. pool_dispatch_spawn_list (Some i) adm q = Inr p' \<and> pcs p' = pcs p \<and> pool_inv k p')"
    using admit_dispatch_ok [OF ok2 call2 sp2 _ _ _ c cap2, of k] b assms(5) unfolding pc2 by simp
  then show ?thesis
  proof
    assume "caller_fault (pool_dispatch_spawn_list (Some i) adm q)"
    then show ?thesis unfolding run keeps_inv_def using caller_fault_rbind by blast
  next
    assume "\<exists>p'. pool_dispatch_spawn_list (Some i) adm q = Inr p' \<and> pcs p' = pcs p \<and> pool_inv k p'"
    then obtain p' D' J' where p': "pool_dispatch_spawn_list (Some i) adm q = Inr p'" "pcs p' = pcs p" "pool_inv k p'" "pool_ok p' D' J'"
      unfolding pool_inv_def by blast
    have "pool_ok (goto i WTop p') D' J'"
      using pcs_worker [OF p'(2) assms(2)] assms(3) by (intro goto_top_ok [OF p'(4)]) simp_all
    then have "pool_inv k (goto i WTop p')" by (rule pool_inv_keep [OF p'(3)]) (simp_all add: goto_def)
    then show ?thesis unfolding run keeps_inv_def p'(1) by simp
  qed
qed

section \<open>Every step keeps the invariant\<close>

lemma with_queue_same:
  "with_deque i f p = Inr (e, p') \<Longrightarrow> spawn_part p' = spawn_part p \<and> posted p' = posted p"
  "with_injector i g p = Inr (e, p') \<Longrightarrow> spawn_part p' = spawn_part p \<and> posted p' = posted p"
  by (auto simp: with_deque_def with_injector_def)

lemma own_keeps_spawns [simp]:
  "spawn_part (no_miss i p) = spawn_part p" "spawn_part (miss i p) = spawn_part p" "spawn_part (hit i v p) = spawn_part p"
  "spawn_part (goto i pc p) = spawn_part p" "spawn_part (start_scan i p) = spawn_part p" "spawn_part (deliver i p) = spawn_part p"
  "spawn_part (p\<lparr>idle_count := n\<rparr>) = spawn_part p" "spawn_part (p\<lparr>started := es\<rparr>) = spawn_part p"
  "posted (no_miss i p) = posted p" "posted (miss i p) = posted p" "posted (hit i v p) = posted p"
  "posted (goto i pc p) = posted p" "posted (start_scan i p) = posted p" "posted (deliver i p) = posted p"
  "spawn_part (pick_up i e p) = spawn_part p" "posted (pick_up i e p) = posted p"
  by (simp_all add: no_miss_def miss_def hit_def goto_def start_scan_def deliver_def pick_up_def spawn_part_def upd_worker_def)

lemma queue_step_Inr:
  "obind (Some m) (\<lambda>(e, q). Some (Inr (h e q))) = Some (Inr p') \<longleftrightarrow> (\<exists>e q. m = Inr (e, q) \<and> p' = h e q)"
  by (cases m) auto

lemma steal_same:
  assumes "steal_from i v next p = Some (Inr p')" "\<And>q. spawn_part (next q) = spawn_part q \<and> posted (next q) = posted q"
  shows "spawn_part p' = spawn_part p \<and> posted p' = posted p"
  using assms by (auto simp: steal_from_def queue_step_Inr dest!: with_queue_same split: if_splits)

lemma worker_step_same:
  assumes "worker_step i p = Some (Inr p')"
  shows "spawn_part p' = spawn_part p \<and> posted p' = posted p"
  using assms
  by (cases "w_pc (workers p ! i)")
    (auto simp: worker_step_def Let_def queue_step_Inr dest!: with_queue_same steal_same split: if_splits)

lemma post_inv:
  assumes "pool_inv k p" "caller_fault r \<or> (\<exists>p'. r = Inr p' \<and> posts_entry e p p')"
  shows "keeps_inv (Suc k) r"
  using assms(2)
proof
  assume "\<exists>p'. r = Inr p' \<and> posts_entry e p p'"
  then obtain p' where p': "r = Inr p'" "posts_entry e p p'" by blast
  then have "spawn_part p' = spawn_part p" by (simp add: posts_entry_def)
  note eq = spawn_part_eq [OF this]
  have "pool_inv (Suc k) p'" using assms(1) p'(2) unfolding pool_inv_def posts_entry_def eq by auto
  with p'(1) show ?thesis by (simp add: keeps_inv_def)
qed (simp add: keeps_inv_def)

lemma keeps_inv_Inr [simp]: "keeps_inv k (Inr p) = pool_inv k p"
  by (simp add: keeps_inv_def)

lemma in_fiberD:
  "in_fiber i f p = Some r \<Longrightarrow> \<exists>e. i < length (workers p) \<and> w_pc (workers p ! i) = WRun e \<and> r = f e p"
  by (auto simp: in_fiber_def split: if_splits worker_pc.splits)

lemma in_fiber_caller: "\<lbrakk>i < length (workers p); w_pc (workers p ! i) = WRun e\<rbrakk> \<Longrightarrow> caller_ok (Some i) p"
  by (simp add: caller_ok_def pcs_def)

text \<open>The steps of the workers, wake-ups and the shutdown.\<close>

lemma spawn_part_other [simp]:
  "spawn_part (p\<lparr>waking := ks\<rparr>) = spawn_part p" "spawn_part (p\<lparr>destroyer := k\<rparr>) = spawn_part p"
  "spawn_part (p\<lparr>pool_shutdown := b\<rparr>) = spawn_part p" "spawn_part (p\<lparr>posters := xs\<rparr>) = spawn_part p"
  by (simp_all add: spawn_part_def)

lemma other_steps_same:
  "io_event i p = Some (Inr p') \<Longrightarrow> spawn_part p' = spawn_part p \<and> posted p' = posted p"
  "wake_pushed i p = Some (Inr p') \<Longrightarrow> spawn_part p' = spawn_part p \<and> posted p' = posted p"
  "destroy_begin p = Some (Inr p') \<Longrightarrow> spawn_part p' = spawn_part p \<and> posted p' = posted p"
  "destroy_wake p = Some (Inr p') \<Longrightarrow> spawn_part p' = spawn_part p \<and> posted p' = posted p"
  by (auto simp: io_event_def wake_pushed_def Let_def destroy_begin_def destroy_wake_def split: if_splits option.splits)

lemma own_steps_inv:
  assumes "pool_inv k p" "a \<in> {Step i, Io i, Wake i, DestroyBegin, DestroyWake}" "pool_step a p = Some r"
  shows "keeps_inv k r"
proof -
  obtain D J where ok: "pool_ok p D J" using assms(1) by (auto simp: pool_inv_def)
  have "\<exists>p' D' J'. r = Inr p' \<and> pool_ok p' D' J' \<and> spawn_part p' = spawn_part p \<and> posted p' = posted p"
  proof -
    consider "a = Step i" | "a = Io i" | "a = Wake i" | "a = DestroyBegin" | "a = DestroyWake" using assms(2) by blast
    then show ?thesis
    proof cases
      case 1
      then have s: "i < length (workers p)" "worker_step i p = Some r" using assms(3) by (auto split: if_splits)
      from worker_step_ok [OF ok this] worker_step_same s(2) show ?thesis by blast
    next
      case 2
      then have s: "i < length (workers p)" "io_event i p = Some r" using assms(3) by (auto split: if_splits)
      from io_event_ok [OF ok this] other_steps_same(1) s(2) show ?thesis by blast
    next
      case 3
      then have s: "wake_pushed i p = Some r" using assms(3) by simp
      from wake_pushed_ok [OF ok s] other_steps_same(2) s show ?thesis by blast
    next
      case 4
      then have s: "destroy_begin p = Some r" using assms(3) by simp
      from destroy_begin_ok [OF ok s] other_steps_same(3) s show ?thesis by blast
    next
      case 5
      then have s: "destroy_wake p = Some r" using assms(3) by simp
      from destroy_wake_ok [OF ok s] other_steps_same(4) s show ?thesis by blast
    qed
  qed
  then show ?thesis using pool_inv_keep [OF assms(1)] by auto
qed

text \<open>The steps of fibers and of threads outside the pool.\<close>

lemma spawn_steps_inv:
  assumes "pool_inv k p" "caller_ok cur p" "k < 2 ^ 58"
  shows "keeps_inv (Suc k) (pool_submit_spawn cur fn arg j p)"
    "keeps_inv (Suc k) (pool_submit_spawn_to_worker cur h fn arg j p)"
  unfolding pool_submit_spawn_def pool_submit_spawn_to_worker_def
  by (rule submit_spawn_ok [OF assms, where h = h], simp)+

lemma post_steps_inv:
  assumes "pool_inv k p" "caller_ok cur p" "k < 2 ^ 58" "is_fiber e p"
  shows "keeps_inv (Suc k) (post_to_run_queue cur e p)" "keeps_inv (Suc k) (post_to_specific_worker cur h e p)"
proof -
  obtain D J where ok: "pool_ok p D J" using assms(1) by (auto simp: pool_inv_def)
  have b: "e \<noteq> NULL" "length (posted p) < 2 ^ 59" using assms(1,3,4) by (simp_all add: pool_inv_def is_fiber_def)
  show "keeps_inv (Suc k) (post_to_run_queue cur e p)"
    using post_inv [OF assms(1)] post_run_ok [OF ok assms(2) b] by blast
  show "keeps_inv (Suc k) (post_to_specific_worker cur h e p)"
    using post_inv [OF assms(1)] post_specific_ok [OF ok assms(2) b, of h] by blast
qed

lemma quiet_steps_inv:
  assumes "pool_inv k p" "i < length (workers p)"
  shows "w_pc (workers p ! i) = WRun e \<Longrightarrow> keeps_inv k (Inr (fiber_suspended i p))"
    "keeps_inv k (Inr (goc_worker_io_handle_opened (Some i) p))" "keeps_inv k (goc_worker_io_handle_closed (Some i) p)"
    "keeps_inv k (Inr (handle_test i t p))"
proof -
  obtain D J where ok: "pool_ok p D J" using assms(1) by (auto simp: pool_inv_def)
  have "spawn_part (drain_io i p) = spawn_part p" "posted (drain_io i p) = posted p" by (simp_all add: drain_io_def)
  then have "spawn_part (fiber_suspended i p) = spawn_part p" "posted (fiber_suspended i p) = posted p"
    by (simp_all add: fiber_suspended_def Let_def)
  then show "w_pc (workers p ! i) = WRun e \<Longrightarrow> keeps_inv k (Inr (fiber_suspended i p))"
    using pool_inv_keep [OF assms(1) suspended_ok [OF ok assms(2)]] by simp
  show "keeps_inv k (Inr (goc_worker_io_handle_opened (Some i) p))"
    using pool_inv_keep [OF assms(1) io_count_ok(1) [OF ok assms(2)]] by (simp add: goc_worker_io_handle_opened_def)
  show "keeps_inv k (goc_worker_io_handle_closed (Some i) p)"
  proof (cases "goc_worker_io_handle_closed (Some i) p")
    case (Inr q)
    then show ?thesis using pool_inv_keep [OF assms(1) io_count_ok(2) [OF ok assms(2) Inr]]
      by (auto simp: goc_worker_io_handle_closed_def split: if_splits)
  qed (auto simp: goc_worker_io_handle_closed_def keeps_inv_def caller_fault_def split: if_splits)
  show "keeps_inv k (Inr (handle_test i t p))"
    using assms(1) pool_inv_keep [OF assms(1) pool_ok_posters [OF ok]] by (simp add: handle_test_def)
qed

lemma task_steps_inv:
  assumes "pool_inv k p" "posters_ok p"
  shows "handle_push j p = Some r \<Longrightarrow> keeps_inv k r" "handle_wake j p = Some r \<Longrightarrow> keeps_inv k r"
proof -
  obtain D J where ok: "pool_ok p D J" using assms(1) by (auto simp: pool_inv_def)
  show "keeps_inv k r" if h: "handle_push j p = Some r"
  proof -
    obtain p' where p': "r = Inr p'" "pool_ok p' D J" using handle_push_ok [OF ok assms(2) h] by blast
    have "spawn_part p' = spawn_part p \<and> posted p' = posted p"
      using h p'(1) by (auto simp: handle_push_def split: if_splits poster.splits)
    with p' show ?thesis using pool_inv_keep [OF assms(1) p'(2)] by simp
  qed
  show "keeps_inv k r" if h: "handle_wake j p = Some r"
    using handle_wake_ok [OF ok assms(2) h]
  proof
    assume "\<exists>p'. r = Inr p' \<and> pool_ok p' D J \<and> posters_ok p'"
    then obtain p' where p': "r = Inr p'" "pool_ok p' D J" by blast
    have "spawn_part p' = spawn_part p \<and> posted p' = posted p"
      using h p'(1) by (auto simp: handle_wake_def Let_def split: if_splits poster.splits)
    with p' show ?thesis using pool_inv_keep [OF assms(1) p'(2)] by simp
  qed (simp add: keeps_inv_def)
qed

lemma keeps_inv_mono: "\<lbrakk>keeps_inv k r; k \<le> l\<rbrakk> \<Longrightarrow> keeps_inv l r"
  by (auto simp: keeps_inv_def intro: pool_inv_mono)

lemma pool_step_inv:
  assumes "pool_inv k p" "pool_step a p = Some r" "k < 2 ^ 58" "posters_ok p"
  shows "keeps_inv (Suc k) r"
proof -
  have out: "caller_ok None p" by (simp add: caller_ok_def)
  note own = keeps_inv_mono [OF own_steps_inv [OF assms(1) _ assms(2)], where l = "Suc k"]
  note quiet = quiet_steps_inv [OF assms(1), THEN keeps_inv_mono, where l = "Suc k"]
  show ?thesis
  proof (cases a)
    case (FEnd i)
    then obtain e where e: "i < length (workers p)" "w_pc (workers p ! i) = WRun e" "e \<in> set (alive p)" "r = fiber_dead i e p"
      using assms(2) by (auto split: worker_pc.splits if_splits)
    have "keeps_inv k r" unfolding e(4) by (rule fiber_dead_ok [OF assms(1) e(1-3) assms(3)])
    then show ?thesis by (rule keeps_inv_mono) simp
  next
    case (FPost i x)
    then show ?thesis using assms in_fiber_caller post_steps_inv(1) by (auto split: if_splits dest!: in_fiberD)
  next
    case (FPostTo i j x)
    then show ?thesis using assms in_fiber_caller post_steps_inv(2) by (auto split: if_splits dest!: in_fiberD)
  next
    case (FSpawn i fn arg j)
    then show ?thesis using assms in_fiber_caller spawn_steps_inv(1) by (auto dest!: in_fiberD)
  next
    case (FSpawnTo i h fn arg j)
    then show ?thesis using assms in_fiber_caller spawn_steps_inv(2) by (auto dest!: in_fiberD)
  next
    case (FSuspend i)
    then show ?thesis using assms(2) quiet(1) by (auto dest!: in_fiberD)
  next
    case (FOpen i)
    then show ?thesis using assms(2) quiet(2) by (auto dest!: in_fiberD)
  next
    case (FClose i)
    then show ?thesis using assms(2) quiet(3) by (auto dest!: in_fiberD)
  next
    case (ETask i t)
    then show ?thesis using assms(2) quiet(4) [of i t] by (auto split: if_splits)
  next
    case (EPush j)
    then have "keeps_inv k r" using assms(2) task_steps_inv(1) [OF assms(1,4)] by simp
    then show ?thesis by (rule keeps_inv_mono) simp
  next
    case (ESend j)
    then have "keeps_inv k r" using assms(2) task_steps_inv(2) [OF assms(1,4)] by simp
    then show ?thesis by (rule keeps_inv_mono) simp
  next
    case (EPost x)
    then show ?thesis using assms out post_steps_inv(1) by (auto split: if_splits)
  next
    case (EPostTo j x)
    then show ?thesis using assms out post_steps_inv(2) by (auto split: if_splits)
  next
    case (ESpawn fn arg j)
    then show ?thesis using assms out spawn_steps_inv(1) by auto
  next
    case (ESpawnTo h fn arg j)
    then show ?thesis using assms out spawn_steps_inv(2) by auto
  qed (use own in auto)
qed

lemma obind_SomeD: "obind m f = Some r \<Longrightarrow> (\<exists>e. m = Some (Inl e) \<and> r = Inl e) \<or> (\<exists>x. m = Some (Inr x) \<and> f x = Some r)"
  by (cases m) (auto simp: obind_def split: sum.splits)

section \<open>The threads that hand over tasks\<close>

text \<open>Only the steps of such a thread change the list of them, and no step changes the number of workers.\<close>

definition frame :: "goc_pool \<Rightarrow> nat \<times> poster list" where
  "frame p = (length (workers p), posters p)"

lemma frame_upd [simp]:
  "frame (upd_worker i f p) = frame p" "frame (worker_try_wakeup i p) = frame p" "frame (goto i pc p) = frame p"
  "frame (no_miss i p) = frame p" "frame (miss i p) = frame p" "frame (hit i v p) = frame p"
  "frame (start_scan i p) = frame p" "frame (deliver i p) = frame p" "frame (drain_io i p) = frame p"
  "frame (p\<lparr>idle_count := n\<rparr>) = frame p" "frame (p\<lparr>started := es\<rparr>) = frame p" "frame (p\<lparr>posted := es\<rparr>) = frame p"
  "frame (p\<lparr>waking := ws\<rparr>) = frame p" "frame (p\<lparr>next_push_idx := n\<rparr>) = frame p" "frame (p\<lparr>fibers := fs\<rparr>) = frame p"
  "frame (p\<lparr>alive := es\<rparr>) = frame p" "frame (p\<lparr>pending_spawn := rs\<rparr>) = frame p" "frame (p\<lparr>resident_count := n\<rparr>) = frame p"
  "frame (p\<lparr>live_count := n\<rparr>) = frame p" "frame (p\<lparr>asked := rs\<rparr>) = frame p" "frame (p\<lparr>asked_in := rs\<rparr>) = frame p"
  "frame (p\<lparr>joined := js\<rparr>) = frame p" "frame (p\<lparr>pool_shutdown := b\<rparr>) = frame p" "frame (p\<lparr>destroyer := d\<rparr>) = frame p"
  by (simp_all add: frame_def upd_worker_def worker_try_wakeup_def goto_def no_miss_def miss_def hit_def start_scan_def
      deliver_def drain_io_def)

lemma frame_pick_up [simp]: "frame (pick_up i e p) = frame p"
  by (simp add: pick_up_def)

lemma frame_queue: "with_deque i f p = Inr (e, p') \<Longrightarrow> frame p' = frame p" "with_injector i g p = Inr (e, p') \<Longrightarrow> frame p' = frame p"
  by (auto simp: with_deque_def with_injector_def)

lemma frame_worker_step:
  assumes "worker_step i p = Some (Inr p')"
  shows "frame p' = frame p"
  using assms
  by (cases "w_pc (workers p ! i)")
    (auto simp: worker_step_def steal_from_def Let_def queue_step_Inr dest!: frame_queue split: if_splits)

lemma frame_push: "push_local i e p = Inr p' \<Longrightarrow> frame p' = frame p" "push_remote i e p = Inr p' \<Longrightarrow> frame p' = frame p"
  by (auto simp: push_local_def push_remote_def Let_def dest!: frame_queue)

lemma frame_post:
  "post_to_run_queue cur e p = Inr p' \<Longrightarrow> frame p' = frame p"
  "post_to_specific_worker cur i e p = Inr p' \<Longrightarrow> frame p' = frame p"
  by (auto simp: post_to_run_queue_def post_to_specific_worker_def dest!: frame_push split: option.splits if_splits)

lemma frame_collect: "pool_collect_admitted_spawns_locked p = (adm, p') \<Longrightarrow> frame p' = frame p"
proof (induction p arbitrary: adm p' rule: pool_collect_admitted_spawns_locked.induct)
  case (1 p)
  from "1.prems" show ?case
    by (subst (asm) pool_collect_admitted_spawns_locked.simps)
      (auto split: list.splits if_splits prod.splits dest!: "1.IH")
qed

lemma frame_create: "goc_fiber_entry_create ext r p = (e, p') \<Longrightarrow> frame p' = frame p"
  by (auto simp: goc_fiber_entry_create_def Let_def)

lemma frame_home [simp]: "frame (set_home e h p) = frame p"
  by (simp add: set_home_def)

lemma frame_dispatch: "pool_dispatch_spawn_list cur adm p = Inr p' \<Longrightarrow> frame p' = frame p"
proof (induction adm arbitrary: p)
  case (Cons r adm)
  obtain e q where c: "goc_fiber_entry_create True r p = (e, q)" by force
  with Cons show ?case using frame_create [OF c] by (auto split: if_splits dest!: frame_post)
qed simp

lemma frame_spawn:
  assumes "submit_spawn cur r post p = Inr p'" "\<And>e q. post e q = Inr p' \<Longrightarrow> frame p' = frame q"
  shows "frame p' = frame p"
  using assms
  by (auto simp: submit_spawn_def Let_def pool_enqueue_spawn_locked_def split: if_splits prod.splits
      dest!: frame_create frame_collect frame_dispatch)

lemma frame_dead: "fiber_dead i e p = Inr p' \<Longrightarrow> frame p' = frame p"
  by (auto simp: fiber_dead_def Let_def split: prod.splits dest!: frame_collect frame_dispatch)

lemma frame_spawns:
  "pool_submit_spawn cur fn arg j p = Inr p' \<Longrightarrow> frame p' = frame p"
  "pool_submit_spawn_to_worker cur h fn arg j p = Inr p' \<Longrightarrow> frame p' = frame p"
  unfolding pool_submit_spawn_def pool_submit_spawn_to_worker_def
  by (rule frame_spawn, assumption, auto dest!: frame_post)+

lemma frame_fiber_steps:
  "frame (fiber_suspended i p) = frame p" "frame (goc_worker_io_handle_opened cur p) = frame p"
  "goc_worker_io_handle_closed cur p = Inr p' \<Longrightarrow> frame p' = frame p"
  by (auto simp: fiber_suspended_def goc_worker_io_handle_opened_def goc_worker_io_handle_closed_def Let_def
      split: option.splits if_splits)

lemma frame_other_steps:
  "io_event i p = Some (Inr p') \<Longrightarrow> frame p' = frame p" "wake_pushed i p = Some (Inr p') \<Longrightarrow> frame p' = frame p"
  "destroy_begin p = Some (Inr p') \<Longrightarrow> frame p' = frame p" "destroy_wake p = Some (Inr p') \<Longrightarrow> frame p' = frame p"
  by (auto simp: io_event_def wake_pushed_def Let_def destroy_begin_def destroy_wake_def split: if_splits option.splits)

lemma posters_frame: "\<lbrakk>posters_ok p; frame p' = frame p\<rbrakk> \<Longrightarrow> posters_ok p'"
  by (simp add: posters_ok_def frame_def)

lemma posters_task_steps:
  assumes "posters_ok p"
  shows "i < length (workers p) \<Longrightarrow> posters_ok (handle_test i t p)"
    "handle_push k p = Some (Inr p') \<Longrightarrow> posters_ok p'" "handle_wake k p = Some (Inr p') \<Longrightarrow> posters_ok p'"
proof -
  show "i < length (workers p) \<Longrightarrow> posters_ok (handle_test i t p)"
    using assms by (auto simp: handle_test_def posters_ok_def poster_of_def)
  show "posters_ok p'" if h: "handle_push k p = Some (Inr p')"
  proof -
    obtain i t where k: "k < length (posters p)" "posters p ! k = Tested i t" "posters p' = (posters p)[k := Queued i]"
      "length (workers p') = length (workers p)"
      using h by (auto simp: handle_push_def split: if_splits poster.splits)
    have "i < length (workers p)" using assms k(2) nth_mem [OF k(1)] by (auto simp: posters_ok_def poster_of_def)
    then show ?thesis using assms k(3,4) set_update_subset_insert [of "posters p" k "Queued i"]
      by (auto simp: posters_ok_def poster_of_def)
  qed
  show "handle_wake k p = Some (Inr p') \<Longrightarrow> posters_ok p'"
    using assms
    by (auto simp: handle_wake_def Let_def posters_ok_def worker_try_wakeup_def upd_worker_def
        split: if_splits poster.splits dest!: in_set_takeD in_set_dropD)
qed

lemma posters_step:
  assumes "posters_ok p" "pool_step a p = Some (Inr p')"
  shows "posters_ok p'"
proof (cases "a \<in> range (\<lambda>(i, t). ETask i t) \<union> range EPush \<union> range ESend")
  case True
  then show ?thesis using assms posters_task_steps [OF assms(1)] by (auto split: if_splits)
next
  case False
  have "frame p' = frame p"
    using assms(2) False
    by (cases a)
      (auto simp: frame_fiber_steps(1,2) split: if_splits worker_pc.splits
        dest!: in_fiberD frame_worker_step frame_other_steps frame_post frame_spawns frame_dead frame_fiber_steps(3)
        dest: sym)
  with assms(1) show ?thesis by (rule posters_frame)
qed

lemma pool_run_inv:
  assumes "pool_inv k p" "posters_ok p" "k + length as < 2 ^ 58" "pool_run as p = Some r"
  shows "keeps_inv (k + length as) r"
  using assms
proof (induction as arbitrary: k p)
  case (Cons a as)
  from obind_SomeD [OF Cons.prems(4) [unfolded pool_run.simps]] show ?case
  proof (elim disjE exE conjE)
    fix e assume "pool_step a p = Some (Inl e)" "r = Inl e"
    with pool_step_inv [OF Cons.prems(1) _ _ Cons.prems(2)] Cons.prems(3) show ?thesis by (auto simp: keeps_inv_def)
  next
    fix q assume q: "pool_step a p = Some (Inr q)" "pool_run as q = Some r"
    have "pool_inv (Suc k) q" using pool_step_inv [OF Cons.prems(1) q(1) _ Cons.prems(2)] Cons.prems(3) by simp
    from Cons.IH [OF this posters_step [OF Cons.prems(2) q(1)] _ q(2)] Cons.prems(3) show ?thesis by simp
  qed
qed auto

lemma make_inv:
  assumes "goc_pool_make addr cap n = Inr p" "0 < n" "n < 2 ^ 32"
  shows "pool_inv 0 p" "length (workers p) = n" "max_live_fibers p = cap" "posters_ok p"
proof -
  obtain dq where dq: "wsdq_init 256 = Inr dq" "dq_rel (2 ^ 59) dq []"
    by (simp add: wsdq_init_def dq_rel_def ring_ok_def segment_def ring_alloc_def slots_eq)
  have p: "p = \<lparr>workers = map (\<lambda>i. new_worker (addr i) i dq) [0..<n], max_live_fibers = cap, idle_count = 0,
          next_push_idx = 0, pool_shutdown = False, live_count = 0, resident_count = 0, pending_spawn = [],
          fibers = [], waking = [], posters = [], destroyer = None, alive = [], posted = [], started = [], asked = [],
          asked_in = [], joined = []\<rparr>" using assms(1) by (simp add: goc_pool_make_def dq(1))
  have "inj_rel k injector_init []" for k by (simp add: inj_rel_def injector_init_def)
  then have "pool_ok p (\<lambda>_. []) (\<lambda>_. [])" using dq(2) assms(2,3)
    by (simp add: p pool_ok_def queues_def queued_def wk_rel_def wk_ok_def new_worker_def tasks_ok_def filter_empty_conv)
  then show "pool_inv 0 p" by (auto simp: pool_inv_def p spawn_ok_def held_def capped_def)
qed (use assms(1) in \<open>auto simp: goc_pool_make_def wsdq_init_def posters_ok_def\<close>)

text \<open>The pools that a schedule can lead to.\<close>

definition reaches :: "(nat \<Rightarrow> nat) \<Rightarrow> nat \<Rightarrow> nat \<Rightarrow> pool_act list \<Rightarrow> goc_pool res \<Rightarrow> bool" where
  "reaches addr cap n as r \<longleftrightarrow> 0 < n \<and> n < 2 ^ 32 \<and> length as < 2 ^ 57
     \<and> obind (Some (goc_pool_make addr cap n)) (pool_run as) = Some r"

lemma pool_make_ok: "\<exists>p. goc_pool_make addr cap n = Inr p"
  by (simp add: goc_pool_make_def wsdq_init_def)

end
