(* ===== verification/Goc_Pool_Props.thy ===== *)
theory Goc_Pool_Props
  imports Goc_Pool_Inv
begin

text \<open>
  The scheduler: whatever workers, fibers and other threads do, in any order, every posted entry is
  picked up once or still queued, a worker left to itself runs a fiber, ends or sleeps with nothing
  to do, deferred spawns are admitted first come first served as soon as there is room, and the
  drain of a pool waits for every fiber.
\<close>

section \<open>A worker left to itself\<close>

fun pc_rank :: "nat \<Rightarrow> worker_pc \<Rightarrow> nat" where
  "pc_rank n WTop = n + 9"
| "pc_rank n WPop = n + 8"
| "pc_rank n WInject = n + 7"
| "pc_rank n WHint = n + 6"
| "pc_rank n (WScan off k) = n - k + 5"
| "pc_rank n WIdle = 4"
| "pc_rank n WCount = 3"
| "pc_rank n WRecheck = 2"
| "pc_rank n WRecheckInj = 1"
| "pc_rank n _ = 0"

definition rank :: "nat \<Rightarrow> goc_pool \<Rightarrow> nat" where
  "rank i p = pc_rank (length (workers p)) (w_pc (workers p ! i))
     + (if w_wakeup (workers p ! i) then length (workers p) + 10 else 0)"

text \<open>A worker that takes no step: in a fiber, out of the loop, or asleep.\<close>

definition rests :: "nat \<Rightarrow> goc_pool \<Rightarrow> bool" where
  "rests i p \<longleftrightarrow> (case w_pc (workers p ! i) of WRun e \<Rightarrow> True | WExit \<Rightarrow> True
     | WSleep \<Rightarrow> \<not> w_wakeup (workers p ! i) | _ \<Rightarrow> False)"

lemma worker_enabled: "worker_step i p = None \<longleftrightarrow> rests i p"
proof -
  have "obind (Some m) (\<lambda>(e, q). Some (Inr (h e q))) \<noteq> None" for m :: "(ptr \<times> goc_pool) res" and h :: "ptr \<Rightarrow> goc_pool \<Rightarrow> goc_pool"
    by (cases m) auto
  then show ?thesis by (auto simp: worker_step_def rests_def steal_from_def Let_def split: worker_pc.splits)
qed

text \<open>What worker \<open>i\<close> sees of itself after an operation on some queue.\<close>

lemma with_queue_own:
  "with_deque v f p = Inr (e, q) \<Longrightarrow> length (workers q) = length (workers p)
     \<and> w_pc (workers q ! i) = w_pc (workers p ! i) \<and> w_wakeup (workers q ! i) = w_wakeup (workers p ! i)"
  "with_injector v g p = Inr (e, q) \<Longrightarrow> length (workers q) = length (workers p)
     \<and> w_pc (workers q ! i) = w_pc (workers p ! i) \<and> w_wakeup (workers q ! i) = w_wakeup (workers p ! i)"
  by (cases "v < length (workers p)"; auto simp: with_deque_def with_injector_def lread_def split: if_splits)+

lemmas step_simps = goto_def no_miss_def miss_def hit_def start_scan_def deliver_def drain_worker_tasks_def Let_def

lemma pick_up_runs: "i < length (workers p) \<Longrightarrow> w_pc (workers (pick_up i e p) ! i) = WRun e \<and> length (workers (pick_up i e p)) = length (workers p)"
  by (simp add: pick_up_def goto_def)

definition nearer :: "nat \<Rightarrow> goc_pool \<Rightarrow> goc_pool \<Rightarrow> bool" where
  "nearer i p p' \<longleftrightarrow> length (workers p') = length (workers p) \<and> (rests i p' \<or> rank i p' < rank i p)"

lemma pick_up_nearer: "\<lbrakk>i < length (workers q); length (workers q) = length (workers p)\<rbrakk> \<Longrightarrow> nearer i p (pick_up i e q)"
  using pick_up_runs [of i q e] by (simp add: nearer_def rests_def)

lemma move_nearer:
  assumes "i < length (workers p)" "length (workers q) = length (workers p)" "w_wakeup (workers q ! i) = w_wakeup (workers p ! i)"
    "pc_rank (length (workers p)) (w_pc (workers q ! i)) < pc_rank (length (workers p)) (w_pc (workers p ! i))"
  shows "nearer i p q"
  using assms by (simp add: nearer_def rank_def)

lemma steal_nearer:
  assumes "steal_from i v next p = Some (Inr p')" "i < length (workers p)"
    "\<And>q. length (workers q) = length (workers p) \<Longrightarrow> length (workers (next q)) = length (workers p)
       \<and> w_wakeup (workers (next q) ! i) = w_wakeup (workers q ! i)
       \<and> pc_rank (length (workers p)) (w_pc (workers (next q) ! i)) < pc_rank (length (workers p)) (w_pc (workers p ! i))"
  shows "nearer i p p'"
proof -
  obtain e q where q: "with_deque v wsdq_steal_top p = Inr (e, q)"
    "p' = (if e \<noteq> NULL then pick_up i e (hit i v q) else next (miss i q))"
    using assms(1) unfolding steal_from_def queue_step_Inr by blast
  note o = with_queue_own(1) [OF q(1), of i]
  show ?thesis
  proof (cases "e \<noteq> NULL")
    case True
    then show ?thesis using q(2) o assms(2) by (simp add: pick_up_nearer step_simps)
  next
    case False
    have "length (workers (miss i q)) = length (workers p)" "w_wakeup (workers (miss i q) ! i) = w_wakeup (workers p ! i)"
      using o assms(2) by (simp_all add: miss_def)
    then show ?thesis using False q(2) assms(3) [of "miss i q"] by (intro move_nearer [OF assms(2)]) simp_all
  qed
qed

lemma queue_step_nearer:
  assumes "m = with_deque i f p \<or> m = with_injector i g p"
    "obind (Some m) (\<lambda>(e, q). Some (Inr (if e \<noteq> NULL then pick_up i e (h q) else goto i pc q))) = Some (Inr p')"
    "i < length (workers p)" "\<And>q. length (workers (h q)) = length (workers q)"
    "pc_rank (length (workers p)) pc < pc_rank (length (workers p)) (w_pc (workers p ! i))"
  shows "nearer i p p'"
proof -
  obtain e q where q: "m = Inr (e, q)" "p' = (if e \<noteq> NULL then pick_up i e (h q) else goto i pc q)"
    using assms(2) unfolding queue_step_Inr by blast
  have o: "length (workers q) = length (workers p)" "w_wakeup (workers q ! i) = w_wakeup (workers p ! i)"
    using assms(1) q(1) with_queue_own [of i _ p e q i] by auto
  then show ?thesis using q(2) assms(3-5) by (auto simp: goto_def intro!: pick_up_nearer move_nearer [OF assms(3)])
qed

lemma neighbor_other: "\<lbrakk>1 < length (workers p); i < length (workers p)\<rbrakk> \<Longrightarrow> neighbor i p \<noteq> i"
proof
  assume a: "1 < length (workers p)" "i < length (workers p)" "neighbor i p = i"
  then show False by (cases "Suc i = length (workers p)") (auto simp: neighbor_def)
qed

lemma worker_step_nearer:
  assumes "worker_step i p = Some (Inr p')" "i < length (workers p)"
  shows "nearer i p p'"
proof (cases "w_pc (workers p ! i)")
  case WTop
  then show ?thesis using assms
    by (auto simp: worker_step_def nearer_def rests_def rank_def goto_def drain_worker_tasks_def split: if_splits)
next
  case WPop
  then show ?thesis using assms by (intro queue_step_nearer [of _ i wsdq_pop_bottom p _ "no_miss i" WInject]) (auto simp: worker_step_def no_miss_def)
next
  case WInject
  then show ?thesis using assms
    by (intro queue_step_nearer [of _ i _ p injector_pop "no_miss i"
          "if 1 < length (workers p) \<and> miss_streak (workers p ! i) < STEAL_BACKOFF_THRESHOLD then WHint else WIdle"])
      (auto simp: worker_step_def no_miss_def)
next
  case WHint
  have n: "length (workers (start_scan i q)) = length (workers q) \<and> w_wakeup (workers (start_scan i q) ! i) = w_wakeup (workers q ! i)
      \<and> pc_rank m (w_pc (workers (start_scan i q) ! i)) = m + 5" if "i < length (workers q)" for q m
    using that by (simp add: start_scan_def Let_def)
  show ?thesis
  proof (cases "last_steal_victim (workers p ! i) \<noteq> SIZE_MAX \<and> last_steal_victim (workers p ! i) \<noteq> i")
    case True
    then show ?thesis using assms WHint n
      by (intro steal_nearer [of i "last_steal_victim (workers p ! i)" "start_scan i" p p'])
        (simp_all add: worker_step_def Let_def)
  next
    case False
    then have "p' = start_scan i p" using assms(1) WHint by (auto simp: worker_step_def Let_def)
    then show ?thesis using n [OF assms(2)] WHint assms(2) by (intro move_nearer) auto
  qed
next
  case (WScan off k)
  let ?n = "length (workers p)" and ?v = "(i + off + k) mod length (workers p)"
  show ?thesis
  proof (cases "k < ?n \<and> ?v \<noteq> i")
    case True
    then show ?thesis using assms WScan
      by (intro steal_nearer [of i ?v "goto i (WScan off (Suc k))" p p']) (auto simp: worker_step_def Let_def goto_def)
  next
    case False
    then show ?thesis using assms WScan
      by (intro move_nearer) (auto simp: worker_step_def Let_def goto_def split: if_splits)
  qed
next
  case WIdle
  let ?q = "if 1 < length (workers p) \<and> \<not> pool_shutdown p \<and> 0 < wsdq_approx_size (w_deque (workers p ! i)) \<and> 0 < idle_count p
     then worker_try_wakeup (neighbor i p) p else p"
  have p': "p' = goto i WCount ?q" using assms(1) WIdle by (simp add: worker_step_def Let_def)
  have "w_wakeup (workers ?q ! i) = w_wakeup (workers p ! i) \<and> length (workers ?q) = length (workers p)"
    using neighbor_other [OF _ assms(2)] by (auto simp: worker_try_wakeup_def upd_worker_def nth_list_update)
  then show ?thesis using assms(2) WIdle unfolding p' by (intro move_nearer) (simp_all add: goto_def)
next
  case WCount
  then show ?thesis using assms by (intro move_nearer) (auto simp: worker_step_def goto_def)
next
  case WRecheck
  then show ?thesis using assms
    by (intro queue_step_nearer [of _ i wsdq_pop_bottom p _ "\<lambda>q. q\<lparr>idle_count := size_sub (idle_count q) 1\<rparr>" WRecheckInj])
      (auto simp: worker_step_def)
next
  case WRecheckInj
  then show ?thesis using assms
    by (intro queue_step_nearer [of _ i _ p injector_pop "\<lambda>q. q\<lparr>idle_count := size_sub (idle_count q) 1\<rparr>" WSleep])
      (auto simp: worker_step_def)
next
  case WSleep
  then show ?thesis using assms
    by (auto simp: worker_step_def nearer_def rank_def step_simps split: if_splits)
qed (use assms in \<open>simp_all add: worker_step_def\<close>)

lemma rank_bound: "rank i p \<le> 2 * length (workers p) + 19"
  by (cases "w_pc (workers p ! i)") (auto simp: rank_def)

lemma worker_runs_down:
  assumes "pool_ok p D J" "i < length (workers p)"
  shows "\<exists>k p' D' J'. k \<le> rank i p \<and> pool_run (replicate k (Step i)) p = Some (Inr p') \<and> pool_ok p' D' J' \<and> rests i p'
     \<and> length (workers p') = length (workers p)"
  using assms
proof (induction "rank i p" arbitrary: p D J rule: less_induct)
  case less
  show ?case
  proof (cases "rests i p")
    case True
    then show ?thesis using less.prems by (intro exI [of _ 0] exI [of _ p] exI [of _ D] exI [of _ J]) simp
  next
    case False
    then obtain r where "worker_step i p = Some r" using worker_enabled [of i p] by blast
    with worker_step_ok [OF less.prems this] obtain q D1 J1 where q: "worker_step i p = Some (Inr q)" "pool_ok q D1 J1" by blast
    have n: "nearer i p q" by (rule worker_step_nearer [OF q(1) less.prems(2)])
    show ?thesis
    proof (cases "rests i q")
      case True
      have "0 < rank i p" using False by (auto simp: rests_def rank_def split: worker_pc.splits)
      then show ?thesis using True q n less.prems(2)
        by (intro exI [of _ 1] exI [of _ q] exI [of _ D1] exI [of _ J1]) (simp add: nearer_def)
    next
      case False
      then have "rank i q < rank i p" "length (workers q) = length (workers p)" using n by (auto simp: nearer_def)
      with less.hyps [OF _ q(2)] less.prems(2) obtain k p' D' J' where "k \<le> rank i q"
        "pool_run (replicate k (Step i)) q = Some (Inr p')" "pool_ok p' D' J'" "rests i p'" "length (workers p') = length (workers q)" by auto
      then show ?thesis using q(1) less.prems(2) \<open>rank i q < rank i p\<close> \<open>length (workers q) = length (workers p)\<close>
        by (intro exI [of _ "Suc k"] exI [of _ p'] exI [of _ D'] exI [of _ J']) simp
    qed
  qed
qed

section \<open>The properties\<close>

lemma reaches_inv: "reaches addr cap n as r \<Longrightarrow> keeps_inv (length as) r"
  and reaches_workers: "reaches addr cap n as (Inr p) \<Longrightarrow> \<exists>D J. pool_ok p D J"
proof -
  show inv: "keeps_inv (length as) r" if "reaches addr cap n as r" for r
  proof -
    obtain p where p: "goc_pool_make addr cap n = Inr p" using pool_make_ok by blast
    from that have b: "0 < n" "n < 2 ^ 32" "length as < 2 ^ 57" "pool_run as p = Some r" by (simp_all add: reaches_def p)
    have "keeps_inv (0 + length as) r" by (rule pool_run_inv [OF make_inv(1,4) [OF p b(1,2)] _ b(4)]) (use b(3) in simp)
    then show ?thesis by simp
  qed
  show "\<exists>D J. pool_ok p D J" if "reaches addr cap n as (Inr p)" using inv [OF that] by (simp add: pool_inv_def)
qed


text \<open>
  C12: A worker left to itself takes at most \<open>2 n + 19\<close> steps, for \<open>n\<close> workers, until it runs a fiber, has
  left its loop, or sleeps; and when it sleeps, its deque is empty, anything in its injector has a
  wake-up under way, and so has a shutdown that was begun.
\<close>

theorem worker_makes_progress:
  assumes "reaches addr cap n as (Inr p)" "i < length (workers p)"
  shows "\<exists>k p'. k \<le> 2 * length (workers p) + 19 \<and> pool_run (replicate k (Step i)) p = Some (Inr p')
    \<and> (case w_pc (workers p' ! i) of
         WRun e \<Rightarrow> True
       | WExit \<Rightarrow> True
       | WSleep \<Rightarrow> wsdq_approx_size (w_deque (workers p' ! i)) = 0
           \<and> (inj_head (w_injector (workers p' ! i)) \<noteq> None \<and> \<not> pool_shutdown p' \<longrightarrow> i \<in> set (waking p'))
           \<and> (pool_shutdown p' \<longrightarrow> (\<exists>k \<le> i. destroyer p' = Some k))
       | _ \<Rightarrow> False)"
proof -
  obtain D J where "pool_ok p D J" using reaches_workers [OF assms(1)] by blast
  from worker_runs_down [OF this assms(2)] obtain k p' D' J' where
    k: "k \<le> rank i p" "pool_run (replicate k (Step i)) p = Some (Inr p')" "pool_ok p' D' J'" "rests i p'"
    "length (workers p') = length (workers p)" by blast
  have w: "wk_ok p' (D' i) (J' i) i (workers p' ! i)" "wk_rel (2 ^ 59 - length (posted p')) (workers p' ! i) (D' i) (J' i)"
    using k(3,5) assms(2) by (auto simp: pool_ok_def queues_def)
  have d: "dq_bottom (w_deque (workers p' ! i)) \<le> dq_top (w_deque (workers p' ! i))" if "D' i = []"
    using w(2) that by (auto simp: wk_rel_def dq_rel_def segment_def)
  have j: "inj_head (w_injector (workers p' ! i)) = None" if "J' i = []"
    using w(2) that by (auto simp: wk_rel_def inj_rel_def elim: node_chain.elims)
  have "k \<le> 2 * length (workers p) + 19" using k(1) rank_bound [of i p] by simp
  with k(2,4) w(1) d j show ?thesis
    by (intro exI [of _ k] exI [of _ p'])
      (auto simp: rests_def wk_ok_def wsdq_approx_size_def split: worker_pc.splits)
qed


text \<open>
  C14: When \<open>goc_pool_destroy\<close> stops waiting and begins to stop the workers, every request ever made has
  become a fiber, every fiber has ended, and each has closed its join channel once.
\<close>

theorem destroy_waits_for_fibers:
  assumes "reaches addr cap n as (Inr p)" "pool_step DestroyBegin p \<noteq> None"
  shows "alive p = [] \<and> pending_spawn p = [] \<and> mset (map fb_req (fibers p)) = mset (asked p) + mset (asked_in p)
    \<and> mset (joined p) = mset (map sr_join (asked p @ asked_in p))"
proof -
  have sp: "spawn_ok [] [] p" using reaches_inv [OF assms(1)] by (simp add: pool_inv_def)
  have "live_count p = 0" using assms(2) by (auto simp: destroy_begin_def split: if_splits)
  then have e: "alive p = []" "pending_spawn p = []" using sp by (auto simp: spawn_ok_def)
  have split: "mset fs = mset (filter fb_ext fs) + mset (filter (\<lambda>f. \<not> fb_ext f) fs)" for fs by (induction fs) auto
  have ask: "map fb_req (filter fb_ext (fibers p)) = asked p" "map fb_req (filter (\<lambda>f. \<not> fb_ext f) (fibers p)) = asked_in p"
    using sp e(2) by (auto simp: spawn_ok_def)
  have "mset (map fb_req (fibers p)) = image_mset fb_req (mset (filter fb_ext (fibers p)) + mset (filter (\<lambda>f. \<not> fb_ext f) (fibers p)))"
    unfolding split [symmetric] by (rule mset_map)
  also have "\<dots> = mset (asked p) + mset (asked_in p)" unfolding ask [symmetric] by (simp only: image_mset_union mset_map)
  finally have m: "mset (map fb_req (fibers p)) = mset (asked p) + mset (asked_in p)" .
  have "mset (joined p) = image_mset sr_join (mset (map fb_req (fibers p)))"
    using sp e(1) by (simp add: spawn_ok_def image_mset.compositionality comp_def)
  also have "\<dots> = mset (map sr_join (asked p @ asked_in p))" unfolding m by simp
  finally show ?thesis using e m by blast
qed


section \<open>Runs\<close>

text \<open>
  The abort of a task handed over during a shutdown is possible: the thread finds the worker open, the
  pool is destroyed, the worker leaves its loop, and then the wake-up fails. The test of \<open>closing\<close> comes
  before \<open>pending_handle_tasks\<close> is raised, so the worker does not wait for the task.
\<close>

theorem task_races_with_shutdown:
  "obind (Some (goc_pool_make (\<lambda>_. 0) 0 1)) (pool_run [ETask 0 (3, 4), DestroyBegin, Step 0, EPush 0, ESend 0])
   = Some (Inl (Abort ''post_on_handle_loop: cannot wake worker loop''))"
  by (simp add: goc_pool_make_def wsdq_init_def new_worker_def handle_test_def handle_push_def handle_wake_def
      destroy_begin_def worker_step_def upd_worker_def drain_worker_tasks_def Let_def)

text \<open>
  Two workers and a cap of one: the second spawn waits until the first fiber ends; then the drain
  finds no fiber left.
\<close>

definition demo_acts :: "pool_act list" where
  "demo_acts = [ESpawn 7 0 5, ESpawn 8 0 6, ETask 0 (3, 4), EPush 0, ESend 0, Wake 0, Step 0, Step 0, Step 0, FEnd 0,
     Step 0, Step 0, FEnd 0]"

definition demo_pool :: goc_pool where
  "demo_pool = projr (the (obind (Some (goc_pool_make (\<lambda>_. 0) 1 2)) (pool_run demo_acts)))"

lemma demo_pool_run:
  "\<exists>p. obind (Some (goc_pool_make (\<lambda>_. 0) 1 2)) (pool_run demo_acts) = Some (Inr p)
     \<and> length (workers p) = 2 \<and> live_count p = 0 \<and> destroyer p = None"
  by (simp add: demo_acts_def goc_pool_make_def wsdq_init_def new_worker_def pool_submit_spawn_def submit_spawn_def
      goc_fiber_entry_create_def pool_spawn_cap_reached_locked_def pool_enqueue_spawn_locked_def
      pool_collect_admitted_spawns_locked.simps Let_def post_to_run_queue_def push_remote_def with_injector_def lread_def
      injector_push_def injector_init_def upd_worker_def wake_pushed_def worker_try_wakeup_def worker_step_def goto_def
      with_deque_def wsdq_pop_bottom_def injector_pop_def node_at_def pick_up_def no_miss_def in_fiber_def fiber_dead_def
      drain_io_def deliver_def drain_worker_tasks_def push_local_def wsdq_push_bottom_def neighbor_def handle_test_def handle_push_def handle_wake_def
      push_bottom_def ring_write_def ring_read_def ring_alloc_def slots_eq lwrite_def upt_rec size_add_eq size_sub_eq)

lemma demo_reaches: "reaches (\<lambda>_. 0) 1 2 demo_acts (Inr demo_pool)" "length (workers demo_pool) = 2"
  "pool_step DestroyBegin demo_pool \<noteq> None"
proof -
  obtain p where p: "obind (Some (goc_pool_make (\<lambda>_. 0) 1 2)) (pool_run demo_acts) = Some (Inr p)"
    "length (workers p) = 2" "live_count p = 0" "destroyer p = None" using demo_pool_run by blast
  have d: "demo_pool = p" unfolding demo_pool_def p(1) by simp
  show "reaches (\<lambda>_. 0) 1 2 demo_acts (Inr demo_pool)" unfolding reaches_def d p(1) by (simp add: demo_acts_def)
  show "length (workers demo_pool) = 2" "pool_step DestroyBegin demo_pool \<noteq> None"
    using p by (simp_all add: d destroy_begin_def)
qed


theorem worker_makes_progress_witness:
  "\<exists>k p'. k \<le> 2 * length (workers demo_pool) + 19 \<and> pool_run (replicate k (Step 1)) demo_pool = Some (Inr p')
    \<and> (case w_pc (workers p' ! 1) of
         WRun e \<Rightarrow> True
       | WExit \<Rightarrow> True
       | WSleep \<Rightarrow> wsdq_approx_size (w_deque (workers p' ! 1)) = 0
           \<and> (inj_head (w_injector (workers p' ! 1)) \<noteq> None \<and> \<not> pool_shutdown p' \<longrightarrow> 1 \<in> set (waking p'))
           \<and> (pool_shutdown p' \<longrightarrow> (\<exists>k \<le> 1. destroyer p' = Some k))
       | _ \<Rightarrow> False)"
  by (rule worker_makes_progress [OF demo_reaches(1)]) (simp add: demo_reaches(2))


theorem destroy_waits_for_fibers_witness:
  "alive demo_pool = [] \<and> mset (joined demo_pool) = mset (map sr_join (asked demo_pool @ asked_in demo_pool))"
  using destroy_waits_for_fibers [OF demo_reaches(1,3)] by blast


end
