(* ===== verification/Spec2Isabelle.thy ===== *)
theory Spec2Isabelle
  imports Goc_Dict_Path Goc_Chan_Props Goc_Dispatch Goc_Alts_Props Goc_Mutex_Props Goc_Timer_Props Goc_Wsdq_Props Goc_Loop_Props Goc_Pool_Props
begin

text \<open>
  Verification of libgoc, a C library of fibers, channels and containers in the style of Go and
  Clojure's core.async. Paths of C files below are relative to \<open>src/src\<close>, those of headers to
  \<open>src/include\<close> or \<open>src/src\<close>.

  \<^bold>\<open>The program.\<close> Fibers run on the worker threads of a pool (pool.c, fiber.c), each with a
  work-stealing deque and an injector (wsdq.c). They communicate over channels (channel.c,
  channel\_internal.h) and select over several of them (alts.c). A channel parks its waiters as
  entries; whoever claims an entry makes the fiber runnable by posting it to its pool, posts the
  semaphore of an OS thread, or hands a callback to the event loop (loop.c), which owns a queue of
  callbacks and the timer heap behind timeout channels (timeout.c). The read-write mutex (mutex.c)
  is built from channels. Values are kept in a collected heap (gc.c) and in arrays and dictionaries
  (goc\_array.c, goc\_dict.c).

  \<^bold>\<open>Conventions\<close> (Goc\_Prelude, Goc\_Heap, Goc\_Refine). A C struct is a record, an enum a datatype, a
  function of the source a function of the same name on the state it changes. \<open>size_t\<close> is a natural
  number with the wrap-around of 64 bits written out (\<open>size_add\<close>, \<open>size_sub\<close>, \<open>size_mul\<close>); the hash and
  the victim choice use words. Code that can fail returns \<open>fault + 'a\<close>: \<open>Abort\<close> is the ABORT macro or
  a failed assertion, \<open>OutOfBounds\<close> an access outside a live block. Loops that may not end, and steps
  that may not be enabled, add an option around it (\<open>'a out\<close>). What other threads can do between two
  steps is a schedule: a list of steps run one after the other, over which the theorems quantify.
  Goc\_Refine states once what it means that operations implement a specification (locale
  \<open>op_simulation\<close>) and that runs then do too; it is interpreted on arrays, dictionaries, channels,
  the mutex, the deque and the injector. Goc\_Pool\_Queues states what the scheduler needs of a queue
  (locale \<open>work_queue\<close>), interpreted on the deque as its worker sees it, on the deque as thieves see
  it, and on the injector.

  \<^bold>\<open>Containers.\<close> Goc\_Array is goc\_array.c over blocks of the heap, so that the sharing of slices and
  writes outside a block are visible; it refines lists. Goc\_Hash is the open-addressing table of
  goc\_dict.c (FNV-1a, probing, tombstones, rehashing), Goc\_Dict the dictionary, Goc\_Dict\_Ops its
  runs, copies, merges and entries, Goc\_Dict\_Path the lookup along a path; it refines
  insertion-ordered association lists. The loops are partial functions and proved to end.

  \<^bold>\<open>Channels.\<close> Goc\_Channel has the data of internal.h and chan\_type.h and the helpers under the
  channel lock, Goc\_Chan\_Ops the operations of channel.c in their fiber, thread and callback
  variants, split where they park, Goc\_Take\_All the takes from a list of channels. Goc\_Chan\_Spec is
  the abstract channel; Goc\_Chan\_Refine and Goc\_Close prove that every operation implements it,
  Goc\_Chan\_Run and Goc\_Chan\_Props carry this to all sequences of operations: conservation of values,
  order, closing. Goc\_Claim interleaves the compare-and-swap steps of \<open>try_claim_wake\<close>.
  Goc\_Alts and Goc\_Alts\_Props are select; the channels live in a store and other operations may come
  between its phases.

  \<^bold>\<open>Mutex, timers, event loop.\<close> Goc\_Mutex, Goc\_Mutex\_Queue and Goc\_Mutex\_Props: mutex.c against a
  fair read-write lock. Goc\_Timer\_Heap, Goc\_Timer and Goc\_Timer\_Props: the timer manager of loop.c and
  timeout.c; \<open>uv_hrtime\<close> is an argument. Goc\_Loop\_Queue and Goc\_Loop\_Props: the callback queue of
  loop.c, producers and loop thread interleaved access by access; Goc\_Dispatch: what the loop thread
  does with an entry, composed with the channel operations.

  \<^bold>\<open>Scheduler.\<close> Goc\_Wsdq has the deque and the injector of wsdq.c, the deque also cut into its atomic
  accesses; Goc\_Wsdq\_Props shows that under every schedule each entry is handed out once. Goc\_Pool is
  pool.c: workers step through \<open>pool_worker_fn\<close>, fibers and other threads post, spawn and end.
  Goc\_Pool\_Queues, Goc\_Pool\_Sched and Goc\_Pool\_Inv prove its invariant, Goc\_Pool\_Props what follows
  from it: entries posted run once, a worker left to itself makes progress, spawns are admitted in
  order under the cap, and a pool is drained before it is stopped.

  \<^bold>\<open>Bounds.\<close> Theorems about long runs assume sizes below those where 64-bit counters wrap: at most
  \<open>2 ^ 57\<close> steps of a pool, deque indices up to \<open>2 ^ 59\<close>, arrays whose size in bytes fits; where a smaller
  bound is a defect of the code it is a theorem (the capacity rounding of dictionaries, the deadline
  of a timeout). No function of the model uses fuel except where the text above a definition says so.

  \<^bold>\<open>Third-party code.\<close> The collector appears as the answer to an allocation (\<open>gc_null\<close>) and clears what
  it hands out. libuv appears by its contract: a send on an open async handle succeeds and is followed
  by a call of its handler, mutexes exclude, times come as arguments. minicoro appears as the two
  places where control passes between a worker and a fiber. The memory model is sequentially
  consistent.

  \<^bold>\<open>Not modelled.\<close> goc\_io.c and goc\_http.c are wrappers around libuv handles, sockets and the HTTP
  parser: what they do is decided by those libraries. goc\_json.c converts to and from yyjson's
  documents. goc\_stats.c and goc\_debug.c are telemetry and debug output and have no effect on the
  rest. Of gc.c the start-up and shutdown sequence and the registries, of loop.c the start-up and
  shutdown of the libuv loop, of pool.c the closing of a worker's libuv loop, the registry of pools
  and the default cap (environment and memory size) are left out. minicoro.c only instantiates the
  coroutine library, and vendor/ is third-party code.
\<close>

end
